(* ===== verification/Prelude.thy ===== *)
theory Prelude
  imports Main "HOL-Library.Word"
begin

text \<open>
  The prelude of the development: the ways in which a modelled C function can
  stop without returning, the result type with its sequencing operator, the
  named collections of facts the component theories add to, and the generic
  facts about lists and words that several components share.
\<close>

type_synonym byte = "8 word"

section \<open>Results of C functions\<close>

text \<open>
  A C function of the repository either returns a value or stops for one of
  these reasons: the kernel's \<open>panic\<close> with its message; the calling process
  goes to sleep on a channel that nothing in the same run wakes; a user
  program leaves through \<open>exit\<close> with a status; the C code leaves the bounds of
  an object; a loop whose model carries fuel has not ended within it.
\<close>

datatype stop = Panic string | Asleep | Exit int | Fault | NoFuel

datatype 'a res = Ok 'a | Err stop

definition bindr :: "'a res \<Rightarrow> ('a \<Rightarrow> 'b res) \<Rightarrow> 'b res" where
  "bindr m f = (case m of Ok x \<Rightarrow> f x | Err e \<Rightarrow> Err e)"

named_theorems res_intros \<open>facts that a call returns normally\<close>
named_theorems layout_simps \<open>the numeric values of the constants of the headers\<close>

lemma bindr_Ok [simp]: "bindr (Ok x) f = f x"
  by (simp add: bindr_def)

lemma bindr_Err [simp]: "bindr (Err e) f = Err e"
  by (simp add: bindr_def)

lemma bindr_eq_Ok: "bindr m f = Ok y \<longleftrightarrow> (\<exists>x. m = Ok x \<and> f x = Ok y)"
  by (cases m) simp_all

lemma bindr_OkE [elim]:
  assumes "bindr m f = Ok y"
  obtains x where "m = Ok x" "f x = Ok y"
  using assms by (auto simp: bindr_eq_Ok)

lemma bindr_assoc: "bindr (bindr m f) g = bindr m (\<lambda>x. bindr (f x) g)"
  by (cases m) simp_all

lemma bindr_cong [fundef_cong]:
  assumes "m = m'" "\<And>x. m' = Ok x \<Longrightarrow> f x = f' x"
  shows "bindr m f = bindr m' f'"
  using assms by (cases m') simp_all

definition assertr :: "stop \<Rightarrow> bool \<Rightarrow> unit res" where
  "assertr e b = (if b then Ok () else Err e)"

lemma assertr_True [simp]: "assertr e True = Ok ()"
  by (simp add: assertr_def)

lemma assertr_False [simp]: "assertr e False = Err e"
  by (simp add: assertr_def)

lemma assertr_eq_Ok [simp]: "assertr e b = Ok x \<longleftrightarrow> b"
  by (simp add: assertr_def)

section \<open>Lists\<close>

text \<open>
  Stores into arrays: an index outside the array is outside the object.
\<close>

definition store_at :: "'a list \<Rightarrow> nat \<Rightarrow> 'a \<Rightarrow> 'a list res" where
  "store_at xs i v = (if i < length xs then Ok (xs[i := v]) else Err Fault)"

lemma store_at_Ok [simp]: "i < length xs \<Longrightarrow> store_at xs i v = Ok (xs[i := v])"
  by (simp add: store_at_def)

lemma store_at_Fault [simp]: "length xs \<le> i \<Longrightarrow> store_at xs i v = Err Fault"
  by (simp add: store_at_def)

lemma take_update_Suc:
  "i < length xs \<Longrightarrow> take (Suc i) (xs[i := v]) = take i xs @ [v]"
  by (simp add: take_Suc_conv_app_nth)

lemma take_update_Suc_same:
  "length (take n xs) = i \<Longrightarrow> i < length xs \<Longrightarrow> n = i \<Longrightarrow> take (Suc n) (xs[n := v]) = take n xs @ [v]"
  by (simp add: take_update_Suc)

lemma nth_eq_imp_map: "length xs = n \<Longrightarrow> (\<And>i. i < n \<Longrightarrow> xs ! i = f i) \<Longrightarrow> xs = map f [0..<n]"
  by (rule nth_equalityI) simp_all

lemma find_SomeD: "List.find P xs = Some x \<Longrightarrow> x \<in> set xs \<and> P x"
  by (auto simp: find_Some_iff)

section \<open>Bytes\<close>

lemma byte_lt: "unat (b :: byte) < 256"
  by (rule unsigned_less [of b, simplified])

lemma unat_ucast_byte: "unat (ucast (b :: byte) :: 32 word) = unat b"
  using byte_lt [of b] by (simp add: unsigned_ucast_eq take_bit_nat_eq_self)

lemma ucast_byte_of_nat: "(ucast (b :: byte) :: 32 word) = of_nat (unat b)"
  by simp

end
