(* ===== verification/Posix_Io.thy ===== *)
theory Posix_Io
  imports Prelude
begin

text \<open>
  The input and output helpers that the programs under src/POSIX share
  (\<open>read_buffers\<close> and \<open>buffer_to_fdout\<close>), over the system calls \<open>read\<close> and
  \<open>write\<close>, which are parameters.  The locale \<open>posix_io\<close> states the documented
  behaviour of the two calls in a run without input/output errors, transfers
  of fewer bytes than asked for included; the helpers are shown to hide the
  short transfers.
\<close>


text \<open>
  \<open>read\<close> takes the world, a descriptor and a count, and gives the C return
  value, the bytes it stored and the new world; \<open>write\<close> takes the bytes and
  gives the return value and the new world.
\<close>

type_synonym 'w read_sys = "'w \<Rightarrow> int \<Rightarrow> nat \<Rightarrow> int \<times> byte list \<times> 'w"
type_synonym 'w write_sys = "'w \<Rightarrow> int \<Rightarrow> byte list \<Rightarrow> int \<times> 'w"

abbreviation (input) STDIN_FILENO :: int where "STDIN_FILENO \<equiv> 0"
abbreviation (input) STDOUT_FILENO :: int where "STDOUT_FILENO \<equiv> 1"
abbreviation (input) EXIT_FAILURE :: int where "EXIT_FAILURE \<equiv> 1"
abbreviation (input) EXIT_SUCCESS :: int where "EXIT_SUCCESS \<equiv> 0"

section \<open>The loops\<close>

text \<open>
  The variable \<open>num_written\<close> of both helpers is not initialised: when the
  count is 0 the test after the loop reads whatever value it has, the argument
  \<open>nw\<close> of the models.
\<close>

function read_loop :: "'w read_sys \<Rightarrow> int \<Rightarrow> nat \<Rightarrow> int \<Rightarrow> byte list \<Rightarrow> 'w \<Rightarrow> int \<times> byte list \<times> 'w" where
  "read_loop rd fdin num_left nw buf w =
     (if num_left > 0 then
        (case rd w fdin num_left of (k, bs, w') \<Rightarrow>
           if k > 0 then read_loop rd fdin (num_left - nat k) k (buf @ bs) w'
           else (k, buf, w'))
      else (nw, buf, w))"
  by pat_completeness auto
termination by (relation "measure (\<lambda>(rd, fdin, num_left, nw, buf, w). num_left)") auto

definition read_buffers :: "'w read_sys \<Rightarrow> int \<Rightarrow> nat \<Rightarrow> int \<Rightarrow> 'w \<Rightarrow> (byte list \<times> 'w) res" where
  "read_buffers rd fdin buf_size nw w =
     (case read_loop rd fdin buf_size nw [] w of (num_written, buf, w') \<Rightarrow>
        if num_written = -1 then Err (Exit EXIT_FAILURE) else Ok (buf, w'))"

function write_loop :: "'w write_sys \<Rightarrow> int \<Rightarrow> int \<Rightarrow> byte list \<Rightarrow> 'w \<Rightarrow> int \<times> 'w" where
  "write_loop wr fdout nw buf_left w =
     (if buf_left \<noteq> [] then
        (case wr w fdout buf_left of (k, w') \<Rightarrow>
           if k > 0 then write_loop wr fdout k (drop (nat k) buf_left) w'
           else (k, w'))
      else (nw, w))"
  by pat_completeness auto
termination by (relation "measure (\<lambda>(wr, fdout, nw, buf_left, w). length buf_left)") auto

definition buffer_to_fdout :: "'w write_sys \<Rightarrow> byte list \<Rightarrow> int \<Rightarrow> int \<Rightarrow> 'w \<Rightarrow> 'w res" where
  "buffer_to_fdout wr buf fdout nw w =
     (case write_loop wr fdout nw buf w of (num_written, w') \<Rightarrow>
        if num_written = -1 then Err (Exit EXIT_FAILURE) else Ok w')"

declare read_loop.simps [simp del]
declare write_loop.simps [simp del]

section \<open>The contract of the system calls\<close>

locale posix_io =
  fixes rd :: "'w read_sys"
    and wr :: "'w write_sys"
    and inp :: "'w \<Rightarrow> int \<Rightarrow> byte list"
    and outp :: "'w \<Rightarrow> int \<Rightarrow> byte list"
  assumes rd_ok: "rd w fd n = (k, bs, w') \<Longrightarrow> 0 < n \<Longrightarrow>
      0 \<le> k \<and> nat k \<le> n \<and> nat k \<le> length (inp w fd) \<and> bs = take (nat k) (inp w fd)
      \<and> (k = 0 \<longrightarrow> inp w fd = [])
      \<and> inp w' = (inp w)(fd := drop (nat k) (inp w fd)) \<and> outp w' = outp w"
    and wr_ok: "wr w fd bs = (k, w') \<Longrightarrow> bs \<noteq> [] \<Longrightarrow>
      0 < k \<and> nat k \<le> length bs
      \<and> outp w' = (outp w)(fd := outp w fd @ take (nat k) bs) \<and> inp w' = inp w"
begin

lemma read_loop_ok:
  "0 \<le> nw \<or> 0 < n \<Longrightarrow>
   \<exists>k w'. read_loop rd fd n nw buf w = (k, buf @ take n (inp w fd), w') \<and> 0 \<le> k
     \<and> inp w' = (inp w)(fd := drop n (inp w fd)) \<and> outp w' = outp w"
proof (induction n arbitrary: nw buf w rule: less_induct)
  case (less n)
  show ?case
  proof (cases "0 < n")
    case False
    with less.prems show ?thesis by (simp add: read_loop.simps)
  next
    case True
    obtain k bs w1 where r: "rd w fd n = (k, bs, w1)" by (cases "rd w fd n") auto
    note f = rd_ok [OF r True]
    show ?thesis
    proof (cases "0 < k")
      case False
      with r True f show ?thesis by (auto simp: read_loop.simps fun_eq_iff)
    next
      case k: True
      have lt: "n - nat k < n" and nn: "0 \<le> k \<or> 0 < n - nat k" using k True by simp_all
      from less.IH [OF lt nn, of "buf @ bs" w1] obtain k' w' where
        ih: "read_loop rd fd (n - nat k) k (buf @ bs) w1
               = (k', (buf @ bs) @ take (n - nat k) (inp w1 fd), w')" "0 \<le> k'"
            "inp w' = (inp w1)(fd := drop (n - nat k) (inp w1 fd))" "outp w' = outp w1"
        by blast
      have "bs @ take (n - nat k) (inp w1 fd) = take n (inp w fd)"
        using f by (simp flip: take_add)
      with r True k ih f show ?thesis by (simp add: read_loop.simps [of rd fd n nw buf w] fun_eq_iff)
    qed
  qed
qed

lemma read_buffers_ok:
  assumes "0 < n"
  obtains w' where "read_buffers rd fd n nw w = Ok (take n (inp w fd), w')"
    "inp w' = (inp w)(fd := drop n (inp w fd))" "outp w' = outp w"
  using read_loop_ok [of nw n fd "[]" w] assms that
  by (fastforce simp: read_buffers_def)

lemma write_loop_ok:
  "bs \<noteq> [] \<or> nw \<noteq> -1 \<Longrightarrow>
   \<exists>k w'. write_loop wr fd nw bs w = (k, w') \<and> k \<noteq> -1
     \<and> outp w' = (outp w)(fd := outp w fd @ bs) \<and> inp w' = inp w"
proof (induction bs arbitrary: nw w rule: length_induct)
  case (1 bs)
  show ?case
  proof (cases "bs = []")
    case True
    with 1 show ?thesis by (simp add: write_loop.simps)
  next
    case False
    obtain k w1 where r: "wr w fd bs = (k, w1)" by (cases "wr w fd bs") auto
    note f = wr_ok [OF r False]
    have lt: "length (drop (nat k) bs) < length bs" and k1: "drop (nat k) bs \<noteq> [] \<or> k \<noteq> -1"
      using f False by auto
    from 1(1) [rule_format, OF lt k1, of w1] obtain k' w' where
      ih: "write_loop wr fd k (drop (nat k) bs) w1 = (k', w')" "k' \<noteq> -1"
          "outp w' = (outp w1)(fd := outp w1 fd @ drop (nat k) bs)" "inp w' = inp w1"
      by blast
    with r False f show ?thesis by (simp add: write_loop.simps [of wr fd nw bs w] fun_eq_iff)
  qed
qed

lemma buffer_to_fdout_ok:
  assumes "bs \<noteq> [] \<or> nw \<noteq> -1"
  obtains w' where "buffer_to_fdout wr bs fd nw w = Ok w'"
    "outp w' = (outp w)(fd := outp w fd @ bs)" "inp w' = inp w"
  using write_loop_ok [of bs nw fd w] assms that
  by (fastforce simp: buffer_to_fdout_def)

end

section \<open>An instance with short transfers\<close>

text \<open>
  Descriptors over byte lists, where one call moves at most \<open>Suc lim\<close> bytes.
\<close>

record sim_world =
  sim_in :: "int \<Rightarrow> byte list"
  sim_out :: "int \<Rightarrow> byte list"

definition sim_read :: "nat \<Rightarrow> sim_world read_sys" where
  "sim_read lim w fd n =
     (let k = min (min n (Suc lim)) (length (sim_in w fd))
      in (int k, take k (sim_in w fd),
          w\<lparr>sim_in := (sim_in w)(fd := drop k (sim_in w fd))\<rparr>))"

definition sim_write :: "nat \<Rightarrow> sim_world write_sys" where
  "sim_write lim w fd bs =
     (let k = min (length bs) (Suc lim)
      in (int k, w\<lparr>sim_out := (sim_out w)(fd := sim_out w fd @ take k bs)\<rparr>))"

interpretation sim: posix_io "sim_read lim" "sim_write lim" sim_in sim_out for lim
  by unfold_locales (auto simp: sim_read_def sim_write_def Let_def min_def split: if_splits)

end
