(* ===== verification/Split_Files.thy ===== *)
theory Split_Files
  imports Posix_Io
begin

text \<open>
  src/POSIX/split\_files.c: the bytes of the standard input are dealt out in
  turn to up to 16 output files, through one buffer of \<open>t\<close> bytes per file.
  The model keeps the buffers as arrays of length \<open>t\<close>, so that a store past
  the end of one is a \<open>Fault\<close>.  Shown: no store leaves its buffer, and the
  files receive exactly the bytes of their residue class when the input does
  not end on a buffer boundary; an input that does end on one loses bytes.
\<close>

section \<open>Model\<close>

text \<open>
  The options as \<open>getopt\<close> delivers them, each with \<open>atoi(optarg)\<close>; the result
  is \<open>t\<close> and the error flag.
\<close>

fun split_opts :: "(char \<times> int) list \<Rightarrow> int \<Rightarrow> bool \<Rightarrow> int \<times> bool" where
  "split_opts [] t error_flag = (t, error_flag)"
| "split_opts ((opt, v) # opts) t error_flag =
     (if opt = CHR ''t'' then split_opts opts v (error_flag \<or> v < 1 \<or> v > 1048576)
      else split_opts opts t True)"

record split_st =
  current_file :: nat
  offset_out :: "nat list"
  buff_out :: "byte list list"

definition write_in_buffer :: "byte list \<Rightarrow> byte list \<Rightarrow> nat \<Rightarrow> nat \<Rightarrow> byte list res" where
  "write_in_buffer buf_in bout off_out off_in = store_at bout off_out (buf_in ! off_in)"

text \<open>One pass of the \<open>for\<close> over the files.\<close>

fun split_for :: "nat \<Rightarrow> byte list \<Rightarrow> nat list \<Rightarrow> split_st \<Rightarrow> nat \<Rightarrow> (split_st \<times> nat) res" where
  "split_for nf buf_in [] st offset_in = Ok (st, offset_in)"
| "split_for nf buf_in (i # is) st offset_in =
     (if offset_in \<ge> length buf_in then Ok (st, offset_in)
      else bindr
        (if current_file st = i then
           bindr (write_in_buffer buf_in (buff_out st ! i) (offset_out st ! i) offset_in) (\<lambda>b.
             Ok (st\<lparr>buff_out := (buff_out st)[i := b],
                    offset_out := (offset_out st)[i := offset_out st ! i + 1],
                    current_file := current_file st + 1\<rparr>, offset_in + 1))
         else Ok (st, offset_in))
        (\<lambda>(st, offset_in).
           split_for nf buf_in is
             (if current_file st = nf then st\<lparr>current_file := 0\<rparr> else st) offset_in))"

fun split_while :: "nat \<Rightarrow> nat \<Rightarrow> byte list \<Rightarrow> split_st \<Rightarrow> nat \<Rightarrow> split_st res" where
  "split_while 0 nf buf_in st offset_in =
     (if offset_in < length buf_in then Err NoFuel else Ok st)"
| "split_while (Suc fuel) nf buf_in st offset_in =
     (if offset_in < length buf_in then
        bindr (split_for nf buf_in [0..<nf] st offset_in) (\<lambda>(st, offset_in).
          split_while fuel nf buf_in st offset_in)
      else Ok st)"

text \<open>Writing out the buffers that are full, or all of them after the last bytes.\<close>

fun split_flush :: "'w write_sys \<Rightarrow> ('w \<Rightarrow> int) \<Rightarrow> nat \<Rightarrow> nat \<Rightarrow> int list \<Rightarrow> nat list \<Rightarrow> split_st \<Rightarrow> 'w
    \<Rightarrow> (split_st \<times> 'w) res" where
  "split_flush wr nw t num_readed fdout [] st w = Ok (st, w)"
| "split_flush wr nw t num_readed fdout (i # is) st w =
     bindr
       (if offset_out st ! i = t \<or> num_readed < t then
          bindr (buffer_to_fdout wr (take (offset_out st ! i) (buff_out st ! i)) (fdout ! i) (nw w) w)
            (\<lambda>w. Ok (st\<lparr>offset_out := (offset_out st)[i := 0]\<rparr>, w))
        else Ok (st, w))
       (\<lambda>(st, w). split_flush wr nw t num_readed fdout is st w)"

fun split_loop :: "'w read_sys \<Rightarrow> 'w write_sys \<Rightarrow> ('w \<Rightarrow> int) \<Rightarrow> nat \<Rightarrow> nat \<Rightarrow> int list \<Rightarrow> split_st \<Rightarrow> 'w
    \<Rightarrow> (split_st \<times> 'w) res" where
  "split_loop rd wr nw t 0 fdout st w = Err NoFuel"
| "split_loop rd wr nw t (Suc fuel) fdout st w =
     bindr (read_buffers rd STDIN_FILENO t (nw w) w) (\<lambda>(buf_in, w).
       let num_readed = length buf_in; nf = length fdout in
       if num_readed > 0 then
         bindr (split_while num_readed nf buf_in st 0) (\<lambda>st.
         bindr (split_flush wr nw t num_readed fdout [0..<nf] st w) (\<lambda>(st, w).
           split_loop rd wr nw t fuel fdout st w))
       else Ok (st, w))"

text \<open>
  Opening the outputs: \<open>fds\<close> are the results of \<open>open\<close>, \<open>mal j\<close> says whether
  the \<open>j\<close>-th \<open>malloc\<close> succeeds, \<open>cls j\<close> whether the \<open>j\<close>-th \<open>close\<close> does.
  Storage from \<open>malloc\<close> is never read before it is written.
\<close>

fun split_open :: "(nat \<Rightarrow> bool) \<Rightarrow> nat \<Rightarrow> int list \<Rightarrow> unit res" where
  "split_open mal j [] = Ok ()"
| "split_open mal j (fd # fds) =
     (if fd = -1 then Err (Exit EXIT_FAILURE)
      else if \<not> mal j then Err (Exit EXIT_FAILURE)
      else split_open mal (j + 1) fds)"

fun split_close :: "(nat \<Rightarrow> bool) \<Rightarrow> nat \<Rightarrow> int list \<Rightarrow> unit res" where
  "split_close cls j [] = Ok ()"
| "split_close cls j (fd # fds) =
     (if \<not> cls j then Err (Exit EXIT_FAILURE) else split_close cls (j + 1) fds)"

definition split_main :: "'w read_sys \<Rightarrow> 'w write_sys \<Rightarrow> ('w \<Rightarrow> int) \<Rightarrow> (nat \<Rightarrow> bool) \<Rightarrow> (nat \<Rightarrow> bool)
    \<Rightarrow> nat \<Rightarrow> (char \<times> int) list \<Rightarrow> int list \<Rightarrow> 'w \<Rightarrow> 'w res" where
  "split_main rd wr nw mal cls fuel opts fds w =
     (let (t, error_flag) = split_opts opts 1024 False; num_ficheros = length fds in
      if error_flag \<or> num_ficheros < 1 \<or> num_ficheros > 16 then Err (Exit EXIT_FAILURE)
      else bindr (split_open mal 0 fds) (\<lambda>_.
        if \<not> mal num_ficheros then Err (Exit EXIT_FAILURE)
        else bindr (split_loop rd wr nw (nat t) fuel fds
               \<lparr>current_file = 0, offset_out = replicate num_ficheros 0,
                buff_out = replicate num_ficheros (replicate (nat t) 0)\<rparr> w) (\<lambda>(st, w).
          bindr (split_close cls 0 fds) (\<lambda>_. Ok w))))"

section \<open>The bytes of one residue class\<close>

text \<open>\<open>strand k j xs\<close>: the bytes of \<open>xs\<close> at the positions that are \<open>j\<close> modulo \<open>k\<close>.\<close>

definition strand :: "nat \<Rightarrow> nat \<Rightarrow> 'a list \<Rightarrow> 'a list" where
  "strand k j xs = nths xs {p. p mod k = j}"

lemma strand_Nil [simp]: "strand k j [] = []"
  by (simp add: strand_def)

lemma strand_snoc:
  "strand k j (xs @ [x]) = strand k j xs @ (if length xs mod k = j then [x] else [])"
  by (simp add: strand_def nths_append)

lemma Suc_mod_cong_iff:
  assumes "j < k"
  shows "Suc (m + (k - Suc j)) mod k = 0 \<longleftrightarrow> m mod k = j"
proof -
  have "Suc (m + (k - Suc j)) = m + (k - j)" using assms by simp
  also have "(m + (k - j)) mod k = (m mod k + (k - j)) mod k" by (simp add: mod_add_left_eq)
  finally have e: "Suc (m + (k - Suc j)) mod k = (m mod k + (k - j)) mod k" .
  have r: "m mod k < k" using assms by simp
  show ?thesis
  proof (cases "m mod k < j")
    case True
    then have "(m mod k + (k - j)) mod k = m mod k + (k - j)" using assms by simp
    with e True assms show ?thesis by simp
  next
    case False
    then have "(m mod k + (k - j)) mod k = (k + (m mod k - j)) mod k" using assms by (simp add: add.commute)
    also have "\<dots> = m mod k - j" using r by simp
    finally show ?thesis using e False by auto
  qed
qed

lemma length_strand:
  assumes "j < k"
  shows "length (strand k j xs) = (length xs + (k - Suc j)) div k"
proof (induction xs rule: rev_induct)
  case Nil
  then show ?case using assms by simp
next
  case (snoc x xs)
  then show ?case using Suc_mod_cong_iff [OF assms, of "length xs"]
    by (simp add: strand_snoc div_Suc)
qed

section \<open>The loop over one buffer of input\<close>

text \<open>
  The state after the bytes \<open>xs\<close> have been dealt out, when \<open>base j\<close> is what
  file \<open>j\<close> already holds.
\<close>

definition split_inv :: "nat \<Rightarrow> nat \<Rightarrow> (nat \<Rightarrow> byte list) \<Rightarrow> byte list \<Rightarrow> split_st \<Rightarrow> bool" where
  "split_inv nf t base xs st \<longleftrightarrow>
     current_file st = length xs mod nf \<and> length (offset_out st) = nf \<and> length (buff_out st) = nf
     \<and> (\<forall>j < nf. length (buff_out st ! j) = t \<and> offset_out st ! j \<le> t
          \<and> base j @ take (offset_out st ! j) (buff_out st ! j) = strand nf j xs)"

lemma split_invD:
  assumes "split_inv nf t base xs st" "j < nf"
  shows "length (buff_out st ! j) = t" "offset_out st ! j \<le> t"
    "base j @ take (offset_out st ! j) (buff_out st ! j) = strand nf j xs"
  using assms by (simp_all add: split_inv_def)

lemma split_inv_offset:
  assumes "split_inv nf t base xs st" "j < nf"
  shows "length (base j) + offset_out st ! j = length (strand nf j xs)"
  using split_invD(1,2) [OF assms] by (simp flip: split_invD(3) [OF assms])

definition split_fits :: "nat \<Rightarrow> nat \<Rightarrow> (nat \<Rightarrow> byte list) \<Rightarrow> byte list \<Rightarrow> bool" where
  "split_fits nf t base xs \<longleftrightarrow> (\<forall>j < nf. length (strand nf j xs) \<le> length (base j) + t)"

lemma strand_append_le: "length (strand k j xs) \<le> length (strand k j (xs @ ys))"
  by (simp add: strand_def nths_append)

lemma split_fits_prefix: "split_fits nf t base (xs @ ys) \<Longrightarrow> split_fits nf t base xs"
  unfolding split_fits_def using strand_append_le le_trans by blast

text \<open>The state after one more byte.\<close>

definition split_put :: "nat \<Rightarrow> byte \<Rightarrow> split_st \<Rightarrow> split_st" where
  "split_put nf x st =
     (let j = current_file st in
      st\<lparr>buff_out := (buff_out st)[j := (buff_out st ! j)[offset_out st ! j := x]],
         offset_out := (offset_out st)[j := offset_out st ! j + 1],
         current_file := (if Suc j = nf then 0 else Suc j)\<rparr>)"

lemma split_inv_store:
  assumes inv: "split_inv nf t base xs st" and fits: "split_fits nf t base (xs @ [x])"
    and nf: "0 < nf" and j: "j = current_file st"
  shows "offset_out st ! j < t" "j < nf" "length (buff_out st ! j) = t"
    "split_inv nf t base (xs @ [x]) (split_put nf x st)"
proof -
  show jn: "j < nf" using inv nf j by (simp add: split_inv_def)
  have o: "length (base j) + offset_out st ! j = length (strand nf j xs)"
    using inv jn by (rule split_inv_offset)
  have lm: "length xs mod nf = j" using inv j by (simp add: split_inv_def)
  have "length (strand nf j (xs @ [x])) \<le> length (base j) + t"
    using fits jn by (simp add: split_fits_def)
  with o lm show lt: "offset_out st ! j < t" by (simp add: strand_snoc)
  show lb: "length (buff_out st ! j) = t" using inv jn by (rule split_invD)
  have c: "(if Suc j = nf then 0 else Suc j) = Suc (length xs) mod nf"
    using lm jn by (auto simp: mod_Suc)
  have len: "length (offset_out st) = nf" "length (buff_out st) = nf"
    using inv by (simp_all add: split_inv_def)
  have tk: "take (Suc (offset_out st ! j)) ((buff_out st ! j)[offset_out st ! j := x])
      = take (offset_out st ! j) (buff_out st ! j) @ [x]"
    using lt lb by (simp add: take_update_Suc)
  have "length (buff_out (split_put nf x st) ! k) = t \<and> offset_out (split_put nf x st) ! k \<le> t
      \<and> base k @ take (offset_out (split_put nf x st) ! k) (buff_out (split_put nf x st) ! k)
        = strand nf k (xs @ [x])" if k: "k < nf" for k
    using split_invD [OF inv k] tk lt lb k len lm j
    by (cases "k = j") (simp_all add: split_put_def Let_def strand_snoc)
  then show "split_inv nf t base (xs @ [x]) (split_put nf x st)"
    using len c j by (simp add: split_inv_def split_put_def Let_def del: split_paired_All split: if_split_asm)
qed

lemma split_for_ok:
  assumes fits: "split_fits nf t base (xs @ buf)" and nf: "0 < nf"
  shows "split_inv nf t base (xs @ take off buf) st \<Longrightarrow> off \<le> length buf \<Longrightarrow> i \<le> nf \<Longrightarrow>
     i = nf \<or> i \<le> current_file st \<Longrightarrow>
     \<exists>st' off'. split_for nf buf [i..<nf] st off = Ok (st', off') \<and> off' \<le> length buf
       \<and> split_inv nf t base (xs @ take off' buf) st'
       \<and> off \<le> off' \<and> (off < length buf \<and> i < nf \<longrightarrow> off < off')"
proof (induction "nf - i" arbitrary: i st off)
  case 0
  then show ?case by auto
next
  case (Suc d)
  then have i: "i < nf" and up: "[i..<nf] = i # [Suc i..<nf]" by (auto simp: upt_conv_Cons)
  show ?case
  proof (cases "off < length buf")
    case False
    with Suc.prems up show ?thesis by auto
  next
    case True
    let ?ys = "xs @ take off buf"
    have tk: "xs @ take (Suc off) buf = ?ys @ [buf ! off]"
      using True by (simp add: take_Suc_conv_app_nth)
    have "(?ys @ [buf ! off]) @ drop (Suc off) buf = xs @ buf"
      using True by (simp add: id_take_nth_drop [symmetric])
    then have f: "split_fits nf t base (?ys @ [buf ! off])"
      using fits split_fits_prefix by metis
    show ?thesis
    proof (cases "current_file st = i")
      case eq: True
      note s = split_inv_store [OF Suc.prems(1) f nf eq [symmetric]]
      define st2 where "st2 = split_put nf (buf ! off) st"
      have inv2: "split_inv nf t base (xs @ take (Suc off) buf) st2"
        using s(4) tk by (simp add: st2_def)
      have "d = nf - Suc i" "Suc off \<le> length buf" "Suc i \<le> nf"
        "Suc i = nf \<or> Suc i \<le> current_file st2"
        using Suc.hyps(2) True i eq by (auto simp: st2_def split_put_def Let_def)
      then obtain st' off' where ih: "split_for nf buf [Suc i..<nf] st2 (Suc off) = Ok (st', off')"
        "off' \<le> length buf" "split_inv nf t base (xs @ take off' buf) st'" "Suc off \<le> off'"
        using Suc.hyps(1) [OF _ inv2, of "Suc i"] by blast
      have "split_for nf buf [i..<nf] st off = split_for nf buf [Suc i..<nf] st2 (Suc off)"
        using True eq s(1,3) by (simp add: up write_in_buffer_def st2_def split_put_def Let_def)
      with ih show ?thesis by auto
    next
      case ne: False
      have cur: "current_file st < nf" using Suc.prems(1) nf by (simp add: split_inv_def)
      have "d = nf - Suc i" "Suc i \<le> nf" "Suc i \<le> current_file st"
        using Suc.hyps(2) Suc.prems(4) i ne by auto
      then obtain st' off' where ih: "split_for nf buf [Suc i..<nf] st off = Ok (st', off')"
        "off' \<le> length buf" "split_inv nf t base (xs @ take off' buf) st'" "off \<le> off'"
        "off < length buf \<and> Suc i < nf \<longrightarrow> off < off'"
        using Suc.hyps(1) [OF _ Suc.prems(1,2), of "Suc i"] by blast
      have "split_for nf buf [i..<nf] st off = split_for nf buf [Suc i..<nf] st off"
        using True ne cur by (simp add: up)
      with ih True ne cur \<open>Suc i \<le> current_file st\<close> show ?thesis by auto
    qed
  qed
qed

lemma split_while_ok:
  assumes fits: "split_fits nf t base (xs @ buf)" and nf: "0 < nf"
  shows "split_inv nf t base (xs @ take off buf) st \<Longrightarrow> off \<le> length buf \<Longrightarrow>
     length buf - off \<le> fuel \<Longrightarrow>
     \<exists>st'. split_while fuel nf buf st off = Ok st' \<and> split_inv nf t base (xs @ buf) st'"
proof (induction fuel arbitrary: st off)
  case 0
  then show ?case by simp
next
  case (Suc fuel)
  show ?case
  proof (cases "off < length buf")
    case False
    with Suc.prems show ?thesis by simp
  next
    case True
    obtain st' off' where s: "split_for nf buf [0..<nf] st off = Ok (st', off')" "off' \<le> length buf"
      "split_inv nf t base (xs @ take off' buf) st'" "off < off'"
      using split_for_ok [OF fits nf Suc.prems(1,2), of 0] True nf by auto
    then have "length buf - off' \<le> fuel" using Suc.prems(3) by simp
    from Suc.IH [OF s(3,2) this] s True show ?thesis by auto
  qed
qed

section \<open>The loop over the input\<close>

text \<open>
  What holds between two buffers of input, when all buffers so far were full:
  with no more files than buffer bytes the files are written out together,
  every \<open>nf\<close> buffers; with more files than bytes no buffer is full.
\<close>

definition split_bound :: "nat \<Rightarrow> nat \<Rightarrow> (nat \<Rightarrow> byte list) \<Rightarrow> byte list \<Rightarrow> split_st \<Rightarrow> bool" where
  "split_bound nf t base xs st \<longleftrightarrow>
     (if nf \<le> t then \<forall>j < nf. length (base j) = length xs div t div nf * t
      else \<forall>j < nf. offset_out st ! j < t)"

lemma div_add_le:
  fixes m l n :: nat
  assumes "l \<le> n" "0 < n"
  shows "(m + l) div n \<le> m div n + 1"
proof -
  have "(m + l) div n \<le> (m + n) div n" using assms(1) by (simp add: div_le_mono)
  also have "\<dots> = m div n + 1" using assms(2) by (simp add: div_add_self2)
  finally show ?thesis .
qed

lemma mult_add_div: "r < n \<Longrightarrow> (q * n + r) div n = q" for q r n :: nat
  by simp

lemma split_bound_fits:
  assumes inv: "split_inv nf t base xs st" and bd: "split_bound nf t base xs st"
    and dv: "t dvd length xs" and l: "length buf \<le> t" and nf: "0 < nf" and t: "0 < t"
  shows "split_fits nf t base (xs @ buf)"
  unfolding split_fits_def
proof (intro allI impI)
  fix j assume j: "j < nf"
  show "length (strand nf j (xs @ buf)) \<le> length (base j) + t"
  proof (cases "nf \<le> t")
    case True
    obtain c where c: "length xs = c * t" using dv by (metis dvd_div_mult_self)
    have "c \<le> c div nf * nf + (nf - 1)"
      using nf by (metis div_mult_mod_eq add_le_cancel_left mod_less_divisor le_simps(2) Suc_pred')
    then have "c * t + t \<le> (c div nf * nf + (nf - 1)) * t + t" by (simp add: mult_le_mono1)
    also have "\<dots> = (c div nf * t + t) * nf"
      using nf by (cases nf) (simp_all add: algebra_simps)
    finally have "length xs + length buf \<le> (c div nf * t + t) * nf" using l c by simp
    then have "(length xs + length buf + (nf - Suc j)) div nf
        \<le> ((c div nf * t + t) * nf + (nf - 1)) div nf"
      by (intro div_le_mono add_mono) simp_all
    also have "\<dots> = c div nf * t + t" using nf by (intro mult_add_div) simp
    finally show ?thesis
      using bd j True c t by (simp add: length_strand split_bound_def)
  next
    case False
    then have "length buf \<le> nf" using l by simp
    then have "(length xs + (nf - Suc j) + length buf) div nf \<le> (length xs + (nf - Suc j)) div nf + 1"
      using nf by (rule div_add_le)
    moreover have "length (base j) + offset_out st ! j = (length xs + (nf - Suc j)) div nf"
      using split_inv_offset [OF inv j] j by (simp add: length_strand)
    moreover have "offset_out st ! j < t" using bd j False by (simp add: split_bound_def)
    ultimately show ?thesis using j by (simp add: length_strand add_ac)
  qed
qed

text \<open>After a full buffer the files are either all full or none is.\<close>

lemma split_full_offset:
  assumes inv: "split_inv nf t base (xs @ buf) st" and len: "length (base j) = length xs div t div nf * t"
    and dv: "t dvd length xs" and l: "length buf = t" and t: "0 < t" and nt: "nf \<le> t" and j: "j < nf"
  shows "(length (xs @ buf) div t) mod nf = 0 \<Longrightarrow> offset_out st ! j = t"
    "(length (xs @ buf) div t) mod nf \<noteq> 0 \<Longrightarrow> offset_out st ! j < t"
    "(length (xs @ buf) div t) mod nf = 0 \<Longrightarrow> length (xs @ buf) div t div nf * t = length (base j) + t"
    "(length (xs @ buf) div t) mod nf \<noteq> 0 \<Longrightarrow> length (xs @ buf) div t div nf * t = length (base j)"
proof -
  obtain c where c: "length xs = c * t" using dv by (metis dvd_div_mult_self)
  have nf: "0 < nf" using j by simp
  have c': "length (xs @ buf) div t = Suc c" using c l t by simp
  have b: "length (base j) = c div nf * t" using len c t by simp
  have o: "length (base j) + offset_out st ! j = (Suc c * t + (nf - Suc j)) div nf"
    using split_inv_offset [OF inv j] j c l by (simp add: length_strand add_ac)
  { assume z: "(length (xs @ buf) div t) mod nf = 0"
    then have q: "Suc c = Suc (c div nf) * nf"
      using c' by (metis mod_Suc div_Suc div_mult_mod_eq add.right_neutral)
    then have "Suc c * t = Suc (c div nf) * t * nf" by (metis mult.assoc mult.commute)
    then have "(Suc c * t + (nf - Suc j)) div nf = Suc (c div nf) * t"
      using j mult_add_div [of "nf - Suc j" nf "Suc (c div nf) * t"] by (metis diff_less zero_less_Suc nf)
    with o b show "offset_out st ! j = t" by simp
    show "length (xs @ buf) div t div nf * t = length (base j) + t"
      using z b unfolding c' by (simp add: div_Suc) }
  { assume z: "(length (xs @ buf) div t) mod nf \<noteq> 0"
    then have m: "Suc (c mod nf) < nf" using c' nf
      by (metis mod_Suc mod_less_divisor Suc_lessI)
    have "Suc c * t + (nf - Suc j) = c div nf * nf * t + Suc (c mod nf) * t + (nf - Suc j)"
      by (metis add_Suc_right add_mult_distrib div_mult_mod_eq)
    also have "\<dots> < c div nf * nf * t + (nf - 1) * t + t"
    proof -
      have "Suc (c mod nf) * t \<le> (nf - 1) * t" using m by (intro mult_le_mono1) simp
      then show ?thesis using nt nf by linarith
    qed
    also have "\<dots> = (c div nf * t + t) * nf" using nf by (cases nf) (simp_all add: algebra_simps)
    finally have "(Suc c * t + (nf - Suc j)) div nf < c div nf * t + t"
      by (simp add: less_mult_imp_div_less)
    with o b show "offset_out st ! j < t" by simp
    show "length (xs @ buf) div t div nf * t = length (base j)"
      using z b unfolding c' by (simp add: div_Suc) }
qed

context posix_io
begin

lemma split_flush_ok:
  assumes "distinct fds" "length fds = nf" and nw: "\<forall>w. nw w \<noteq> -1"
  shows "split_inv nf t (\<lambda>j. outp w (fds ! j)) xs st \<Longrightarrow> set is \<subseteq> {..<nf} \<Longrightarrow> distinct is \<Longrightarrow>
    \<exists>st' w'. split_flush wr nw t n fds is st w = Ok (st', w') \<and> inp w' = inp w
      \<and> split_inv nf t (\<lambda>j. outp w' (fds ! j)) xs st'
      \<and> (\<forall>j < nf. offset_out st' ! j =
           (if j \<in> set is \<and> (offset_out st ! j = t \<or> n < t) then 0 else offset_out st ! j))"
proof (induction "is" arbitrary: st w)
  case Nil
  then show ?case by simp
next
  case (Cons i "is")
  then have i: "i < nf" "set is \<subseteq> {..<nf}" "distinct is" "i \<notin> set is" by auto
  have len: "length (offset_out st) = nf" "length (buff_out st) = nf"
    using Cons.prems(1) by (simp_all add: split_inv_def)
  show ?case
  proof (cases "offset_out st ! i = t \<or> n < t")
    case False
    obtain st' w' where "split_flush wr nw t n fds is st w = Ok (st', w')" "inp w' = inp w"
      "split_inv nf t (\<lambda>j. outp w' (fds ! j)) xs st'"
      "\<forall>j < nf. offset_out st' ! j =
           (if j \<in> set is \<and> (offset_out st ! j = t \<or> n < t) then 0 else offset_out st ! j)"
      using Cons.IH [OF Cons.prems(1) i(2,3)] by blast
    with False show ?thesis by auto
  next
    case True
    let ?bs = "take (offset_out st ! i) (buff_out st ! i)"
    obtain w1 where w1: "buffer_to_fdout wr ?bs (fds ! i) (nw w) w = Ok w1"
      "outp w1 = (outp w)(fds ! i := outp w (fds ! i) @ ?bs)" "inp w1 = inp w"
      using buffer_to_fdout_ok nw by metis
    define st1 where "st1 = st\<lparr>offset_out := (offset_out st)[i := 0]\<rparr>"
    have o1: "outp w1 (fds ! j) = (if j = i then outp w (fds ! i) @ ?bs else outp w (fds ! j))"
      if "j < nf" for j
      using w1(2) that i(1) assms(1,2) by (simp add: nth_eq_iff_index_eq)
    have inv1: "split_inv nf t (\<lambda>j. outp w1 (fds ! j)) xs st1"
      using Cons.prems(1) o1 i(1) len by (auto simp: split_inv_def st1_def nth_list_update)
    obtain st' w' where ih: "split_flush wr nw t n fds is st1 w1 = Ok (st', w')" "inp w' = inp w1"
      "split_inv nf t (\<lambda>j. outp w' (fds ! j)) xs st'"
      "\<forall>j < nf. offset_out st' ! j =
           (if j \<in> set is \<and> (offset_out st1 ! j = t \<or> n < t) then 0 else offset_out st1 ! j)"
      using Cons.IH [OF inv1 i(2,3)] by blast
    have "split_flush wr nw t n fds (i # is) st w = split_flush wr nw t n fds is st1 w1"
      using True w1(1) by (auto simp: st1_def)
    moreover have "\<forall>j < nf. offset_out st' ! j =
           (if j \<in> set (i # is) \<and> (offset_out st ! j = t \<or> n < t) then 0 else offset_out st ! j)"
      using ih(4) i True len by (auto simp: st1_def nth_list_update)
    ultimately show ?thesis using ih w1(3) by metis
  qed
qed

lemma split_loop_end:
  assumes "inp w STDIN_FILENO = []" "0 < t"
  shows "\<exists>w'. split_loop rd wr nw t (Suc fuel) fds st w = Ok (st, w')
    \<and> inp w' = inp w \<and> outp w' = outp w"
proof -
  obtain w' where "read_buffers rd STDIN_FILENO t (nw w) w = Ok ([], w')"
    "inp w' = inp w" "outp w' = outp w"
    using read_buffers_ok [OF assms(2), of STDIN_FILENO "nw w" w] assms(1)
    by (metis drop_Nil fun_upd_triv take_Nil)
  then show ?thesis by simp
qed

text \<open>One buffer of input: the bytes move from the standard input into the invariant.\<close>

lemma split_chunk:
  assumes fds: "distinct fds" "length fds = nf" "0 < nf" and nw: "\<forall>w. nw w \<noteq> -1" and t: "0 < t"
    and inv: "split_inv nf t (\<lambda>j. outp w (fds ! j)) xs st"
    and bd: "split_bound nf t (\<lambda>j. outp w (fds ! j)) xs st" and dv: "t dvd length xs"
    and ne: "inp w STDIN_FILENO \<noteq> []"
  defines "buf \<equiv> take t (inp w STDIN_FILENO)"
  obtains st1 st' w' where
    "split_inv nf t (\<lambda>j. outp w (fds ! j)) (xs @ buf) st1"
    "split_loop rd wr nw t (Suc fuel) fds st w = split_loop rd wr nw t fuel fds st' w'"
    "inp w' STDIN_FILENO = drop t (inp w STDIN_FILENO)"
    "split_inv nf t (\<lambda>j. outp w' (fds ! j)) (xs @ buf) st'"
    "\<forall>j < nf. offset_out st' ! j =
       (if offset_out st1 ! j = t \<or> length buf < t then 0 else offset_out st1 ! j)"
proof -
  obtain w1 where r: "read_buffers rd STDIN_FILENO t (nw w) w = Ok (buf, w1)"
    "inp w1 = (inp w)(STDIN_FILENO := drop t (inp w STDIN_FILENO))" "outp w1 = outp w"
    using read_buffers_ok [OF t] unfolding buf_def by metis
  have ft: "split_fits nf t (\<lambda>j. outp w (fds ! j)) (xs @ buf)"
    using inv bd dv fds(3) t by (intro split_bound_fits) (simp_all add: buf_def)
  obtain st1 where s1: "split_while (length buf) nf buf st 0 = Ok st1"
    "split_inv nf t (\<lambda>j. outp w (fds ! j)) (xs @ buf) st1"
    using split_while_ok [OF ft fds(3), of 0 st "length buf"] inv by auto
  obtain st' w' where s2: "split_flush wr nw t (length buf) fds [0..<nf] st1 w1 = Ok (st', w')"
    "inp w' = inp w1" "split_inv nf t (\<lambda>j. outp w' (fds ! j)) (xs @ buf) st'"
    "\<forall>j < nf. offset_out st' ! j =
       (if j \<in> set [0..<nf] \<and> (offset_out st1 ! j = t \<or> length buf < t) then 0 else offset_out st1 ! j)"
    using split_flush_ok [where nw = nw and t = t and w = w1 and xs = "xs @ buf" and st = st1
        and n = "length buf" and ?is = "[0..<nf]", OF fds(1,2) nw] s1(2) r(3)
    by (auto simp: atLeast0LessThan)
  have "0 < length buf" using ne t by (simp add: buf_def)
  then have "split_loop rd wr nw t (Suc fuel) fds st w = split_loop rd wr nw t fuel fds st' w'"
    using r(1) s1(1) s2(1) fds(2) by (simp add: Let_def)
  then show thesis using that [OF s1(2)] s2 r(2) by simp
qed

lemma split_bound_next:
  assumes inv: "split_inv nf t base (xs @ buf) st1" and inv': "split_inv nf t base' (xs @ buf) st'"
    and bd: "split_bound nf t base xs st" and dv: "t dvd length xs" and l: "length buf = t"
    and t: "0 < t"
    and o: "\<forall>j < nf. offset_out st' ! j = (if offset_out st1 ! j = t then 0 else offset_out st1 ! j)"
  shows "split_bound nf t base' (xs @ buf) st'"
proof (cases "nf \<le> t")
  case True
  have "length (base' j) = length (xs @ buf) div t div nf * t" if j: "j < nf" for j
  proof -
    have b: "length (base j) = length xs div t div nf * t"
      using bd True j by (simp add: split_bound_def)
    note f = split_full_offset [OF inv b dv l t True j]
    have "length (base' j) + offset_out st' ! j = length (base j) + offset_out st1 ! j"
      using split_inv_offset [OF inv j] split_inv_offset [OF inv' j] by simp
    then show ?thesis
      using f o j by (cases "length (xs @ buf) div t mod nf = 0") auto
  qed
  then show ?thesis using True by (simp add: split_bound_def)
next
  case False
  have "offset_out st' ! j < t" if "j < nf" for j
    using split_invD(2) [OF inv that] o that t by auto
  then show ?thesis using False by (simp add: split_bound_def)
qed

lemma split_loop_ok:
  assumes fds: "distinct fds" "length fds = nf" "0 < nf" and nw: "\<forall>w. nw w \<noteq> -1" and t: "0 < t"
  shows "split_inv nf t (\<lambda>j. outp w (fds ! j)) xs st \<Longrightarrow>
    split_bound nf t (\<lambda>j. outp w (fds ! j)) xs st \<Longrightarrow> t dvd length xs \<Longrightarrow>
    inp w STDIN_FILENO = ys \<Longrightarrow> length ys div t + 2 \<le> fuel \<Longrightarrow>
    \<exists>st' w'. split_loop rd wr nw t fuel fds st w = Ok (st', w')
      \<and> split_inv nf t (\<lambda>j. outp w' (fds ! j)) (xs @ ys) st'
      \<and> (length ys mod t \<noteq> 0 \<longrightarrow> (\<forall>j < nf. offset_out st' ! j = 0))
      \<and> (length ys mod t = 0 \<longrightarrow> split_bound nf t (\<lambda>j. outp w' (fds ! j)) (xs @ ys) st')"
proof (induction fuel arbitrary: st w xs ys)
  case 0
  then show ?case by simp
next
  case (Suc fuel)
  show ?case
  proof (cases "ys = []")
    case True
    with split_loop_end [of w t nw fuel fds st] Suc.prems t show ?thesis by auto
  next
    case False
    let ?buf = "take t ys"
    from False Suc.prems(4) have ne: "inp w STDIN_FILENO \<noteq> []" by simp
    obtain st1 st' w' where c: "split_inv nf t (\<lambda>j. outp w (fds ! j)) (xs @ ?buf) st1"
      "split_loop rd wr nw t (Suc fuel) fds st w = split_loop rd wr nw t fuel fds st' w'"
      "inp w' STDIN_FILENO = drop t ys"
      "split_inv nf t (\<lambda>j. outp w' (fds ! j)) (xs @ ?buf) st'"
      "\<forall>j < nf. offset_out st' ! j =
         (if offset_out st1 ! j = t \<or> length ?buf < t then 0 else offset_out st1 ! j)"
      by (rule split_chunk [OF fds nw t Suc.prems(1-3) ne, where fuel = fuel, unfolded Suc.prems(4)])
    show ?thesis
    proof (cases "t \<le> length ys")
      case True
      have l: "length ?buf = t" using True by simp
      have bd': "split_bound nf t (\<lambda>j. outp w' (fds ! j)) (xs @ ?buf) st'"
        using c(5) l by (intro split_bound_next [OF c(1,4) Suc.prems(2,3) l t]) simp
      have dv': "t dvd length (xs @ ?buf)" using Suc.prems(3) l by simp
      have fuel': "length (drop t ys) div t + 2 \<le> fuel"
        using Suc.prems(5) True t by (simp add: le_div_geq)
      have "length (drop t ys) mod t = length ys mod t" using True by (simp add: le_mod_geq)
      then show ?thesis using Suc.IH [OF c(4) bd' dv' c(3) fuel'] c(2) by simp
    next
      case short: False
      obtain fuel' where f: "fuel = Suc fuel'" using Suc.prems(5) by (cases fuel) simp_all
      obtain w'' where e: "split_loop rd wr nw t (Suc fuel') fds st' w' = Ok (st', w'')"
        "outp w'' = outp w'"
        using split_loop_end [of w' t nw fuel' fds st'] c(3) short t by auto
      have "length ys mod t = length ys" "0 < length ys" using short False by simp_all
      then show ?thesis using c(2,4,5) e f short by simp
    qed
  qed
qed

end

section \<open>Properties\<close>

lemma split_start:
  "0 < nf \<Longrightarrow> (\<And>j. j < nf \<Longrightarrow> base j = []) \<Longrightarrow> 0 < t \<Longrightarrow>
   let st = \<lparr>current_file = 0, offset_out = replicate nf 0, buff_out = replicate nf (replicate t 0)\<rparr>
   in split_inv nf t base [] st \<and> split_bound nf t base [] st"
  by (simp add: split_inv_def split_bound_def Let_def)

lemma split_open_ok: "-1 \<notin> set fds \<Longrightarrow> (\<And>i. mal i) \<Longrightarrow> split_open mal j fds = Ok ()"
  by (induction fds arbitrary: j) auto

lemma split_close_ok: "(\<And>i. cls i) \<Longrightarrow> split_close cls j fds = Ok ()"
  by (induction fds arbitrary: j) auto

text \<open>
  The whole program, started with no error in its arguments, ends with the
  invariant established: this is what both properties below read off.
\<close>

lemma split_main_run:
  assumes io: "posix_io rd wr inp outp"
    and opts: "split_opts opts 1024 False = (int t, False)" "0 < t"
    and fds: "distinct fds" "-1 \<notin> set fds" "fds \<noteq> []" "length fds \<le> 16"
    and ok: "\<forall>i. mal i" "\<forall>i. cls i" "\<forall>w. nw w \<noteq> -1"
    and empty: "\<forall>fd \<in> set fds. outp w fd = []"
    and fuel: "length (inp w STDIN_FILENO) div t + 2 \<le> fuel"
  shows "\<exists>st' w'. split_main rd wr nw mal cls fuel opts fds w = Ok w'
      \<and> split_inv (length fds) t (\<lambda>j. outp w' (fds ! j)) (inp w STDIN_FILENO) st'
      \<and> (length (inp w STDIN_FILENO) mod t \<noteq> 0 \<longrightarrow> (\<forall>j < length fds. offset_out st' ! j = 0))
      \<and> (length (inp w STDIN_FILENO) mod t = 0 \<longrightarrow>
           split_bound (length fds) t (\<lambda>j. outp w' (fds ! j)) (inp w STDIN_FILENO) st')"
proof -
  let ?nf = "length fds"
  let ?st = "\<lparr>current_file = 0, offset_out = replicate ?nf 0, buff_out = replicate ?nf (replicate t 0)\<rparr>"
  have nf: "0 < ?nf" using fds(3) by simp
  have "split_inv ?nf t (\<lambda>j. outp w (fds ! j)) [] ?st" "split_bound ?nf t (\<lambda>j. outp w (fds ! j)) [] ?st"
    using split_start [OF nf _ opts(2), of "\<lambda>j. outp w (fds ! j)"] empty by (simp_all add: Let_def)
  from posix_io.split_loop_ok [OF io fds(1) refl nf ok(3) opts(2) this _ refl fuel]
  obtain st' w' where l: "split_loop rd wr nw t fuel fds ?st w = Ok (st', w')"
    "split_inv ?nf t (\<lambda>j. outp w' (fds ! j)) (inp w STDIN_FILENO) st'"
    "length (inp w STDIN_FILENO) mod t \<noteq> 0 \<longrightarrow> (\<forall>j < ?nf. offset_out st' ! j = 0)"
    "length (inp w STDIN_FILENO) mod t = 0 \<longrightarrow>
       split_bound ?nf t (\<lambda>j. outp w' (fds ! j)) (inp w STDIN_FILENO) st'"
    by auto
  have "split_open mal 0 fds = Ok ()" "split_close cls 0 fds = Ok ()"
    by (rule split_open_ok [OF fds(2) ok(1) [rule_format]], rule split_close_ok [OF ok(2) [rule_format]])
  then have "split_main rd wr nw mal cls fuel opts fds w = Ok w'"
    using l(1) fds(3,4) ok(1) nf by (simp add: split_main_def opts(1))
  with l(2-4) show ?thesis by (intro exI [of _ st'] exI [of _ w'] conjI)
qed



text \<open>
  C28.  An input whose length is a multiple of the buffer size is cut short:
  with at most as many files as buffer bytes, file \<open>j\<close> receives only the part
  of its bytes that filled whole buffers, and the rest, kept in the output
  buffers when the end of the input is seen, is never written.
\<close>

theorem split_main_loses_tail:
  assumes io: "posix_io rd wr inp outp"
    and opts: "split_opts opts 1024 False = (int t, False)" "0 < t"
    and fds: "distinct fds" "-1 \<notin> set fds" "fds \<noteq> []" "length fds \<le> 16"
    and ok: "\<forall>i. mal i" "\<forall>i. cls i" "\<forall>w. nw w \<noteq> -1"
    and empty: "\<forall>fd \<in> set fds. outp w fd = []"
    and fuel: "length (inp w STDIN_FILENO) div t + 2 \<le> fuel"
    and tail: "t dvd length (inp w STDIN_FILENO)" and few: "length fds \<le> t"
  shows "\<exists>w'. split_main rd wr nw mal cls fuel opts fds w = Ok w'
      \<and> (\<forall>j < length fds. outp w' (fds ! j) =
           take (length (inp w STDIN_FILENO) div t div length fds * t)
             (strand (length fds) j (inp w STDIN_FILENO)))"
proof -
  let ?l = "length (inp w STDIN_FILENO) div t div length fds * t"
  obtain st' w' where r: "split_main rd wr nw mal cls fuel opts fds w = Ok w'"
    "split_inv (length fds) t (\<lambda>j. outp w' (fds ! j)) (inp w STDIN_FILENO) st'"
    "split_bound (length fds) t (\<lambda>j. outp w' (fds ! j)) (inp w STDIN_FILENO) st'"
    using split_main_run [OF io opts fds ok empty fuel] tail by (auto simp: dvd_eq_mod_eq_0)
  have "outp w' (fds ! j) = take ?l (strand (length fds) j (inp w STDIN_FILENO))"
    if "j < length fds" for j
  proof -
    have "length (outp w' (fds ! j)) = ?l" using r(3) few that by (simp add: split_bound_def)
    then show ?thesis by (simp flip: split_invD(3) [OF r(2) that])
  qed
  with r(1) show ?thesis by blast
qed

theorem split_main_loses_tail_witness:
  "\<exists>w'. split_main (sim_read 2) (sim_write 2) (\<lambda>_. 7) (\<lambda>_. True) (\<lambda>_. True) 9 [(CHR ''t'', 4)] [3, 5]
      \<lparr>sim_in = (\<lambda>_. [1, 2, 3, 4]), sim_out = (\<lambda>_. [])\<rparr> = Ok w'
    \<and> sim_out w' 3 = [] \<and> sim_out w' 5 = []"
proof -
  let ?w = "\<lparr>sim_in = (\<lambda>_. [1, 2, 3, 4]), sim_out = (\<lambda>_. [])\<rparr>"
  have "\<exists>w'. split_main (sim_read 2) (sim_write 2) (\<lambda>_. 7) (\<lambda>_. True) (\<lambda>_. True) 9 [(CHR ''t'', 4)] [3, 5] ?w = Ok w'
      \<and> (\<forall>j < length [3, 5 :: int]. sim_out w' ([3, 5] ! j) =
           take (length (sim_in ?w 0) div 4 div length [3, 5 :: int] * 4) (strand (length [3, 5 :: int]) j (sim_in ?w 0)))"
    by (rule split_main_loses_tail [where t = 4, OF sim.posix_io_axioms]) (simp | presburger)+
  then show ?thesis by (auto simp: less_Suc_eq all_conj_distrib)
qed

end
