(* ===== verification/Bytes.thy ===== *)
theory Bytes
  imports Prelude
begin

text \<open>
  Byte arrays and the little-endian integers the kernel stores in them: a
  \<open>uint\<close> takes four bytes and a \<open>short\<close> two.  Unsigned C integers are natural
  numbers below \<open>2 ^ 32\<close>, with the wrap-around of the two counters that rely on
  it written out.
\<close>

section \<open>Unsigned counters and signed values\<close>

definition uint_inc :: "nat \<Rightarrow> nat" where
  "uint_inc n = (n + 1) mod 2 ^ 32"

definition uint_dec :: "nat \<Rightarrow> nat" where
  "uint_dec n = (n + (2 ^ 32 - 1)) mod 2 ^ 32"

lemma uint_inc_small: "n + 1 < 2 ^ 32 \<Longrightarrow> uint_inc n = n + 1"
  by (simp add: uint_inc_def)

lemma uint_dec_pos: "0 < n \<Longrightarrow> n < 2 ^ 32 \<Longrightarrow> uint_dec n = n - 1"
proof -
  assume n: "0 < n" "n < 2 ^ 32"
  then have "n + (2 ^ 32 - 1) = (n - 1) + 2 ^ 32" by simp
  then have "uint_dec n = (n - 1) mod 2 ^ 32" by (simp only: uint_dec_def mod_add_self2)
  then show ?thesis using n by simp
qed

lemma uint_inc_lt [simp]: "uint_inc n < 2 ^ 32"
  by (simp add: uint_inc_def)

text \<open>The \<open>int\<close> with the bits of an unsigned 32-bit value.\<close>

definition int_of_uint :: "nat \<Rightarrow> int" where
  "int_of_uint v = (if v < 2 ^ 31 then int v else int v - 2 ^ 32)"

definition uint_of_int :: "int \<Rightarrow> nat" where
  "uint_of_int v = nat (v mod 2 ^ 32)"

lemma int_of_uint_small: "v < 2 ^ 31 \<Longrightarrow> int_of_uint v = int v"
  by (simp add: int_of_uint_def)

lemma uint_of_int_small: "v < 2 ^ 32 \<Longrightarrow> uint_of_int (int v) = v"
  by (simp add: uint_of_int_def nat_mod_distrib)

lemma int_of_uint_of_int:
  assumes "- (2 ^ 31) \<le> v" "v < 2 ^ 31"
  shows "int_of_uint (uint_of_int v) = v"
proof (cases "0 \<le> v")
  case True
  with assms show ?thesis by (simp add: int_of_uint_def uint_of_int_def nat_mod_distrib)
next
  case False
  have "v mod 2 ^ 32 = (v + 2 ^ 32) mod 2 ^ 32" by simp
  also have "\<dots> = v + 2 ^ 32" using False assms by (intro mod_pos_pos_trivial) simp_all
  finally have "v mod 2 ^ 32 = v + 2 ^ 32" .
  with False assms show ?thesis by (simp add: int_of_uint_def uint_of_int_def)
qed

section \<open>Slices of arrays\<close>

definition slice :: "nat \<Rightarrow> nat \<Rightarrow> 'a list \<Rightarrow> 'a list" where
  "slice off n xs = take n (drop off xs)"

definition splice :: "nat \<Rightarrow> 'a list \<Rightarrow> 'a list \<Rightarrow> 'a list" where
  "splice off ys xs = take off xs @ ys @ drop (off + length ys) xs"

lemma length_slice [simp]: "length (slice off n xs) = min n (length xs - off)"
  by (simp add: slice_def)

lemma length_splice [simp]: "off + length ys \<le> length xs \<Longrightarrow> length (splice off ys xs) = length xs"
  by (simp add: splice_def)

lemma nth_slice: "off + i < length xs \<Longrightarrow> i < n \<Longrightarrow> slice off n xs ! i = xs ! (off + i)"
  by (simp add: slice_def)

lemma nth_splice:
  assumes "off + length ys \<le> length xs" "i < length xs"
  shows "splice off ys xs ! i = (if off \<le> i \<and> i < off + length ys then ys ! (i - off) else xs ! i)"
  using assms by (auto simp: splice_def nth_append)

lemma slice_splice_same:
  "off + length ys \<le> length xs \<Longrightarrow> length ys = n \<Longrightarrow> slice off n (splice off ys xs) = ys"
  by (simp add: slice_def splice_def)

lemma slice_splice_other:
  assumes "off + length ys \<le> length xs" "off' + n \<le> length xs"
    and "off' + n \<le> off \<or> off + length ys \<le> off'"
  shows "slice off' n (splice off ys xs) = slice off' n xs"
  by (rule nth_equalityI) (use assms in \<open>auto simp: nth_slice nth_splice\<close>)

lemma splice_splice_same [simp]:
  "off + length ys \<le> length xs \<Longrightarrow> length zs = length ys \<Longrightarrow> splice off zs (splice off ys xs) = splice off zs xs"
  by (simp add: splice_def)

section \<open>Little-endian integers\<close>

fun le_bytes :: "nat \<Rightarrow> nat \<Rightarrow> byte list" where
  "le_bytes 0 v = []"
| "le_bytes (Suc n) v = of_nat v # le_bytes n (v div 256)"

fun le_nat :: "byte list \<Rightarrow> nat" where
  "le_nat [] = 0"
| "le_nat (b # bs) = unat b + 256 * le_nat bs"

lemma length_le_bytes [simp]: "length (le_bytes n v) = n"
  by (induction n v rule: le_bytes.induct) simp_all

lemma le_nat_le_bytes: "le_nat (le_bytes n v) = v mod 256 ^ n"
proof (induction n v rule: le_bytes.induct)
  case (2 n v)
  then show ?case by (simp add: unat_of_nat mod_mult2_eq)
qed simp

lemma le_nat_lt: "le_nat bs < 256 ^ length bs"
proof (induction bs)
  case (Cons b bs)
  have "unat b < 256" by (rule unsigned_less [of b, simplified])
  with Cons show ?case by simp
qed simp

lemma word_256_eq_0: "(256 :: byte) = 0"
  by simp

lemma le_bytes_le_nat: "length bs = n \<Longrightarrow> le_bytes n (le_nat bs) = bs"
proof (induction bs arbitrary: n)
  case (Cons b bs)
  have b: "unat b < 256" by (rule unsigned_less [of b, simplified])
  then have "(unat b + 256 * le_nat bs) div 256 = le_nat bs" by simp
  moreover have "of_nat (unat b + 256 * le_nat bs) = b"
    by (simp add: word_256_eq_0)
  ultimately show ?case using Cons by auto
qed simp

definition load32 :: "byte list \<Rightarrow> nat \<Rightarrow> nat" where
  "load32 blk off = le_nat (slice off 4 blk)"

definition store32 :: "nat \<Rightarrow> nat \<Rightarrow> byte list \<Rightarrow> byte list" where
  "store32 off v blk = splice off (le_bytes 4 v) blk"

lemma length_store32 [simp]: "off + 4 \<le> length blk \<Longrightarrow> length (store32 off v blk) = length blk"
  by (simp add: store32_def)

lemma load32_lt: "load32 blk off < 2 ^ 32"
proof -
  have "le_nat (slice off 4 blk) < 256 ^ length (slice off 4 blk)" by (rule le_nat_lt)
  also have "\<dots> \<le> 256 ^ 4" by (rule power_increasing) simp_all
  finally show ?thesis by (simp add: load32_def)
qed

lemma load32_store32_same:
  "off + 4 \<le> length blk \<Longrightarrow> load32 (store32 off v blk) off = v mod 2 ^ 32"
  by (simp add: load32_def store32_def slice_splice_same le_nat_le_bytes)

lemma load32_store32_other:
  "off + 4 \<le> length blk \<Longrightarrow> off' + 4 \<le> length blk \<Longrightarrow> off' + 4 \<le> off \<or> off + 4 \<le> off' \<Longrightarrow>
   load32 (store32 off v blk) off' = load32 blk off'"
  by (simp add: load32_def store32_def slice_splice_other)

text \<open>The element \<open>i\<close> of an array of \<open>uint\<close>.\<close>

definition get_uint :: "byte list \<Rightarrow> nat \<Rightarrow> nat" where
  "get_uint blk i = load32 blk (4 * i)"

definition put_uint :: "nat \<Rightarrow> nat \<Rightarrow> byte list \<Rightarrow> byte list" where
  "put_uint i v blk = store32 (4 * i) v blk"

lemma length_put_uint [simp]: "4 * i + 4 \<le> length blk \<Longrightarrow> length (put_uint i v blk) = length blk"
  by (simp add: put_uint_def)

lemma get_uint_lt: "get_uint blk i < 2 ^ 32"
  unfolding get_uint_def by (rule load32_lt)

lemma get_put_uint:
  assumes "4 * i + 4 \<le> length blk" "4 * j + 4 \<le> length blk"
  shows "get_uint (put_uint i v blk) j = (if i = j then v mod 2 ^ 32 else get_uint blk j)"
  using assms unfolding get_uint_def put_uint_def
  by (cases "i = j") (auto simp: load32_store32_same intro!: load32_store32_other)

lemma load32_replicate_0 [simp]: "load32 (replicate n 0) off = 0"
proof -
  have "le_nat (replicate k 0) = 0" for k by (induction k) simp_all
  then show ?thesis by (simp add: load32_def slice_def)
qed

lemma get_uint_replicate_0 [simp]: "get_uint (replicate n 0) i = 0"
  by (simp add: get_uint_def)

section \<open>Shorts\<close>

text \<open>A \<open>short\<close> is the integer with its 16 bits in two's complement.\<close>

definition load16 :: "byte list \<Rightarrow> nat \<Rightarrow> int" where
  "load16 blk off = (let v = le_nat (slice off 2 blk) in if v < 2 ^ 15 then int v else int v - 2 ^ 16)"

definition short_bytes :: "int \<Rightarrow> byte list" where
  "short_bytes v = le_bytes 2 (nat (v mod 2 ^ 16))"

lemma length_short_bytes [simp]: "length (short_bytes v) = 2"
  by (simp add: short_bytes_def)

lemma load16_short_bytes:
  assumes "slice off 2 blk = short_bytes v" "- (2 ^ 15) \<le> v" "v < 2 ^ 15"
  shows "load16 blk off = v"
proof -
  have "nat (v mod 2 ^ 16) < 2 ^ 16" by (simp add: nat_less_iff)
  then have "le_nat (slice off 2 blk) = nat (v mod 2 ^ 16)"
    by (simp add: assms(1) short_bytes_def le_nat_le_bytes)
  moreover have "v mod 2 ^ 16 = (if 0 \<le> v then v else v + 2 ^ 16)"
  proof (cases "0 \<le> v")
    case False
    have "v mod 2 ^ 16 = (v + 2 ^ 16) mod 2 ^ 16" by simp
    also have "\<dots> = v + 2 ^ 16" using False assms(2) by (intro mod_pos_pos_trivial) simp_all
    finally show ?thesis using False by simp
  qed (use assms(3) in simp)
  ultimately show ?thesis using assms(2,3) by (auto simp: load16_def Let_def nat_less_iff)
qed

end
