(* ===== verification/Layout.thy ===== *)
theory Layout
  imports Prelude
begin

text \<open>
  The constants of src/xv6/param.h and src/xv6/fs.h.  They are definitions, so
  that proofs unfold one only where its value matters; their values are
  collected in \<open>layout_simps\<close>.
\<close>

definition BSIZE :: nat where [layout_simps]: "BSIZE = 512"
definition MAXOPBLOCKS :: nat where [layout_simps]: "MAXOPBLOCKS = 10"
definition LOGSIZE :: nat where [layout_simps]: "LOGSIZE = MAXOPBLOCKS * 3"
definition NBUF :: nat where [layout_simps]: "NBUF = MAXOPBLOCKS * 3"
definition NINODE :: nat where [layout_simps]: "NINODE = 50"
definition FSSIZE :: nat where [layout_simps]: "FSSIZE = 20000"
definition ROOTDEV :: nat where [layout_simps]: "ROOTDEV = 1"
definition ROOTINO :: nat where [layout_simps]: "ROOTINO = 1"
definition NDEV :: nat where [layout_simps]: "NDEV = 10"
definition NFILE :: nat where [layout_simps]: "NFILE = 100"
definition NOFILE :: nat where [layout_simps]: "NOFILE = 16"
definition NPROC :: nat where [layout_simps]: "NPROC = 64"
definition NDIRECT :: nat where [layout_simps]: "NDIRECT = 11"
definition NINDIRECT :: nat where [layout_simps]: "NINDIRECT = BSIZE div 4"
definition NBDE :: nat where [layout_simps]: "NBDE = NINDIRECT * NINDIRECT"
definition MAXFILE :: nat where [layout_simps]: "MAXFILE = NDIRECT + NINDIRECT + NBDE"
definition IPB :: nat where [layout_simps]: "IPB = BSIZE div 64"
definition BPB :: nat where [layout_simps]: "BPB = BSIZE * 8"
definition DIRSIZ :: nat where [layout_simps]: "DIRSIZ = 14"

lemma layout_pos [simp]:
  "0 < BSIZE" "0 < LOGSIZE" "0 < NBUF" "0 < NINODE" "0 < NINDIRECT" "0 < IPB" "0 < BPB" "0 < DIRSIZ"
  by (simp_all add: layout_simps)

end
