(* ===== verification/Linked.thy ===== *)
theory Linked
  imports Main
begin

text \<open>
  Doubly linked paths over a successor and a predecessor function, with the
  two surgeries the buffer cache makes on its ring: unlinking a member and
  linking one in behind the head.
\<close>

fun dpath :: "('a \<Rightarrow> 'a) \<Rightarrow> ('a \<Rightarrow> 'a) \<Rightarrow> 'a \<Rightarrow> 'a list \<Rightarrow> 'a \<Rightarrow> bool" where
  "dpath nx pv x [] y \<longleftrightarrow> nx x = y \<and> pv y = x"
| "dpath nx pv x (a # as) y \<longleftrightarrow> nx x = a \<and> pv a = x \<and> dpath nx pv a as y"

lemma dpath_append [simp]:
  "dpath nx pv x (as @ b # bs) y \<longleftrightarrow> dpath nx pv x as b \<and> dpath nx pv b bs y"
  by (induction as arbitrary: x) auto

lemma dpath_hd: "dpath nx pv x as y \<Longrightarrow> nx x = hd (as @ [y])"
  by (cases as) simp_all

lemma dpath_last: "dpath nx pv x as y \<Longrightarrow> pv y = last (x # as)"
  by (induction as arbitrary: x) auto

lemma dpath_cong:
  assumes "\<And>z. z \<in> set (x # as) \<Longrightarrow> nx z = nx' z" "\<And>z. z \<in> set (as @ [y]) \<Longrightarrow> pv z = pv' z"
  shows "dpath nx pv x as y = dpath nx' pv' x as y"
  using assms by (induction as arbitrary: x) auto

lemma dpath_upd_nx [simp]: "z \<notin> set (x # as) \<Longrightarrow> dpath (nx(z := v)) pv x as y = dpath nx pv x as y"
  by (rule dpath_cong) auto

lemma dpath_upd_pv [simp]: "z \<notin> set (as @ [y]) \<Longrightarrow> dpath nx (pv(z := v)) x as y = dpath nx pv x as y"
  by (rule dpath_cong) auto

text \<open>Unlinking.\<close>

lemma dpath_unlink:
  assumes "dpath nx pv x (as @ b # bs) y" "distinct (x # as @ b # bs)" "distinct (as @ b # bs @ [y])"
  shows "dpath (nx(pv b := nx b)) (pv(nx b := pv b)) x (as @ bs) y"
proof -
  have nb: "nx b = hd (bs @ [y])" using assms(1) dpath_hd [of nx pv b bs y] by simp
  have pb: "pv b = last (x # as)" using assms(1) dpath_last [of nx pv x as b] by simp
  show ?thesis
  proof (cases as rule: rev_cases)
    case Nil
    then show ?thesis using assms nb pb by (cases bs) auto
  next
    case (snoc as' a)
    then show ?thesis using assms nb pb by (cases bs) auto
  qed
qed

text \<open>Linking in behind the head.\<close>

lemma dpath_link_front:
  assumes "dpath nx pv x as y" "distinct (x # as)" "distinct (as @ [y])" "b \<notin> set (x # as @ [y])"
  shows "dpath (nx(b := nx x, x := b)) (pv(b := x, nx x := b)) x (b # as) y"
  using assms by (cases as) auto

text \<open>Walking the path forwards and backwards.\<close>

lemma dpath_nth_next:
  assumes "dpath nx pv x as y" "i < length as"
  shows "nx ((x # as) ! i) = as ! i" "pv (as ! i) = (x # as) ! i"
  using assms by (induction as arbitrary: x i) (auto simp: less_Suc_eq_0_disj)

end
