(* ===== verification/Bio.thy ===== *)
theory Bio
  imports Bytes Layout Linked
begin

text \<open>
  The buffer cache (src/xv6/bio.c) over the memory disk (src/xv6/memide.c),
  with the sleep locks of src/xv6/sleeplock.c.  Buffers are the indices below
  \<open>NBUF\<close> and the list head is the index \<open>NBUF\<close>; the LRU list is kept through
  the \<open>prev\<close> and \<open>next\<close> fields as in the C code and related to a list of
  buffers by \<open>lru\<close>.  The two flag bits are two booleans.  A call that would
  wait for a lock held by another process stops with \<open>Asleep\<close>.

  The contract of the cache is stated over \<open>bview\<close>, the contents a reader of a
  block sees: reading returns it, writing to a held buffer changes it at one
  block, and neither eviction nor writing back changes it.
\<close>

section \<open>Sleep locks\<close>

record sleeplock =
  sl_locked :: bool
  sl_pid :: int

definition initsleeplock :: sleeplock where
  "initsleeplock = \<lparr>sl_locked = False, sl_pid = 0\<rparr>"

definition acquiresleep :: "int \<Rightarrow> sleeplock \<Rightarrow> sleeplock res" where
  "acquiresleep pid lk = (if sl_locked lk then Err Asleep else Ok (lk\<lparr>sl_locked := True, sl_pid := pid\<rparr>))"

definition releasesleep :: "sleeplock \<Rightarrow> sleeplock" where
  "releasesleep lk = lk\<lparr>sl_locked := False, sl_pid := 0\<rparr>"

definition holdingsleep :: "int \<Rightarrow> sleeplock \<Rightarrow> bool" where
  "holdingsleep pid lk \<longleftrightarrow> sl_locked lk \<and> sl_pid lk = pid"

section \<open>Buffers and the disk\<close>

record buf =
  b_valid :: bool
  b_dirty :: bool
  b_dev :: nat
  b_blockno :: nat
  b_lock :: sleeplock
  b_refcnt :: nat
  b_prev :: nat
  b_next :: nat
  b_data :: "byte list"

text \<open>
  \<open>bufs\<close> holds \<open>bcache.buf\<close> and, at index \<open>NBUF\<close>, \<open>bcache.head\<close>.  \<open>disk_writes\<close>
  is a history variable: the writes the disk has received, oldest first.
\<close>

record bstate =
  memdisk :: "nat \<Rightarrow> byte list"
  disksize :: nat
  disk_writes :: "(nat \<times> byte list) list"
  bufs :: "nat \<Rightarrow> buf"
  curpid :: int

abbreviation bhead :: nat where "bhead \<equiv> NBUF"

definition upd_buf :: "nat \<Rightarrow> (buf \<Rightarrow> buf) \<Rightarrow> 'a bstate_scheme \<Rightarrow> 'a bstate_scheme" where
  "upd_buf b f s = s\<lparr>bufs := (bufs s)(b := f (bufs s b))\<rparr>"

definition iderw :: "nat \<Rightarrow> 'a bstate_scheme \<Rightarrow> 'a bstate_scheme res" where
  "iderw b s =
     (let x = bufs s b in
      if \<not> holdingsleep (curpid s) (b_lock x) then Err (Panic ''iderw: buf not locked'')
      else if b_valid x \<and> \<not> b_dirty x then Err (Panic ''iderw: nothing to do'')
      else if b_dev x \<noteq> 1 then Err (Panic ''iderw: request not for disk 1'')
      else if b_blockno x \<ge> disksize s then Err (Panic ''iderw: block out of range'')
      else if b_dirty x then
        Ok (upd_buf b (b_dirty_update (\<lambda>_. False) \<circ> b_valid_update (\<lambda>_. True))
              (s\<lparr>memdisk := (memdisk s)(b_blockno x := b_data x),
                 disk_writes := disk_writes s @ [(b_blockno x, b_data x)]\<rparr>))
      else
        Ok (upd_buf b (b_data_update (\<lambda>_. memdisk s (b_blockno x)) \<circ> b_valid_update (\<lambda>_. True)) s))"

definition binit_step :: "nat \<Rightarrow> 'a bstate_scheme \<Rightarrow> 'a bstate_scheme" where
  "binit_step b s0 =
     (let s1 = upd_buf b (b_next_update (\<lambda>_. b_next (bufs s0 bhead))) s0;
          s2 = upd_buf b (b_prev_update (\<lambda>_. bhead)) s1;
          s3 = upd_buf b (b_lock_update (\<lambda>_. initsleeplock)) s2;
          s4 = upd_buf (b_next (bufs s3 bhead)) (b_prev_update (\<lambda>_. b)) s3
      in upd_buf bhead (b_next_update (\<lambda>_. b)) s4)"

definition binit :: "'a bstate_scheme \<Rightarrow> 'a bstate_scheme" where
  "binit s = fold binit_step [0..<NBUF]
     (upd_buf bhead (b_next_update (\<lambda>_. bhead)) (upd_buf bhead (b_prev_update (\<lambda>_. bhead)) s))"

text \<open>
  The two searches of \<open>bget\<close>, forwards for the block and backwards for a
  buffer to recycle.  The first argument bounds the steps; the list has
  \<open>NBUF\<close> members, so \<open>NBUF + 1\<close> is enough.
\<close>

fun bget_cached :: "nat \<Rightarrow> nat \<Rightarrow> nat \<Rightarrow> nat \<Rightarrow> (nat \<Rightarrow> buf) \<Rightarrow> nat option res" where
  "bget_cached 0 dev blockno b bs = Err NoFuel"
| "bget_cached (Suc k) dev blockno b bs =
     (if b = bhead then Ok None
      else if b_dev (bs b) = dev \<and> b_blockno (bs b) = blockno then Ok (Some b)
      else bget_cached k dev blockno (b_next (bs b)) bs)"

fun bget_unused :: "nat \<Rightarrow> nat \<Rightarrow> (nat \<Rightarrow> buf) \<Rightarrow> nat option res" where
  "bget_unused 0 b bs = Err NoFuel"
| "bget_unused (Suc k) b bs =
     (if b = bhead then Ok None
      else if b_refcnt (bs b) = 0 \<and> \<not> b_dirty (bs b) then Ok (Some b)
      else bget_unused k (b_prev (bs b)) bs)"

definition block_acquire :: "nat \<Rightarrow> 'a bstate_scheme \<Rightarrow> (nat \<times> 'a bstate_scheme) res" where
  "block_acquire b s =
     bindr (acquiresleep (curpid s) (b_lock (bufs s b))) (\<lambda>lk. Ok (b, upd_buf b (b_lock_update (\<lambda>_. lk)) s))"

definition bget :: "nat \<Rightarrow> nat \<Rightarrow> 'a bstate_scheme \<Rightarrow> (nat \<times> 'a bstate_scheme) res" where
  "bget dev blockno s =
     bindr (bget_cached (NBUF + 1) dev blockno (b_next (bufs s bhead)) (bufs s)) (\<lambda>r.
       case r of
         Some b \<Rightarrow> block_acquire b (upd_buf b (b_refcnt_update uint_inc) s)
       | None \<Rightarrow>
           bindr (bget_unused (NBUF + 1) (b_prev (bufs s bhead)) (bufs s)) (\<lambda>r.
             case r of
               Some b \<Rightarrow> block_acquire b (upd_buf b (\<lambda>x. x\<lparr>b_dev := dev, b_blockno := blockno,
                           b_valid := False, b_dirty := False, b_refcnt := 1\<rparr>) s)
             | None \<Rightarrow> Err (Panic ''bget: no buffers'')))"

definition bread :: "nat \<Rightarrow> nat \<Rightarrow> 'a bstate_scheme \<Rightarrow> (nat \<times> 'a bstate_scheme) res" where
  "bread dev blockno s =
     bindr (bget dev blockno s) (\<lambda>(b, s).
       if \<not> b_valid (bufs s b) then bindr (iderw b s) (\<lambda>s. Ok (b, s)) else Ok (b, s))"

definition bwrite :: "nat \<Rightarrow> 'a bstate_scheme \<Rightarrow> 'a bstate_scheme res" where
  "bwrite b s =
     (if \<not> holdingsleep (curpid s) (b_lock (bufs s b)) then Err (Panic ''bwrite'')
      else iderw b (upd_buf b (b_dirty_update (\<lambda>_. True)) s))"

definition bmove_front :: "nat \<Rightarrow> 'a bstate_scheme \<Rightarrow> 'a bstate_scheme" where
  "bmove_front b s0 =
     (let s1 = upd_buf (b_next (bufs s0 b)) (b_prev_update (\<lambda>_. b_prev (bufs s0 b))) s0;
          s2 = upd_buf (b_prev (bufs s1 b)) (b_next_update (\<lambda>_. b_next (bufs s1 b))) s1;
          s3 = upd_buf b (b_next_update (\<lambda>_. b_next (bufs s2 bhead))) s2;
          s4 = upd_buf b (b_prev_update (\<lambda>_. bhead)) s3;
          s5 = upd_buf (b_next (bufs s4 bhead)) (b_prev_update (\<lambda>_. b)) s4
      in upd_buf bhead (b_next_update (\<lambda>_. b)) s5)"

definition brelse :: "nat \<Rightarrow> 'a bstate_scheme \<Rightarrow> 'a bstate_scheme res" where
  "brelse b s =
     (if \<not> holdingsleep (curpid s) (b_lock (bufs s b)) then Err (Panic ''brelse'')
      else
        let s = upd_buf b (b_lock_update releasesleep) s;
            s = upd_buf b (b_refcnt_update uint_dec) s
        in Ok (if b_refcnt (bufs s b) = 0 then bmove_front b s else s))"

text \<open>A store into the data of a buffer, as the clients of the cache make it.\<close>

definition set_bdata :: "nat \<Rightarrow> byte list \<Rightarrow> 'a bstate_scheme \<Rightarrow> 'a bstate_scheme" where
  "set_bdata b d s = upd_buf b (b_data_update (\<lambda>_. d)) s"

section \<open>The LRU list\<close>

abbreviation nxt :: "'a bstate_scheme \<Rightarrow> nat \<Rightarrow> nat" where
  "nxt s \<equiv> \<lambda>b. b_next (bufs s b)"

abbreviation prv :: "'a bstate_scheme \<Rightarrow> nat \<Rightarrow> nat" where
  "prv s \<equiv> \<lambda>b. b_prev (bufs s b)"

text \<open>\<open>lru s xs\<close>: the ring through the head holds the buffers \<open>xs\<close>, the most recently used one first.\<close>

definition lru :: "'a bstate_scheme \<Rightarrow> nat list \<Rightarrow> bool" where
  "lru s xs \<longleftrightarrow> distinct xs \<and> set xs = {..<NBUF} \<and> dpath (nxt s) (prv s) bhead xs bhead"

lemma links_upd_buf:
  "b_next (bufs (upd_buf b (b_prev_update f) s) x) = b_next (bufs s x)"
  "b_prev (bufs (upd_buf b (b_next_update f) s) x) = b_prev (bufs s x)"
  "b_next (bufs (upd_buf b (b_next_update f) s) x) = (if x = b then f (b_next (bufs s b)) else b_next (bufs s x))"
  "b_prev (bufs (upd_buf b (b_prev_update f) s) x) = (if x = b then f (b_prev (bufs s b)) else b_prev (bufs s x))"
  by (simp_all add: upd_buf_def)

lemma lru_cong: "nxt s = nxt s' \<Longrightarrow> prv s = prv s' \<Longrightarrow> lru s xs = lru s' xs"
  by (simp add: lru_def)

lemma lru_length: "lru s xs \<Longrightarrow> length xs = NBUF"
  by (metis card_lessThan distinct_card lru_def)

text \<open>A member moved to the front of the ring.\<close>

lemma bmove_front_links:
  assumes "b \<noteq> bhead" "nxt s b \<noteq> b" "prv s b \<noteq> b"
  defines "nx \<equiv> (nxt s)(prv s b := nxt s b)"
  shows "nxt (bmove_front b s) = nx(b := nx bhead, bhead := b)"
    and "prv (bmove_front b s) = (prv s)(nxt s b := prv s b, b := bhead, nx bhead := b)"
  using assms(1-3) by (simp_all add: nx_def bmove_front_def Let_def links_upd_buf fun_eq_iff)

lemma lru_move_front:
  assumes "lru s (as @ b # bs)"
  shows "lru (bmove_front b s) (b # as @ bs)"
proof -
  let ?nx = "(nxt s)(prv s b := nxt s b)" and ?pv = "(prv s)(nxt s b := prv s b)"
  from assms have d: "distinct (as @ b # bs)" "set (as @ b # bs) = {..<NBUF}"
    and p: "dpath (nxt s) (prv s) bhead (as @ b # bs) bhead"
    by (simp_all only: lru_def)
  have h: "bhead \<notin> set (as @ b # bs)" by (simp only: d(2)) simp
  have nb: "nxt s b = hd (bs @ [bhead])" and pb: "prv s b = last (bhead # as)"
    using p dpath_hd [of "nxt s" "prv s" b bs bhead] dpath_last [of "nxt s" "prv s" bhead as b] by simp_all
  have n: "nxt s b \<noteq> b" using nb d(1) h by (cases bs) auto
  have q: "prv s b \<noteq> b" using pb d(1) h by (cases as rule: rev_cases) auto
  have "b \<noteq> bhead" using h by auto
  note l = bmove_front_links [OF this n q]
  have "dpath ?nx ?pv bhead (as @ bs) bhead"
    using p by (rule dpath_unlink) (use d h in auto)
  then have "dpath (?nx(b := ?nx bhead, bhead := b)) (?pv(b := bhead, ?nx bhead := b)) bhead (b # as @ bs) bhead"
    by (rule dpath_link_front) (use d h in auto)
  then have "dpath (nxt (bmove_front b s)) (prv (bmove_front b s)) bhead (b # as @ bs) bhead"
    unfolding l .
  then show ?thesis using d by (auto simp: lru_def)
qed

lemma bget_cached_find:
  assumes "dpath (\<lambda>b. b_next (bs b)) pv x as bhead" "bhead \<notin> set as" "length as < k"
  shows "bget_cached k dev n (b_next (bs x)) bs =
    Ok (List.find (\<lambda>b. b_dev (bs b) = dev \<and> b_blockno (bs b) = n) as)"
  using assms
proof (induction as arbitrary: x k)
  case Nil
  then show ?case by (cases k) auto
next
  case (Cons a as)
  then show ?case by (cases k) auto
qed

lemma bget_unused_find:
  assumes "dpath nx (\<lambda>b. b_prev (bs b)) bhead as y" "bhead \<notin> set as" "length as < k"
  shows "bget_unused k (b_prev (bs y)) bs =
    Ok (List.find (\<lambda>b. b_refcnt (bs b) = 0 \<and> \<not> b_dirty (bs b)) (rev as))"
  using assms
proof (induction as arbitrary: y k rule: rev_induct)
  case Nil
  then show ?case by (cases k) auto
next
  case (snoc a as)
  then show ?case by (cases k) auto
qed

lemma lru_searches:
  assumes "lru s xs"
  shows "bget_cached (NBUF + 1) dev n (b_next (bufs s bhead)) (bufs s) =
      Ok (List.find (\<lambda>b. b_dev (bufs s b) = dev \<and> b_blockno (bufs s b) = n) xs)"
    and "bget_unused (NBUF + 1) (b_prev (bufs s bhead)) (bufs s) =
      Ok (List.find (\<lambda>b. b_refcnt (bufs s b) = 0 \<and> \<not> b_dirty (bufs s b)) (rev xs))"
proof -
  have "bhead \<notin> set xs" "length xs < NBUF + 1" "dpath (nxt s) (prv s) bhead xs bhead"
    using assms lru_length [OF assms] by (simp_all add: lru_def)
  note h = this
  show "bget_cached (NBUF + 1) dev n (b_next (bufs s bhead)) (bufs s) =
      Ok (List.find (\<lambda>b. b_dev (bufs s b) = dev \<and> b_blockno (bufs s b) = n) xs)"
    by (rule bget_cached_find [OF h(3,1,2)])
  show "bget_unused (NBUF + 1) (b_prev (bufs s bhead)) (bufs s) =
      Ok (List.find (\<lambda>b. b_refcnt (bufs s b) = 0 \<and> \<not> b_dirty (bufs s b)) (rev xs))"
    by (rule bget_unused_find [OF h(3,1,2)])
qed

section \<open>The invariant and the view of the disk\<close>

definition buf_ok :: "nat \<Rightarrow> (nat \<Rightarrow> byte list) \<Rightarrow> buf \<Rightarrow> bool" where
  "buf_ok sz d x \<longleftrightarrow>
     length (b_data x) = BSIZE \<and> (b_dirty x \<longrightarrow> b_valid x)
     \<and> (b_valid x \<longrightarrow> b_dev x = 1 \<and> b_blockno x < sz)
     \<and> (sl_locked (b_lock x) \<longrightarrow> b_valid x)
     \<and> b_refcnt x = (if sl_locked (b_lock x) then 1 else 0)
     \<and> (b_valid x \<and> \<not> b_dirty x \<and> \<not> sl_locked (b_lock x) \<longrightarrow> b_data x = d (b_blockno x))"

definition buf_uniq :: "(nat \<Rightarrow> buf) \<Rightarrow> bool" where
  "buf_uniq bs \<longleftrightarrow> (\<forall>b < NBUF. \<forall>c < NBUF.
     b_dev (bs b) \<noteq> 0 \<and> b_dev (bs b) = b_dev (bs c) \<and> b_blockno (bs b) = b_blockno (bs c) \<longrightarrow> b = c)"

definition binv :: "'a bstate_scheme \<Rightarrow> bool" where
  "binv s \<longleftrightarrow> (\<exists>xs. lru s xs) \<and> (\<forall>b < NBUF. buf_ok (disksize s) (memdisk s) (bufs s b))
     \<and> buf_uniq (bufs s) \<and> (\<forall>n < disksize s. length (memdisk s n) = BSIZE)"

text \<open>What a reader of block \<open>n\<close> sees: the cached copy if there is one, the disk otherwise.\<close>

definition hit :: "(nat \<Rightarrow> buf) \<Rightarrow> nat \<Rightarrow> nat \<Rightarrow> bool" where
  "hit bs n b \<longleftrightarrow> b_valid (bs b) \<and> b_blockno (bs b) = n"

definition bview :: "'a bstate_scheme \<Rightarrow> nat \<Rightarrow> byte list" where
  "bview s n = (case List.find (hit (bufs s) n) [0..<NBUF] of
     Some b \<Rightarrow> b_data (bufs s b) | None \<Rightarrow> memdisk s n)"

definition held :: "'a bstate_scheme \<Rightarrow> nat set" where
  "held s = {b_blockno (bufs s b) | b. b < NBUF \<and> sl_locked (b_lock (bufs s b))}"

definition dirtyb :: "'a bstate_scheme \<Rightarrow> nat set" where
  "dirtyb s = {b_blockno (bufs s b) | b. b < NBUF \<and> b_dirty (bufs s b)}"

text \<open>Buffer \<open>b\<close> is block \<open>n\<close>, locked by the running process.\<close>

definition bat :: "'a bstate_scheme \<Rightarrow> nat \<Rightarrow> nat \<Rightarrow> bool" where
  "bat s b n \<longleftrightarrow> b < NBUF \<and> holdingsleep (curpid s) (b_lock (bufs s b))
     \<and> b_valid (bufs s b) \<and> b_blockno (bufs s b) = n"

lemma bview_hit:
  assumes "binv s" "b < NBUF" "hit (bufs s) n b"
  shows "bview s n = b_data (bufs s b)"
proof -
  have "List.find (hit (bufs s) n) [0..<NBUF] \<noteq> None"
    using assms(2,3) by (auto simp: find_None_iff)
  then obtain c where c: "List.find (hit (bufs s) n) [0..<NBUF] = Some c" by auto
  then have "hit (bufs s) n c" "c < NBUF" by (auto simp: find_Some_iff)
  then have "c = b" using assms by (auto simp: binv_def buf_uniq_def buf_ok_def hit_def)
  with c show ?thesis by (simp add: bview_def)
qed

lemma bview_miss: "(\<And>b. b < NBUF \<Longrightarrow> \<not> hit (bufs s) n b) \<Longrightarrow> bview s n = memdisk s n"
  by (auto simp: bview_def find_Some_iff split: option.split)

lemma bview_bat: "binv s \<Longrightarrow> bat s b n \<Longrightarrow> bview s n = b_data (bufs s b)"
  by (rule bview_hit) (auto simp: bat_def hit_def)

lemma binv_buf: "binv s \<Longrightarrow> b < NBUF \<Longrightarrow> buf_ok (disksize s) (memdisk s) (bufs s b)"
  by (simp add: binv_def)

lemma binv_uniq:
  "binv s \<Longrightarrow> b < NBUF \<Longrightarrow> c < NBUF \<Longrightarrow> b_dev (bufs s b) \<noteq> 0 \<Longrightarrow> b_dev (bufs s b) = b_dev (bufs s c) \<Longrightarrow>
   b_blockno (bufs s b) = b_blockno (bufs s c) \<Longrightarrow> b = c"
  by (simp add: binv_def buf_uniq_def)

lemma length_bview [simp]: "binv s \<Longrightarrow> n < disksize s \<Longrightarrow> length (bview s n) = BSIZE"
  by (auto simp: bview_def binv_def buf_ok_def find_Some_iff split: option.split)

lemma bat_lt: "binv s \<Longrightarrow> bat s b n \<Longrightarrow> n < disksize s"
  by (auto simp: bat_def binv_def buf_ok_def)

lemma bat_held: "bat s b n \<Longrightarrow> n \<in> held s"
  by (auto simp: bat_def held_def holdingsleep_def)

lemma finite_busy [simp]: "finite (held s)" "finite (dirtyb s)"
  by (simp_all add: held_def dirtyb_def)

text \<open>Blocks that are neither held nor dirty are as on the disk.\<close>

lemma bview_clean:
  assumes "binv s" "n \<notin> held s" "n \<notin> dirtyb s"
  shows "bview s n = memdisk s n"
proof (cases "\<exists>b < NBUF. hit (bufs s) n b")
  case True
  then obtain b where b: "b < NBUF" "hit (bufs s) n b" by blast
  then have "\<not> sl_locked (b_lock (bufs s b))" "\<not> b_dirty (bufs s b)"
    using assms(2,3) by (auto simp: held_def dirtyb_def hit_def)
  then show ?thesis
    using b binv_buf [OF assms(1) b(1)] bview_hit [OF assms(1) b] by (auto simp: buf_ok_def hit_def)
next
  case False
  then show ?thesis by (intro bview_miss) blast
qed

lemma bview_undirty:
  assumes "binv s" "bat s b n" "b_dirty (bufs s b)"
  shows "n \<in> dirtyb s"
  using assms by (auto simp: bat_def dirtyb_def)

lemma bat_dirty_iff:
  assumes "binv s" "bat s b n"
  shows "b_dirty (bufs s b) \<longleftrightarrow> n \<in> dirtyb s"
proof
  assume "n \<in> dirtyb s"
  then obtain c where c: "c < NBUF" "b_dirty (bufs s c)" "b_blockno (bufs s c) = n" by (auto simp: dirtyb_def)
  then have "c = b" using assms by (auto simp: bat_def binv_def buf_uniq_def buf_ok_def)
  with c show "b_dirty (bufs s b)" by simp
qed (use assms in \<open>auto intro: bview_undirty\<close>)

section \<open>Reading a block\<close>

lemma lru_replace:
  assumes "b_next x = b_next (bufs s b)" "b_prev x = b_prev (bufs s b)"
  shows "lru (s\<lparr>bufs := (bufs s)(b := x)\<rparr>) xs = lru s xs"
  by (rule lru_cong) (use assms in \<open>auto simp: fun_eq_iff\<close>)

lemma binv_replace:
  assumes "binv s" "b < NBUF" "b_next x = b_next (bufs s b)" "b_prev x = b_prev (bufs s b)"
    and "buf_ok (disksize s) (memdisk s) x"
    and "\<And>c. c < NBUF \<Longrightarrow> c \<noteq> b \<Longrightarrow> b_dev x \<noteq> 0 \<Longrightarrow> b_dev (bufs s c) = b_dev x \<Longrightarrow> b_blockno (bufs s c) \<noteq> b_blockno x"
  shows "binv (s\<lparr>bufs := (bufs s)(b := x)\<rparr>)"
proof -
  have "\<exists>xs. lru (s\<lparr>bufs := (bufs s)(b := x)\<rparr>) xs"
    using assms(1) by (simp add: lru_replace [OF assms(3,4)] binv_def)
  moreover have "buf_uniq ((bufs s)(b := x))"
    using binv_uniq [OF assms(1)] assms(6) unfolding buf_uniq_def by (metis fun_upd_apply)
  ultimately show ?thesis
    using assms(1,2,5) unfolding binv_def by simp
qed

lemma unused_buffer:
  assumes "binv s" "card (held s \<union> dirtyb s) < NBUF"
  shows "\<exists>b < NBUF. b_refcnt (bufs s b) = 0 \<and> \<not> b_dirty (bufs s b)"
proof (rule ccontr)
  assume no: "\<not> ?thesis"
  have busy: "sl_locked (b_lock (bufs s b)) \<or> b_dirty (bufs s b)" if "b < NBUF" for b
    using no that binv_buf [OF assms(1) that] by (auto simp: buf_ok_def split: if_splits)
  let ?f = "\<lambda>b. b_blockno (bufs s b)"
  have "inj_on ?f {..<NBUF}"
  proof (rule inj_onI)
    fix b c assume bc: "b \<in> {..<NBUF}" "c \<in> {..<NBUF}" "?f b = ?f c"
    then have "b_valid (bufs s b)" "b_valid (bufs s c)"
      using busy [of b] busy [of c] assms(1) by (auto simp: binv_def buf_ok_def)
    then show "b = c" using bc assms(1) by (auto simp: binv_def buf_ok_def buf_uniq_def)
  qed
  moreover have "?f ` {..<NBUF} \<subseteq> held s \<union> dirtyb s"
    using busy by (auto simp: held_def dirtyb_def)
  ultimately have "NBUF \<le> card (held s \<union> dirtyb s)"
    by (metis card_image card_lessThan card_mono finite_UnI finite_busy)
  with assms(2) show False by simp
qed

definition taken :: "'a bstate_scheme \<Rightarrow> nat \<Rightarrow> nat \<Rightarrow> buf" where
  "taken s b n = (bufs s b)\<lparr>b_valid := True, b_dev := 1, b_blockno := n,
     b_lock := \<lparr>sl_locked = True, sl_pid = curpid s\<rparr>, b_refcnt := 1, b_data := bview s n\<rparr>"

lemma sleeplock_both: "lk\<lparr>sl_locked := l, sl_pid := p\<rparr> = \<lparr>sl_locked = l, sl_pid = p\<rparr>"
  by (cases lk) simp

lemma uint_inc_0 [simp]: "uint_inc 0 = 1"
  by (simp add: uint_inc_def)

lemma find_Some_lru: "lru s xs \<Longrightarrow> List.find P xs = Some b \<Longrightarrow> b < NBUF \<and> P b"
  by (auto simp: lru_def dest: find_SomeD)

lemma hit_dev: "binv s \<Longrightarrow> b < NBUF \<Longrightarrow> hit (bufs s) n b \<Longrightarrow> b_dev (bufs s b) = 1 \<and> b_blockno (bufs s b) = n"
  using binv_buf [of s b] by (auto simp: hit_def buf_ok_def)

lemmas bread_unfold = block_acquire_def acquiresleep_def upd_buf_def sleeplock_both
  iderw_def holdingsleep_def Let_def

lemma bread_cached:
  assumes inv: "binv s" and n: "n < disksize s" "n \<notin> held s"
    and b: "b < NBUF" "b_dev (bufs s b) = 1" "b_blockno (bufs s b) = n"
  shows "bread 1 n s = Ok (b, s\<lparr>bufs := (bufs s)(b := taken s b n)\<rparr>)"
proof -
  obtain xs where xs: "lru s xs" using inv by (auto simp: binv_def)
  let ?P = "\<lambda>b. b_dev (bufs s b) = 1 \<and> b_blockno (bufs s b) = n"
  have only: "c = b" if "c < NBUF" "?P c" for c using that b binv_uniq [OF inv] by simp
  have "List.find ?P xs \<noteq> None" using xs b by (auto simp: find_None_iff lru_def)
  then obtain c where "List.find ?P xs = Some c" by auto
  moreover note find_Some_lru [OF xs this]
  ultimately have f: "List.find ?P xs = Some b" using only by simp
  have u: "\<not> sl_locked (b_lock (bufs s b))" using n(2) b by (auto simp: held_def)
  then have ok: "b_refcnt (bufs s b) = 0" "b_dirty (bufs s b) \<Longrightarrow> b_valid (bufs s b)"
    using binv_buf [OF inv b(1)] by (auto simp: buf_ok_def)
  show ?thesis
  proof (cases "b_valid (bufs s b)")
    case True
    have "bview s n = b_data (bufs s b)" by (rule bview_hit [OF inv b(1)]) (use True b in \<open>simp add: hit_def\<close>)
    then have "taken s b n = (b_refcnt_update uint_inc (bufs s b))\<lparr>b_lock := \<lparr>sl_locked = True, sl_pid = curpid s\<rparr>\<rparr>"
      using True ok b by (intro buf.equality) (simp_all add: taken_def)
    then show ?thesis
      using True u unfolding bread_def bget_def lru_searches(1) [OF xs] f by (simp add: bread_unfold)
  next
    case False
    have "bview s n = memdisk s n"
    proof (rule bview_miss, rule notI)
      fix c assume "c < NBUF" "hit (bufs s) n c"
      moreover from this have "?P c" using hit_dev [OF inv] by blast
      ultimately show False using only False by (auto simp: hit_def)
    qed
    then have "taken s b n = (b_refcnt_update uint_inc (bufs s b))\<lparr>b_lock := \<lparr>sl_locked = True, sl_pid = curpid s\<rparr>,
        b_valid := True, b_data := memdisk s n\<rparr>"
      using False ok b by (intro buf.equality) (simp_all add: taken_def)
    then show ?thesis
      using False u ok b n unfolding bread_def bget_def lru_searches(1) [OF xs] f by (cases "b_dirty (bufs s b)") (simp_all add: bread_unfold)
  qed
qed

lemma bread_recycle:
  assumes inv: "binv s" and n: "n < disksize s" and xs: "lru s xs"
    and miss: "\<And>c. c < NBUF \<Longrightarrow> b_dev (bufs s c) = 1 \<Longrightarrow> b_blockno (bufs s c) \<noteq> n"
    and f: "List.find (\<lambda>b. b_refcnt (bufs s b) = 0 \<and> \<not> b_dirty (bufs s b)) (rev xs) = Some b"
  shows "bread 1 n s = Ok (b, s\<lparr>bufs := (bufs s)(b := taken s b n)\<rparr>)"
proof -
  let ?P = "\<lambda>b. b_dev (bufs s b) = 1 \<and> b_blockno (bufs s b) = n"
  have m: "set xs = {..<NBUF}" using xs by (simp add: lru_def)
  have p: "List.find ?P xs = None" unfolding find_None_iff m using miss by blast
  have r: "b_refcnt (bufs s b) = 0" "\<not> b_dirty (bufs s b)" "b < NBUF"
    using find_SomeD [OF f] m by simp_all
  then have u: "\<not> sl_locked (b_lock (bufs s b))"
    using binv_buf [OF inv r(3)] by (auto simp: buf_ok_def split: if_splits)
  have "bview s n = memdisk s n"
    by (rule bview_miss) (use miss hit_dev [OF inv] in blast)
  then have "taken s b n = (bufs s b)\<lparr>b_dev := 1, b_blockno := n, b_dirty := False, b_refcnt := 1,
      b_lock := \<lparr>sl_locked = True, sl_pid = curpid s\<rparr>, b_valid := True, b_data := memdisk s n\<rparr>"
    using r by (intro buf.equality) (simp_all add: taken_def)
  then show ?thesis
    using u r n unfolding bread_def bget_def lru_searches [OF xs] p f by (simp add: bread_unfold)
qed


text \<open>The buffer taken for block \<open>n\<close> held that block already, or it was clean and nobody had the block.\<close>

definition may_take :: "'a bstate_scheme \<Rightarrow> nat \<Rightarrow> nat \<Rightarrow> bool" where
  "may_take s b n \<longleftrightarrow> b < NBUF \<and> n < disksize s \<and> \<not> sl_locked (b_lock (bufs s b)) \<and>
     (b_dev (bufs s b) = 1 \<and> b_blockno (bufs s b) = n
      \<or> \<not> b_dirty (bufs s b) \<and> (\<forall>c < NBUF. b_dev (bufs s c) = 1 \<longrightarrow> b_blockno (bufs s c) \<noteq> n))"

lemma taken_fields [simp]:
  "b_valid (taken s b n)" "b_dev (taken s b n) = 1" "b_blockno (taken s b n) = n"
  "b_lock (taken s b n) = \<lparr>sl_locked = True, sl_pid = curpid s\<rparr>" "b_refcnt (taken s b n) = 1"
  "b_data (taken s b n) = bview s n" "b_next (taken s b n) = b_next (bufs s b)"
  "b_prev (taken s b n) = b_prev (bufs s b)" "b_dirty (taken s b n) = b_dirty (bufs s b)"
  by (simp_all add: taken_def)

lemma may_take_other:
  assumes "binv s" "may_take s b n" "c < NBUF" "c \<noteq> b" "b_dev (bufs s c) = 1"
  shows "b_blockno (bufs s c) \<noteq> n"
  using assms binv_uniq [OF assms(1), of c b] by (auto simp: may_take_def)

lemma binv_taken:
  assumes "binv s" "may_take s b n"
  shows "binv (s\<lparr>bufs := (bufs s)(b := taken s b n)\<rparr>)"
proof (rule binv_replace [OF assms(1)])
  show "b < NBUF" using assms(2) by (simp add: may_take_def)
  show "buf_ok (disksize s) (memdisk s) (taken s b n)"
    using assms by (auto simp: buf_ok_def may_take_def)
qed (use may_take_other [OF assms] in auto)

lemma bview_taken:
  assumes "binv s" "may_take s b n"
  shows "bview (s\<lparr>bufs := (bufs s)(b := taken s b n)\<rparr>) = bview s" (is "bview ?s = _")
proof
  fix m
  note inv = binv_taken [OF assms] and b = assms(2) [unfolded may_take_def]
  show "bview ?s m = bview s m"
  proof (cases "m = n")
    case True
    then show ?thesis using b by (subst bview_hit [OF inv, of b]) (auto simp: hit_def)
  next
    case mn: False
    show ?thesis
    proof (cases "\<exists>c < NBUF. c \<noteq> b \<and> hit (bufs s) m c")
      case True
      then obtain c where c: "c < NBUF" "c \<noteq> b" "hit (bufs s) m c" by blast
      then show ?thesis using bview_hit [OF inv c(1), of m] bview_hit [OF assms(1) c(1,3)] by (simp add: hit_def)
    next
      case False
      have "bview ?s m = memdisk s m"
        by (subst bview_miss) (use False mn in \<open>auto simp: hit_def\<close>)
      also have "\<dots> = bview s m"
      proof (cases "hit (bufs s) m b")
        case True
        then show ?thesis
          using b mn bview_hit [OF assms(1) _ True] binv_buf [OF assms(1), of b]
          by (auto simp: hit_def buf_ok_def)
      next
        case nb: False
        show ?thesis by (rule bview_miss [symmetric]) (use False nb in blast)
      qed
      finally show ?thesis .
    qed
  qed
qed

lemma held_taken:
  assumes "may_take s b n"
  shows "held (s\<lparr>bufs := (bufs s)(b := taken s b n)\<rparr>) = insert n (held s)"
  using assms by (auto simp: held_def may_take_def)

lemma dirtyb_taken:
  assumes "may_take s b n"
  shows "dirtyb (s\<lparr>bufs := (bufs s)(b := taken s b n)\<rparr>) = dirtyb s"
  using assms by (force simp: dirtyb_def may_take_def)

lemma bat_taken:
  assumes "may_take s b n"
  shows "bat (s\<lparr>bufs := (bufs s)(b := taken s b n)\<rparr>) c m \<longleftrightarrow> bat s c m \<or> c = b \<and> m = n"
  using assms by (auto simp: bat_def may_take_def holdingsleep_def)

lemma bread_takes:
  assumes inv: "binv s" and n: "n < disksize s" "n \<notin> held s" and room: "card (insert n (held s \<union> dirtyb s)) \<le> NBUF"
  shows "\<exists>b. may_take s b n \<and> bread 1 n s = Ok (b, s\<lparr>bufs := (bufs s)(b := taken s b n)\<rparr>)"
proof (cases "\<exists>b < NBUF. b_dev (bufs s b) = 1 \<and> b_blockno (bufs s b) = n")
  case True
  then obtain b where b: "b < NBUF" "b_dev (bufs s b) = 1" "b_blockno (bufs s b) = n" by blast
  then have "may_take s b n" using n by (auto simp: may_take_def held_def)
  with bread_cached [OF inv n b] show ?thesis by blast
next
  case False
  obtain xs where xs: "lru s xs" using inv by (auto simp: binv_def)
  then have m: "set xs = {..<NBUF}" by (simp add: lru_def)
  let ?u = "\<lambda>b. b_refcnt (bufs s b) = 0 \<and> \<not> b_dirty (bufs s b)"
  have "n \<notin> dirtyb s"
  proof
    assume "n \<in> dirtyb s"
    then obtain b where "b < NBUF" "b_dirty (bufs s b)" "b_blockno (bufs s b) = n" by (auto simp: dirtyb_def)
    then show False using False binv_buf [OF inv, of b] by (auto simp: buf_ok_def)
  qed
  then have "card (held s \<union> dirtyb s) < NBUF" using room n(2) by simp
  then have "List.find ?u (rev xs) \<noteq> None"
    using unused_buffer [OF inv] by (simp add: find_None_iff m)
  then obtain b where f: "List.find ?u (rev xs) = Some b" by blast
  then have b: "b < NBUF" "?u b" using find_SomeD [OF f] m by simp_all
  have "may_take s b n"
    using b n False binv_buf [OF inv b(1)] by (auto simp: may_take_def buf_ok_def split: if_splits)
  moreover have "bread 1 n s = Ok (b, s\<lparr>bufs := (bufs s)(b := taken s b n)\<rparr>)"
    by (rule bread_recycle [OF inv n(1) xs _ f]) (use False in blast)
  ultimately show ?thesis by blast
qed

text \<open>
  What the calls leave alone: everything but the buffers and the disk, and,
  for a quiet call, also the disk, the view of it and the dirty blocks.
\<close>

definition bsame :: "'a bstate_scheme \<Rightarrow> 'a bstate_scheme \<Rightarrow> bool" where
  "bsame s s' \<longleftrightarrow> disksize s' = disksize s \<and> curpid s' = curpid s \<and> bstate.more s' = bstate.more s"

definition bquiet :: "'a bstate_scheme \<Rightarrow> 'a bstate_scheme \<Rightarrow> bool" where
  "bquiet s s' \<longleftrightarrow> bsame s s' \<and> memdisk s' = memdisk s \<and> disk_writes s' = disk_writes s
     \<and> bview s' = bview s \<and> dirtyb s' = dirtyb s"

lemma bsame_refl [simp]: "bsame s s"
  by (simp add: bsame_def)

lemma bsame_trans: "bsame s t \<Longrightarrow> bsame t u \<Longrightarrow> bsame s u"
  by (simp add: bsame_def)

lemma bquiet_refl [simp]: "bquiet s s"
  by (simp add: bquiet_def)

lemma bquiet_trans: "bquiet s t \<Longrightarrow> bquiet t u \<Longrightarrow> bquiet s u"
  by (auto simp: bquiet_def intro: bsame_trans)

lemma bquietD:
  assumes "bquiet s s'"
  shows "disksize s' = disksize s" "curpid s' = curpid s" "memdisk s' = memdisk s" "disk_writes s' = disk_writes s"
    "bview s' = bview s" "dirtyb s' = dirtyb s" "bstate.more s' = bstate.more s"
  using assms by (simp_all add: bquiet_def bsame_def)

lemma bsame_bufs [simp]: "bsame s (s\<lparr>bufs := f\<rparr>)"
  by (simp add: bsame_def)

lemma bread_ok:
  assumes "binv s" "n < disksize s" "n \<notin> held s" "card (insert n (held s \<union> dirtyb s)) \<le> NBUF"
  shows "\<exists>b s'. bread 1 n s = Ok (b, s') \<and> binv s' \<and> bquiet s s' \<and> bat s' b n
    \<and> held s' = insert n (held s) \<and> (\<forall>c m. bat s c m \<longrightarrow> bat s' c m)"
proof -
  obtain b where b: "may_take s b n" "bread 1 n s = Ok (b, s\<lparr>bufs := (bufs s)(b := taken s b n)\<rparr>)"
    using bread_takes [OF assms] by blast
  let ?s = "s\<lparr>bufs := (bufs s)(b := taken s b n)\<rparr>"
  have "binv ?s" "bquiet s ?s" "bat ?s b n" "held ?s = insert n (held s)" "\<forall>c m. bat s c m \<longrightarrow> bat ?s c m"
    using b(1) by (simp_all add: bquiet_def binv_taken [OF assms(1)] bview_taken [OF assms(1)] held_taken dirtyb_taken bat_taken)
  with b(2) show ?thesis by blast
qed

lemma blocks_minus:
  assumes "\<And>c. c < NBUF \<Longrightarrow> P' c \<longleftrightarrow> P c \<and> f c \<noteq> n" "\<And>c. f' c = f c"
  shows "{f' c | c. c < (NBUF :: nat) \<and> P' c} = {f c | c. c < NBUF \<and> P c} - {n}"
  using assms by auto

lemma buf_uniq_cong:
  "(\<And>c. b_dev (f c) = b_dev (g c)) \<Longrightarrow> (\<And>c. b_blockno (f c) = b_blockno (g c)) \<Longrightarrow> buf_uniq f = buf_uniq g"
  by (simp add: buf_uniq_def)

section \<open>Changing, writing and releasing a held block\<close>

lemma bat_only:
  assumes "binv s" "bat s b n" "c < NBUF" "b_valid (bufs s c)" "b_blockno (bufs s c) = n"
  shows "c = b"
  by (rule binv_uniq [OF assms(1)])
    (use assms binv_buf [OF assms(1), of b] binv_buf [OF assms(1), of c] in \<open>auto simp: bat_def buf_ok_def\<close>)

text \<open>A change of the held buffer that keeps its identity and its links.\<close>

lemma binv_held_change:
  assumes "binv s" "bat s b n" "buf_ok (disksize s) (memdisk s) x"
    and "b_dev x = 1" "b_blockno x = n" "b_next x = b_next (bufs s b)" "b_prev x = b_prev (bufs s b)"
  shows "binv (s\<lparr>bufs := (bufs s)(b := x)\<rparr>)"
proof (rule binv_replace [OF assms(1) _ assms(6,7,3)])
  show "b < NBUF" using assms(2) by (simp add: bat_def)
  fix c assume "c < NBUF" "c \<noteq> b" "b_dev (bufs s c) = b_dev x"
  then show "b_blockno (bufs s c) \<noteq> b_blockno x"
    using binv_uniq [OF assms(1), of c b] binv_buf [OF assms(1), of b] assms(2,4,5) by (auto simp: bat_def buf_ok_def)
qed

lemma bview_held_change:
  assumes "binv s" "bat s b n" "binv (s\<lparr>bufs := (bufs s)(b := x)\<rparr>)" "b_valid x" "b_blockno x = n"
  shows "bview (s\<lparr>bufs := (bufs s)(b := x)\<rparr>) = (bview s)(n := b_data x)" (is "bview ?s = _")
proof
  fix m
  have b: "b < NBUF" using assms(2) by (simp add: bat_def)
  show "bview ?s m = ((bview s)(n := b_data x)) m"
  proof (cases "m = n")
    case True
    then show ?thesis using bview_hit [OF assms(3) b, of n] assms(4,5) by (simp add: hit_def)
  next
    case False
    have h: "hit (bufs ?s) m c \<longleftrightarrow> hit (bufs s) m c" if "c < NBUF" for c
      using False assms(2,5) by (auto simp: hit_def bat_def)
    show ?thesis
    proof (cases "\<exists>c < NBUF. hit (bufs s) m c")
      case True
      then obtain c where c: "c < NBUF" "hit (bufs s) m c" by blast
      then have "c \<noteq> b" using False assms(2) by (auto simp: hit_def bat_def)
      then show ?thesis
        using False bview_hit [OF assms(3) c(1), of m] bview_hit [OF assms(1) c] h [OF c(1)] c(2) by simp
    next
      case nc: False
      then have "bview s m = memdisk s m" "bview ?s m = memdisk ?s m"
        using h by (blast intro: bview_miss)+
      then show ?thesis using False by simp
    qed
  qed
qed

lemma held_held_change:
  assumes "bat s b n" "sl_locked (b_lock x)" "b_blockno x = n"
  shows "held (s\<lparr>bufs := (bufs s)(b := x)\<rparr>) = held s"
proof -
  have "sl_locked (b_lock (bufs s b))" "b_blockno (bufs s b) = n" using assms(1) by (auto simp: bat_def holdingsleep_def)
  then show ?thesis using assms(2,3) by (fastforce simp: held_def)
qed

lemma set_bdata_ok:
  assumes "binv s" "bat s b n" "length d = BSIZE"
  defines "s' \<equiv> set_bdata b d s"
  shows "binv s'" "bview s' = (bview s)(n := d)" "held s' = held s" "dirtyb s' = dirtyb s" "bat s' c m = bat s c m"
proof -
  let ?x = "(bufs s b)\<lparr>b_data := d\<rparr>"
  have e: "s' = s\<lparr>bufs := (bufs s)(b := ?x)\<rparr>" by (simp add: s'_def set_bdata_def upd_buf_def)
  have b: "b < NBUF" "buf_ok (disksize s) (memdisk s) (bufs s b)" "sl_locked (b_lock (bufs s b))"
    "b_valid (bufs s b)" "b_blockno (bufs s b) = n"
    using assms(2) binv_buf [OF assms(1)] by (auto simp: bat_def holdingsleep_def)
  show i: "binv s'" unfolding e
    by (rule binv_held_change [OF assms(1,2)]) (use b assms(3) in \<open>auto simp: buf_ok_def\<close>)
  show "bview s' = (bview s)(n := d)"
    using bview_held_change [OF assms(1,2) i [unfolded e]] b by (simp add: e)
  show "held s' = held s" unfolding e by (rule held_held_change [OF assms(2)]) (use b in simp_all)
  show "dirtyb s' = dirtyb s" unfolding e by (force simp: dirtyb_def)
  show "bat s' c m = bat s c m" by (simp add: e bat_def)
qed

lemma set_dirty_ok:
  assumes "binv s" "bat s b n"
  defines "s' \<equiv> upd_buf b (b_dirty_update (\<lambda>_. True)) s"
  shows "binv s'" "bview s' = bview s" "held s' = held s" "dirtyb s' = insert n (dirtyb s)" "bat s' c m = bat s c m"
proof -
  let ?x = "(bufs s b)\<lparr>b_dirty := True\<rparr>"
  have e: "s' = s\<lparr>bufs := (bufs s)(b := ?x)\<rparr>" by (simp add: s'_def upd_buf_def)
  have b: "b < NBUF" "buf_ok (disksize s) (memdisk s) (bufs s b)" "sl_locked (b_lock (bufs s b))"
    "b_valid (bufs s b)" "b_blockno (bufs s b) = n"
    using assms(2) binv_buf [OF assms(1)] by (auto simp: bat_def holdingsleep_def)
  show i: "binv s'" unfolding e
    by (rule binv_held_change [OF assms(1,2)]) (use b in \<open>auto simp: buf_ok_def\<close>)
  have "bview s' = (bview s)(n := b_data (bufs s b))"
    using bview_held_change [OF assms(1,2) i [unfolded e]] b by (simp add: e)
  then show "bview s' = bview s" using bview_bat [OF assms(1,2)] by (metis fun_upd_triv)
  show "held s' = held s" unfolding e by (rule held_held_change [OF assms(2)]) (use b in simp_all)
  show "dirtyb s' = insert n (dirtyb s)" unfolding e using b by (auto simp: dirtyb_def)
  show "bat s' c m = bat s c m" by (simp add: e bat_def)
qed


lemma bwrite_ok:
  assumes inv: "binv s" and at: "bat s b n"
  shows "\<exists>s'. bwrite b s = Ok s' \<and> binv s' \<and> bsame s s' \<and> memdisk s' = (memdisk s)(n := bview s n)
    \<and> disk_writes s' = disk_writes s @ [(n, bview s n)] \<and> bview s' = bview s \<and> held s' = held s
    \<and> dirtyb s' = dirtyb s - {n} \<and> (\<forall>c m. bat s' c m = bat s c m)"
proof -
  let ?x = "(bufs s b)\<lparr>b_valid := True, b_dirty := False\<rparr>" and ?d = "b_data (bufs s b)"
  let ?t = "s\<lparr>memdisk := (memdisk s)(n := ?d), disk_writes := disk_writes s @ [(n, ?d)]\<rparr>"
  let ?s = "?t\<lparr>bufs := (bufs s)(b := ?x)\<rparr>"
  have b: "b < NBUF" "buf_ok (disksize s) (memdisk s) (bufs s b)" "holdingsleep (curpid s) (b_lock (bufs s b))"
    "b_valid (bufs s b)" "b_blockno (bufs s b) = n" "sl_locked (b_lock (bufs s b))"
    using at binv_buf [OF inv] by (auto simp: bat_def holdingsleep_def)
  have v: "bview s n = ?d" by (rule bview_bat [OF inv at])
  have "bwrite b s = Ok ?s"
    using b by (simp add: bwrite_def iderw_def upd_buf_def Let_def buf_ok_def)
  moreover have i: "binv ?s"
  proof -
    have l: "lru ?s xs = lru s xs" for xs by (rule lru_cong) (auto simp: fun_eq_iff)
    have u: "buf_uniq (bufs ?s) = buf_uniq (bufs s)" by (rule buf_uniq_cong) simp_all
    have "buf_ok (disksize ?s) (memdisk ?s) (bufs ?s c)" if c: "c < NBUF" for c
    proof (cases "c = b")
      case True
      then show ?thesis using b by (simp add: buf_ok_def)
    next
      case False
      then have "\<not> (b_valid (bufs s c) \<and> b_blockno (bufs s c) = n)" using bat_only [OF inv at c] by blast
      then show ?thesis using False binv_buf [OF inv c] by (auto simp: buf_ok_def)
    qed
    then have "\<forall>c < NBUF. buf_ok (disksize ?s) (memdisk ?s) (bufs ?s c)" by blast
    moreover have "\<forall>m < disksize ?s. length (memdisk ?s m) = BSIZE"
      using b(2) inv by (simp add: buf_ok_def binv_def)
    ultimately show ?thesis using inv l u unfolding binv_def by blast
  qed
  moreover have "bview ?s = bview s"
  proof
    fix m
    have h: "hit (bufs ?s) m c = hit (bufs s) m c" for c using b(4) by (auto simp: hit_def)
    show "bview ?s m = bview s m"
    proof (cases "\<exists>c < NBUF. hit (bufs s) m c")
      case True
      then obtain c where c: "c < NBUF" "hit (bufs s) m c" by blast
      then show ?thesis using bview_hit [OF i c(1), of m] bview_hit [OF inv c] h by simp
    next
      case False
      then have "\<not> hit (bufs s) m c" "\<not> hit (bufs ?s) m c" if "c < NBUF" for c
        using that h by blast+
      then have "bview s m = memdisk s m" "bview ?s m = memdisk ?s m" by (intro bview_miss; blast)+
      moreover have "m \<noteq> n" using False b by (auto simp: hit_def)
      ultimately show ?thesis by simp
    qed
  qed
  moreover have "held ?s = held s" by (force simp: held_def)
  moreover have "dirtyb ?s = dirtyb s - {n}"
  proof -
    have "b_dirty (bufs ?s c) \<longleftrightarrow> b_dirty (bufs s c) \<and> b_blockno (bufs s c) \<noteq> n" if c: "c < NBUF" for c
      using bat_only [OF inv at c] binv_buf [OF inv c] b(5) by (auto simp: buf_ok_def)
    moreover have "b_blockno (bufs ?s c) = b_blockno (bufs s c)" for c by simp
    ultimately show ?thesis unfolding dirtyb_def by (intro blocks_minus)
  qed
  moreover have "\<forall>c m. bat ?s c m = bat s c m" using b(4) by (auto simp: bat_def)
  moreover have "bsame s ?s" by (simp add: bsame_def)
  ultimately show ?thesis by (intro exI [of _ ?s]) (simp add: v)
qed


text \<open>Moving a buffer in the list changes nothing but the links.\<close>

definition nolink :: "buf \<Rightarrow> buf" where
  "nolink x = x\<lparr>b_prev := 0, b_next := 0\<rparr>"

lemma nolink_eqD:
  assumes "nolink x = nolink y"
  shows "b_valid x = b_valid y" "b_dirty x = b_dirty y" "b_dev x = b_dev y" "b_blockno x = b_blockno y"
    "b_lock x = b_lock y" "b_refcnt x = b_refcnt y" "b_data x = b_data y"
  using assms by (cases x; cases y; simp add: nolink_def)+

lemma nolink_upd [simp]:
  "nolink (x\<lparr>b_next := a\<rparr>) = nolink x" "nolink (x\<lparr>b_prev := a\<rparr>) = nolink x"
  by (simp_all add: nolink_def)

lemma nolink_upd_buf:
  "nolink (bufs (upd_buf b (b_next_update (\<lambda>_. v)) s) c) = nolink (bufs s c)"
  "nolink (bufs (upd_buf b (b_prev_update (\<lambda>_. v)) s) c) = nolink (bufs s c)"
  by (simp_all add: upd_buf_def)

lemma bmove_front_frame:
  "bmove_front b s = s\<lparr>bufs := bufs (bmove_front b s)\<rparr>" "nolink (bufs (bmove_front b s) c) = nolink (bufs s c)"
  by (simp_all add: bmove_front_def Let_def nolink_upd_buf) (simp add: upd_buf_def)

lemma links_only:
  assumes inv: "binv s" and f: "\<And>c. nolink (f c) = nolink (bufs s c)" and l: "lru (s\<lparr>bufs := f\<rparr>) xs"
  shows "binv (s\<lparr>bufs := f\<rparr>)" "bview (s\<lparr>bufs := f\<rparr>) = bview s" "held (s\<lparr>bufs := f\<rparr>) = held s"
    "dirtyb (s\<lparr>bufs := f\<rparr>) = dirtyb s" "bat (s\<lparr>bufs := f\<rparr>) c m = bat s c m"
proof -
  note e = nolink_eqD [OF f]
  have "buf_uniq f = buf_uniq (bufs s)" by (rule buf_uniq_cong) (simp_all add: e)
  then show "binv (s\<lparr>bufs := f\<rparr>)" using inv l by (auto simp: binv_def buf_ok_def e)
  have "hit f n = hit (bufs s) n" for n by (auto simp: hit_def e)
  then show "bview (s\<lparr>bufs := f\<rparr>) = bview s" by (intro ext) (simp add: bview_def e split: option.split)
qed (simp_all add: held_def dirtyb_def bat_def nolink_eqD [OF f])

lemma brelse_ok:
  assumes inv: "binv s" and at: "bat s b n" and clean: "n \<in> dirtyb s \<or> bview s n = memdisk s n"
  shows "\<exists>s'. brelse b s = Ok s' \<and> binv s' \<and> bquiet s s' \<and> held s' = held s - {n}
    \<and> (\<forall>c m. bat s' c m \<longleftrightarrow> bat s c m \<and> c \<noteq> b) \<and> (\<forall>xs. lru s xs \<longrightarrow> lru s' (b # remove1 b xs))"
proof -
  let ?x = "b_refcnt_update uint_dec (b_lock_update releasesleep (bufs s b))"
  let ?t = "s\<lparr>bufs := (bufs s)(b := ?x)\<rparr>"
  let ?f = "bufs (bmove_front b ?t)"
  have b: "b < NBUF" "buf_ok (disksize s) (memdisk s) (bufs s b)" "holdingsleep (curpid s) (b_lock (bufs s b))"
    "b_valid (bufs s b)" "b_blockno (bufs s b) = n" "sl_locked (b_lock (bufs s b))"
    using at binv_buf [OF inv] by (auto simp: bat_def holdingsleep_def)
  have d: "bview s n = b_data (bufs s b)" "b_dirty (bufs s b) \<longleftrightarrow> n \<in> dirtyb s"
    by (rule bview_bat [OF inv at], rule bat_dirty_iff [OF inv at])
  have l: "lru ?t xs = lru s xs" for xs by (rule lru_replace) simp_all
  have r: "uint_dec (Suc 0) = 0" by (simp add: uint_dec_def)
  have it: "binv ?t"
    by (rule binv_held_change [OF inv at]) (use b d clean in \<open>auto simp: buf_ok_def releasesleep_def r\<close>)
  have "bview ?t = (bview s)(n := b_data ?x)" by (rule bview_held_change [OF inv at it]) (use b in simp_all)
  moreover have "b_data ?x = bview s n" using d(1) by simp
  ultimately have vt: "bview ?t = bview s" by (simp only: fun_upd_triv)
  have run: "brelse b s = Ok (bmove_front b ?t)"
    using b by (simp add: brelse_def upd_buf_def Let_def buf_ok_def r)
  have lf: "lru (bmove_front b ?t) (b # remove1 b xs)" if "lru s xs" for xs
  proof -
    have "b \<in> set xs" "distinct xs" using that b by (auto simp: lru_def)
    then obtain as bs where x: "xs = as @ b # bs" "b \<notin> set as" by (metis split_list_first)
    then show ?thesis using lru_move_front [of ?t as b bs] that l by (simp add: remove1_append)
  qed
  obtain xs where "lru s xs" using inv by (auto simp: binv_def)
  note lo = links_only [of ?t ?f "b # remove1 b xs", OF it bmove_front_frame(2), folded bmove_front_frame(1) [of b ?t], OF lf [OF this]]
  have held: "held ?t = held s - {n}"
  proof -
    have "sl_locked (b_lock (bufs ?t c)) \<longleftrightarrow> sl_locked (b_lock (bufs s c)) \<and> b_blockno (bufs s c) \<noteq> n" if c: "c < NBUF" for c
      using bat_only [OF inv at c] binv_buf [OF inv c] b(5) by (auto simp: buf_ok_def releasesleep_def)
    moreover have "b_blockno (bufs ?t c) = b_blockno (bufs s c)" for c by simp
    ultimately show ?thesis unfolding held_def by (intro blocks_minus)
  qed
  have dirty: "dirtyb ?t = dirtyb s" by (force simp: dirtyb_def)
  have bat: "bat ?t c m \<longleftrightarrow> bat s c m \<and> c \<noteq> b" for c m by (auto simp: bat_def holdingsleep_def releasesleep_def)
  have "bsame s (bmove_front b ?t)" "memdisk (bmove_front b ?t) = memdisk s" "disk_writes (bmove_front b ?t) = disk_writes s"
    by (subst bmove_front_frame(1), simp add: bsame_def)+
  then show ?thesis
    using run lo lf by (intro exI [of _ "bmove_front b ?t"]) (simp add: bquiet_def vt held dirty bat)
qed

section \<open>Setting the cache up\<close>

text \<open>The static storage of the cache before \<open>binit\<close>.\<close>

definition zero_buf :: buf where
  "zero_buf = \<lparr>b_valid = False, b_dirty = False, b_dev = 0, b_blockno = 0, b_lock = \<lparr>sl_locked = False, sl_pid = 0\<rparr>,
     b_refcnt = 0, b_prev = 0, b_next = 0, b_data = replicate BSIZE 0\<rparr>"

lemma binit_step_links:
  assumes "b \<noteq> bhead"
  shows "nxt (binit_step b s) = (nxt s)(b := nxt s bhead, bhead := b)"
    and "prv (binit_step b s) = (prv s)(b := bhead, nxt s bhead := b)"
  using assms by (simp_all add: binit_step_def Let_def upd_buf_def fun_eq_iff)

lemma binit_ring:
  assumes "k \<le> NBUF" "nxt s bhead = bhead" "prv s bhead = bhead"
  shows "dpath (nxt (fold binit_step [0..<k] s)) (prv (fold binit_step [0..<k] s)) bhead (rev [0..<k]) bhead"
  using assms(1)
proof (induction k)
  case 0
  then show ?case using assms(2,3) by simp
next
  case (Suc k)
  let ?s = "fold binit_step [0..<k] s"
  have "k \<noteq> bhead" using Suc by simp
  note l = binit_step_links [OF this, of ?s]
  have "dpath ((nxt ?s)(k := nxt ?s bhead, bhead := k)) ((prv ?s)(k := bhead, nxt ?s bhead := k)) bhead (k # rev [0..<k]) bhead"
    by (rule dpath_link_front [OF Suc.IH]) (use Suc.prems in auto)
  then have "dpath (nxt (binit_step k ?s)) (prv (binit_step k ?s)) bhead (k # rev [0..<k]) bhead" unfolding l .
  then show ?case by simp
qed

lemma binit_step_frame:
  "binit_step b s = s\<lparr>bufs := bufs (binit_step b s)\<rparr>"
  "(\<And>c. nolink (bufs s c) = nolink zero_buf) \<Longrightarrow> nolink (bufs (binit_step b s) c) = nolink zero_buf"
proof -
  show "binit_step b s = s\<lparr>bufs := bufs (binit_step b s)\<rparr>"
    by (simp add: binit_step_def Let_def upd_buf_def)
  assume z: "\<And>c. nolink (bufs s c) = nolink zero_buf"
  have "nolink (x\<lparr>b_lock := l\<rparr>) = (nolink x)\<lparr>b_lock := l\<rparr>" for x l
    by (rule buf.equality) (simp_all add: nolink_def)
  moreover have "(nolink zero_buf)\<lparr>b_lock := initsleeplock\<rparr> = nolink zero_buf"
    by (simp add: nolink_def zero_buf_def initsleeplock_def)
  ultimately show "nolink (bufs (binit_step b s) c) = nolink zero_buf"
    by (simp add: binit_step_def Let_def nolink_upd_buf) (simp add: upd_buf_def z)
qed

lemma binit_ok:
  assumes "\<And>c. bufs s c = zero_buf" "\<And>n. n < disksize s \<Longrightarrow> length (memdisk s n) = BSIZE"
  shows "binv (binit s)" "bview (binit s) = memdisk s" "held (binit s) = {}" "dirtyb (binit s) = {}"
    "bsame s (binit s)" "memdisk (binit s) = memdisk s" "disk_writes (binit s) = disk_writes s"
    "lru (binit s) (rev [0..<NBUF])" "nolink (bufs (binit s) b) = nolink zero_buf"
proof -
  let ?s0 = "upd_buf bhead (b_next_update (\<lambda>_. bhead)) (upd_buf bhead (b_prev_update (\<lambda>_. bhead)) s)"
  have "\<exists>f. fold binit_step bs t = t\<lparr>bufs := f\<rparr> \<and> (\<forall>c. nolink (f c) = nolink zero_buf)"
    if "\<And>c. nolink (bufs t c) = nolink zero_buf" for bs and t :: "'a bstate_scheme"
    using that
  proof (induction bs arbitrary: t)
    case Nil
    then show ?case by (intro exI [of _ "bufs t"]) simp
  next
    case (Cons b bs)
    obtain f where f: "fold binit_step bs (binit_step b t) = (binit_step b t)\<lparr>bufs := f\<rparr>"
      "\<forall>c. nolink (f c) = nolink zero_buf"
      using Cons.IH [of "binit_step b t"] binit_step_frame(2) [OF Cons.prems] by blast
    have "(binit_step b t)\<lparr>bufs := f\<rparr> = t\<lparr>bufs := f\<rparr>" by (subst binit_step_frame(1)) simp
    with f show ?case by (intro exI [of _ f]) simp
  qed
  from this [of ?s0 "[0..<NBUF]"]
  obtain f where "fold binit_step [0..<NBUF] ?s0 = ?s0\<lparr>bufs := f\<rparr>" and z: "\<forall>c. nolink (f c) = nolink zero_buf"
    by (auto simp: upd_buf_def assms(1))
  then have f: "binit s = s\<lparr>bufs := f\<rparr>" by (simp add: binit_def upd_buf_def)
  note e = nolink_eqD [OF z [rule_format], simplified zero_buf_def buf.simps]
  have "dpath (nxt (binit s)) (prv (binit s)) bhead (rev [0..<NBUF]) bhead"
    unfolding binit_def by (rule binit_ring) (simp_all add: upd_buf_def)
  then show l: "lru (binit s) (rev [0..<NBUF])" by (auto simp: lru_def)
  show "nolink (bufs (binit s) b) = nolink zero_buf" using z by (simp add: f)
  have "buf_uniq (bufs (binit s))" by (simp add: buf_uniq_def f e)
  then show i: "binv (binit s)" using assms(2) l by (auto simp: binv_def f buf_ok_def e)
  show h: "held (binit s) = {}" "dirtyb (binit s) = {}" by (simp_all add: held_def dirtyb_def f e)
  show "memdisk (binit s) = memdisk s" "disk_writes (binit s) = disk_writes s" "bsame s (binit s)"
    by (simp_all add: f)
  then show "bview (binit s) = memdisk s" using bview_clean [OF i] h by (intro ext) simp
qed

section \<open>The two ways in which reading a block does not return\<close>

lemma bread_asleep:
  assumes inv: "binv s" and b: "b < NBUF" "b_dev (bufs s b) = dev" "b_blockno (bufs s b) = n" "dev \<noteq> 0"
    and "sl_locked (b_lock (bufs s b))"
  shows "bread dev n s = Err Asleep"
proof -
  obtain xs where xs: "lru s xs" using inv by (auto simp: binv_def)
  let ?P = "\<lambda>b. b_dev (bufs s b) = dev \<and> b_blockno (bufs s b) = n"
  have m: "set xs = {..<NBUF}" using xs by (simp add: lru_def)
  have "List.find ?P xs \<noteq> None" unfolding find_None_iff m using b by blast
  then obtain c where f: "List.find ?P xs = Some c" by blast
  have "c = b" using find_Some_lru [OF xs f] b binv_uniq [OF inv, of c b] by simp
  with f show ?thesis
    using assms(6) unfolding bread_def bget_def lru_searches(1) [OF xs]
    by (simp add: block_acquire_def acquiresleep_def upd_buf_def)
qed

lemma bread_no_buffers:
  assumes inv: "binv s" and miss: "\<And>b. b < NBUF \<Longrightarrow> b_dev (bufs s b) = dev \<Longrightarrow> b_blockno (bufs s b) \<noteq> n"
    and busy: "\<And>b. b < NBUF \<Longrightarrow> sl_locked (b_lock (bufs s b)) \<or> b_dirty (bufs s b)"
  shows "bread dev n s = Err (Panic ''bget: no buffers'')"
proof -
  obtain xs where xs: "lru s xs" using inv by (auto simp: binv_def)
  then have m: "set xs = {..<NBUF}" by (simp add: lru_def)
  have "List.find (\<lambda>b. b_dev (bufs s b) = dev \<and> b_blockno (bufs s b) = n) xs = None"
    unfolding find_None_iff m using miss by blast
  moreover have "b_refcnt (bufs s b) \<noteq> 0 \<or> b_dirty (bufs s b)" if "b < NBUF" for b
    using busy [OF that] binv_buf [OF inv that] by (auto simp: buf_ok_def)
  then have "List.find (\<lambda>b. b_refcnt (bufs s b) = 0 \<and> \<not> b_dirty (bufs s b)) (rev xs) = None"
    unfolding find_None_iff set_rev m by blast
  ultimately show ?thesis unfolding bread_def bget_def lru_searches [OF xs] by simp
qed

section \<open>The interface of the cache\<close>

text \<open>
  What the layers above rely on: blocks are taken and given back, a taken
  block shows its contents, and no transfer is visible in the view.  The
  capacity counts the blocks that are taken or dirty and the one asked for.
\<close>

locale block_store =
  fixes rd :: "nat \<Rightarrow> 's \<Rightarrow> ('b \<times> 's) res" and rl :: "'b \<Rightarrow> 's \<Rightarrow> 's res"
    and inv :: "'s \<Rightarrow> bool" and view :: "'s \<Rightarrow> nat \<Rightarrow> byte list" and disk :: "'s \<Rightarrow> nat \<Rightarrow> byte list"
    and taken_blocks :: "'s \<Rightarrow> nat set" and dirty :: "'s \<Rightarrow> nat set"
    and holds :: "'s \<Rightarrow> 'b \<Rightarrow> nat \<Rightarrow> bool" and quiet :: "'s \<Rightarrow> 's \<Rightarrow> bool"
    and nblocks :: "'s \<Rightarrow> nat" and capacity :: nat
  assumes rd_ok: "inv s \<Longrightarrow> n < nblocks s \<Longrightarrow> n \<notin> taken_blocks s \<Longrightarrow> card (insert n (taken_blocks s \<union> dirty s)) \<le> capacity \<Longrightarrow>
      \<exists>b s'. rd n s = Ok (b, s') \<and> inv s' \<and> quiet s s' \<and> holds s' b n \<and> taken_blocks s' = insert n (taken_blocks s)
        \<and> (\<forall>c m. holds s c m \<longrightarrow> holds s' c m)"
    and rl_ok: "inv s \<Longrightarrow> holds s b n \<Longrightarrow> n \<in> dirty s \<or> view s n = disk s n \<Longrightarrow>
      \<exists>s'. rl b s = Ok s' \<and> inv s' \<and> quiet s s' \<and> taken_blocks s' = taken_blocks s - {n}
        \<and> (\<forall>c m. holds s' c m \<longleftrightarrow> holds s c m \<and> c \<noteq> b)"
    and quiet_view: "quiet s s' \<Longrightarrow> view s' = view s \<and> disk s' = disk s \<and> dirty s' = dirty s \<and> nblocks s' = nblocks s"
    and quiet_trans: "quiet s t \<Longrightarrow> quiet t u \<Longrightarrow> quiet s u"
    and holds_taken: "holds s b n \<Longrightarrow> n \<in> taken_blocks s"
    and holds_inj: "inv s \<Longrightarrow> holds s b n \<Longrightarrow> holds s b m \<Longrightarrow> m = n"
    and clean: "inv s \<Longrightarrow> n \<notin> taken_blocks s \<Longrightarrow> n \<in> dirty s \<or> view s n = disk s n"
begin

text \<open>Taking a block, looking at it and giving it back is not noticeable.\<close>

lemma peek:
  assumes "inv s" "n < nblocks s" "n \<notin> taken_blocks s" "card (insert n (taken_blocks s \<union> dirty s)) \<le> capacity"
  shows "\<exists>b s1 s2. rd n s = Ok (b, s1) \<and> inv s1 \<and> quiet s s1 \<and> holds s1 b n \<and> view s1 = view s \<and> rl b s1 = Ok s2
    \<and> inv s2 \<and> quiet s s2 \<and> taken_blocks s2 = taken_blocks s \<and> (\<forall>c m. holds s c m \<longrightarrow> holds s2 c m)"
proof -
  obtain b s1 where r: "rd n s = Ok (b, s1)" "inv s1" "quiet s s1" "holds s1 b n"
    "taken_blocks s1 = insert n (taken_blocks s)" "\<forall>c m. holds s c m \<longrightarrow> holds s1 c m"
    using rd_ok [OF assms] by blast
  note q = quiet_view [OF r(3)]
  have "n \<in> dirty s1 \<or> view s1 n = disk s1 n" using clean [OF assms(1,3)] q by simp
  from rl_ok [OF r(2,4) this] obtain s2 where l: "rl b s1 = Ok s2" "inv s2" "quiet s1 s2"
    "taken_blocks s2 = taken_blocks s1 - {n}" "\<forall>c m. holds s2 c m \<longleftrightarrow> holds s1 c m \<and> c \<noteq> b" by blast
  have "c \<noteq> b" if "holds s c m" for c m
    using that r(4,6) holds_inj [OF r(2,4)] holds_taken assms(3) by blast
  then have "\<forall>c m. holds s c m \<longrightarrow> holds s2 c m" using l(5) r(6) by blast
  moreover have "taken_blocks s2 = taken_blocks s" using l(4) r(5) assms(3) by simp
  ultimately show ?thesis using r l q quiet_trans [OF r(3) l(3)] by blast
qed

end

interpretation bc: block_store "bread 1" brelse binv bview memdisk held dirtyb bat bquiet disksize NBUF
proof unfold_locales
  fix s :: "'a bstate_scheme" and b n
  show "\<exists>s'. brelse b s = Ok s' \<and> binv s' \<and> bquiet s s' \<and> held s' = held s - {n}
      \<and> (\<forall>c m. bat s' c m \<longleftrightarrow> bat s c m \<and> c \<noteq> b)"
    if "binv s" "bat s b n" "n \<in> dirtyb s \<or> bview s n = memdisk s n"
    using brelse_ok [OF that] by blast
  show "\<exists>b s'. bread 1 n s = Ok (b, s') \<and> binv s' \<and> bquiet s s' \<and> bat s' b n \<and> held s' = insert n (held s)
      \<and> (\<forall>c m. bat s c m \<longrightarrow> bat s' c m)"
    if "binv s" "n < disksize s" "n \<notin> held s" "card (insert n (held s \<union> dirtyb s)) \<le> NBUF"
    by (rule bread_ok [OF that])
qed (auto intro: bquiet_trans bat_held bview_clean simp: bquiet_def bsame_def bat_def)

text \<open>
  C14. The cache is coherent: reading a block of the disk returns a locked,
  valid buffer whose contents are what the last holder left in the block, for
  every cache state, and it evicts no buffer that is held or dirty, so the
  view of every block, the dirty blocks and the disk are unchanged.
\<close>

theorem bread_coherent:
  assumes "binv s" "n < disksize s" "n \<notin> held s" "card (insert n (held s \<union> dirtyb s)) \<le> NBUF"
  shows "\<exists>b s'. bread 1 n s = Ok (b, s') \<and> binv s' \<and> bat s' b n \<and> b_data (bufs s' b) = bview s n
    \<and> bview s' = bview s \<and> memdisk s' = memdisk s \<and> dirtyb s' = dirtyb s \<and> held s' = insert n (held s)"
proof -
  obtain b s' where r: "bread 1 n s = Ok (b, s')" "binv s'" "bquiet s s'" "bat s' b n" "held s' = insert n (held s)"
    using bc.rd_ok [OF assms] by blast
  then show ?thesis using bview_bat [OF r(2,4)] bquietD [OF r(3)] by auto
qed

definition demo_cache :: bstate where
  "demo_cache = binit \<lparr>memdisk = (\<lambda>n. replicate BSIZE (of_nat n)), disksize = 40, disk_writes = [],
     bufs = (\<lambda>_. zero_buf), curpid = 1\<rparr>"

lemma demo_cache:
  "binv demo_cache" "bview demo_cache = (\<lambda>n. replicate BSIZE (of_nat n))" "held demo_cache = {}" "dirtyb demo_cache = {}"
  "disksize demo_cache = 40" "lru demo_cache (rev [0..<NBUF])" "nolink (bufs demo_cache b) = nolink zero_buf"
proof -
  note b = binit_ok [of "\<lparr>memdisk = (\<lambda>n. replicate BSIZE (of_nat n)), disksize = 40, disk_writes = [],
     bufs = (\<lambda>_. zero_buf), curpid = 1\<rparr>", simplified]
  show "binv demo_cache" "bview demo_cache = (\<lambda>n. replicate BSIZE (of_nat n))" "held demo_cache = {}" "dirtyb demo_cache = {}"
    "disksize demo_cache = 40" "lru demo_cache (rev [0..<NBUF])" "nolink (bufs demo_cache b) = nolink zero_buf"
    using b by (simp_all add: demo_cache_def bsame_def)
qed

theorem bread_coherent_witness:
  "\<exists>b s'. bread 1 3 demo_cache = Ok (b, s') \<and> b_data (bufs s' b) = replicate BSIZE 3 \<and> held s' = {3}"
  using bread_coherent [of demo_cache 3] by (auto simp: demo_cache layout_simps)

text \<open>
  C16. The cache recycles in least-recently-used order: on a miss the buffer
  taken is the last one of the list that is neither referenced nor dirty, and
  releasing a buffer moves it to the front, both through the pointer
  operations of the code.
\<close>

theorem bcache_lru:
  assumes "binv s" "lru s xs" "n < disksize s" "\<forall>c < NBUF. b_dev (bufs s c) = 1 \<longrightarrow> b_blockno (bufs s c) \<noteq> n"
    and "List.find (\<lambda>b. b_refcnt (bufs s b) = 0 \<and> \<not> b_dirty (bufs s b)) (rev xs) = Some b"
  shows "\<exists>s1 s2. bread 1 n s = Ok (b, s1) \<and> lru s1 xs \<and> brelse b s1 = Ok s2 \<and> lru s2 (b # remove1 b xs)"
proof -
  let ?s1 = "s\<lparr>bufs := (bufs s)(b := taken s b n)\<rparr>"
  have r: "bread 1 n s = Ok (b, ?s1)" by (rule bread_recycle [OF assms(1,3,2) _ assms(5)]) (use assms(4) in blast)
  have b: "b < NBUF" "b_refcnt (bufs s b) = 0" "\<not> b_dirty (bufs s b)"
    using find_SomeD [OF assms(5)] assms(2) by (simp_all add: lru_def)
  then have m: "may_take s b n"
    using assms(3,4) binv_buf [OF assms(1) b(1)] by (auto simp: may_take_def buf_ok_def split: if_splits)
  have l: "lru ?s1 xs" using assms(2) by (simp add: lru_replace)
  have "bat ?s1 b n" using m by (simp add: bat_taken)
  moreover have "bview s n = memdisk s n" by (rule bview_miss) (use assms(4) hit_dev [OF assms(1)] in blast)
  ultimately obtain s2 where "brelse b ?s1 = Ok s2" "lru s2 (b # remove1 b xs)"
    using brelse_ok [OF binv_taken [OF assms(1) m], of b n] l bview_taken [OF assms(1) m] by auto
  with r l show ?thesis by blast
qed

theorem bcache_lru_witness:
  "\<exists>s1 s2. bread 1 3 demo_cache = Ok (0, s1) \<and> brelse 0 s1 = Ok s2 \<and> lru s2 (0 # rev [1..<NBUF])"
proof -
  note e = nolink_eqD [OF demo_cache(7), simplified zero_buf_def buf.simps]
  have n: "[0..<NBUF] = 0 # [1..<NBUF]" by (simp add: upt_conv_Cons)
  then have "remove1 0 (rev [0..<NBUF]) = rev [1..<NBUF]" by (simp add: remove1_append)
  moreover have "\<exists>s1 s2. bread 1 3 demo_cache = Ok (0, s1) \<and> lru s1 (rev [0..<NBUF]) \<and> brelse 0 s1 = Ok s2
      \<and> lru s2 (0 # remove1 0 (rev [0..<NBUF]))"
    by (rule bcache_lru [OF demo_cache(1,6)]) (use n in \<open>simp_all add: demo_cache e\<close>)
  ultimately show ?thesis by auto
qed

end
