(* ===== verification/Log.thy ===== *)
theory Log
  imports Bio
begin

text \<open>
  The write-ahead log (src/xv6/log.c) on top of the buffer cache, with
  \<open>readsb\<close> of src/xv6/fs.c, which \<open>initlog\<close> calls.  The log's state extends the
  cache's.  The history variable \<open>disk_writes\<close> of the cache records the order
  in which blocks reach the disk; the crash theorems quantify over its
  prefixes.
\<close>

section \<open>State\<close>

record superblock =
  sb_size :: nat
  sb_nblocks :: nat
  sb_ninodes :: nat
  sb_nlog :: nat
  sb_logstart :: nat
  sb_inodestart :: nat
  sb_bmapstart :: nat

text \<open>The in-memory log; \<open>lh_n\<close> and \<open>lh_block\<close> are the fields of \<open>log.lh\<close>.\<close>

record lstate = bstate +
  log_start :: nat
  log_size :: int
  log_outstanding :: int
  log_committing :: bool
  log_dev :: nat
  lh_n :: int
  lh_block :: "nat list"

section \<open>Operations\<close>

definition decode_sb :: "byte list \<Rightarrow> superblock" where
  "decode_sb d = \<lparr>sb_size = get_uint d 0, sb_nblocks = get_uint d 1, sb_ninodes = get_uint d 2,
     sb_nlog = get_uint d 3, sb_logstart = get_uint d 4, sb_inodestart = get_uint d 5, sb_bmapstart = get_uint d 6\<rparr>"

definition readsb :: "nat \<Rightarrow> 'a bstate_scheme \<Rightarrow> (superblock \<times> 'a bstate_scheme) res" where
  "readsb dev s =
     bindr (bread dev 1 s) (\<lambda>(bp, s).
       let sb = decode_sb (b_data (bufs s bp)) in
       bindr (brelse bp s) (\<lambda>s. Ok (sb, s)))"

text \<open>The body of the loop of \<open>install_trans\<close> for each \<open>tail\<close> of the list.\<close>

fun install_loop :: "nat list \<Rightarrow> 'a lstate_scheme \<Rightarrow> 'a lstate_scheme res" where
  "install_loop [] s = Ok s"
| "install_loop (tail # ts) s =
     bindr (bread (log_dev s) (log_start s + tail + 1) s) (\<lambda>(lbuf, s).
     bindr (assertr Fault (tail < length (lh_block s))) (\<lambda>_.
     bindr (bread (log_dev s) (lh_block s ! tail) s) (\<lambda>(dbuf, s).
     bindr (bwrite dbuf (set_bdata dbuf (b_data (bufs s lbuf)) s)) (\<lambda>s.
     bindr (brelse lbuf s) (\<lambda>s.
     bindr (brelse dbuf s) (\<lambda>s.
       install_loop ts s))))))"

definition install_trans :: "'a lstate_scheme \<Rightarrow> 'a lstate_scheme res" where
  "install_trans s = install_loop [0..<nat (lh_n s)] s"

fun read_blocks :: "nat list \<Rightarrow> byte list \<Rightarrow> nat list \<Rightarrow> nat list res" where
  "read_blocks [] d bl = Ok bl"
| "read_blocks (i # is) d bl = bindr (store_at bl i (get_uint d (i + 1))) (\<lambda>bl. read_blocks is d bl)"

definition read_head :: "'a lstate_scheme \<Rightarrow> 'a lstate_scheme res" where
  "read_head s =
     bindr (bread (log_dev s) (log_start s) s) (\<lambda>(buf, s).
       let d = b_data (bufs s buf); s = s\<lparr>lh_n := int_of_uint (get_uint d 0)\<rparr> in
       bindr (read_blocks [0..<nat (lh_n s)] d (lh_block s)) (\<lambda>bl.
         brelse buf (s\<lparr>lh_block := bl\<rparr>)))"

definition head_data :: "int \<Rightarrow> nat list \<Rightarrow> byte list \<Rightarrow> byte list" where
  "head_data n bl d = fold (\<lambda>i d. put_uint (i + 1) (bl ! i) d) [0..<nat n] (put_uint 0 (uint_of_int n) d)"

definition write_head :: "'a lstate_scheme \<Rightarrow> 'a lstate_scheme res" where
  "write_head s =
     bindr (bread (log_dev s) (log_start s) s) (\<lambda>(buf, s).
     bindr (bwrite buf (set_bdata buf (head_data (lh_n s) (lh_block s) (b_data (bufs s buf))) s)) (\<lambda>s.
       brelse buf s))"

definition recover_from_log :: "'a lstate_scheme \<Rightarrow> 'a lstate_scheme res" where
  "recover_from_log s =
     bindr (read_head s) (\<lambda>s.
     bindr (install_trans s) (\<lambda>s.
       write_head (s\<lparr>lh_n := 0\<rparr>)))"

text \<open>\<open>struct logheader\<close> has \<open>LOGSIZE + 1\<close> words, fewer than fit in a block.\<close>

definition initlog :: "nat \<Rightarrow> 'a lstate_scheme \<Rightarrow> 'a lstate_scheme res" where
  "initlog dev s =
     (if 4 * (LOGSIZE + 1) \<ge> BSIZE then Err (Panic ''initlog: too big logheader'')
      else bindr (readsb dev s) (\<lambda>(sb, s).
        recover_from_log (s\<lparr>log_start := sb_logstart sb, log_size := int_of_uint (sb_nlog sb), log_dev := dev\<rparr>)))"

definition begin_op :: "'a lstate_scheme \<Rightarrow> 'a lstate_scheme res" where
  "begin_op s =
     (if log_committing s then Err Asleep
      else if lh_n s + (log_outstanding s + 1) * int MAXOPBLOCKS > int LOGSIZE then Err Asleep
      else Ok (s\<lparr>log_outstanding := log_outstanding s + 1\<rparr>))"

fun write_log_loop :: "nat list \<Rightarrow> 'a lstate_scheme \<Rightarrow> 'a lstate_scheme res" where
  "write_log_loop [] s = Ok s"
| "write_log_loop (tail # ts) s =
     bindr (bread (log_dev s) (log_start s + tail + 1) s) (\<lambda>(to, s).
     bindr (assertr Fault (tail < length (lh_block s))) (\<lambda>_.
     bindr (bread (log_dev s) (lh_block s ! tail) s) (\<lambda>(from, s).
     bindr (bwrite to (set_bdata to (b_data (bufs s from)) s)) (\<lambda>s.
     bindr (brelse from s) (\<lambda>s.
     bindr (brelse to s) (\<lambda>s.
       write_log_loop ts s))))))"

definition write_log :: "'a lstate_scheme \<Rightarrow> 'a lstate_scheme res" where
  "write_log s = write_log_loop [0..<nat (lh_n s)] s"

definition commit :: "'a lstate_scheme \<Rightarrow> 'a lstate_scheme res" where
  "commit s =
     (if lh_n s > 0 then
        bindr (write_log s) (\<lambda>s.
        bindr (write_head s) (\<lambda>s.
        bindr (install_trans s) (\<lambda>s.
          write_head (s\<lparr>lh_n := 0\<rparr>))))
      else Ok s)"

definition end_op :: "'a lstate_scheme \<Rightarrow> 'a lstate_scheme res" where
  "end_op s =
     (let s = s\<lparr>log_outstanding := log_outstanding s - 1\<rparr> in
      if log_committing s then Err (Panic ''log.committing'')
      else if log_outstanding s = 0 then
        bindr (commit (s\<lparr>log_committing := True\<rparr>)) (\<lambda>s. Ok (s\<lparr>log_committing := False\<rparr>))
      else Ok s)"

text \<open>The index at which the scan of \<open>log_write\<close> stops: the block's own, or the first free one.\<close>

fun log_scan :: "nat \<Rightarrow> nat \<Rightarrow> nat list \<Rightarrow> nat \<Rightarrow> nat" where
  "log_scan 0 i bl bn = i"
| "log_scan (Suc k) i bl bn = (if bl ! i = bn then i else log_scan k (i + 1) bl bn)"

definition log_write :: "nat \<Rightarrow> 'a lstate_scheme \<Rightarrow> 'a lstate_scheme res" where
  "log_write b s =
     (if lh_n s \<ge> int LOGSIZE \<or> lh_n s \<ge> log_size s - 1 then Err (Panic ''too big a transaction'')
      else if log_outstanding s < 1 then Err (Panic ''log_write outside of trans'')
      else
        let i = log_scan (nat (lh_n s)) 0 (lh_block s) (b_blockno (bufs s b)) in
        bindr (store_at (lh_block s) i (b_blockno (bufs s b))) (\<lambda>bl.
          Ok (upd_buf b (b_dirty_update (\<lambda>_. True))
                (s\<lparr>lh_block := bl, lh_n := (if int i = lh_n s then lh_n s + 1 else lh_n s)\<rparr>))))"

section \<open>Sequences of disk writes\<close>

definition apply_writes :: "(nat \<times> 'v) list \<Rightarrow> (nat \<Rightarrow> 'v) \<Rightarrow> nat \<Rightarrow> 'v" where
  "apply_writes ws d = fold (\<lambda>(n, v) d. d(n := v)) ws d"

lemma apply_writes_Nil [simp]: "apply_writes [] d = d"
  by (simp add: apply_writes_def)

lemma apply_writes_Cons [simp]: "apply_writes ((n, v) # ws) d = apply_writes ws (d(n := v))"
  by (simp add: apply_writes_def)

lemma apply_writes_append [simp]: "apply_writes (ws @ ws') d = apply_writes ws' (apply_writes ws d)"
  by (simp add: apply_writes_def)

lemma apply_writes_other: "n \<notin> fst ` set ws \<Longrightarrow> apply_writes ws d n = d n"
  by (induction ws arbitrary: d) auto

lemma apply_writes_map:
  "distinct (map g ts) \<Longrightarrow> i \<in> set ts \<Longrightarrow> apply_writes (map (\<lambda>i. (g i, v i)) ts) d (g i) = v i"
proof (induction ts arbitrary: d)
  case (Cons j ts)
  show ?case
  proof (cases "i \<in> set ts")
    case True
    with Cons show ?thesis by simp
  next
    case False
    with Cons.prems have "i = j" "g i \<notin> fst ` set (map (\<lambda>i. (g i, v i)) ts)" by auto
    then show ?thesis by (simp add: apply_writes_other)
  qed
qed simp

text \<open>
  \<open>wrote s s' ws\<close>: the call wrote exactly \<open>ws\<close> to the disk, in this order, and
  the view changed accordingly; everything but the cache and the disk is as
  before.
\<close>

definition wrote :: "'a bstate_scheme \<Rightarrow> 'a bstate_scheme \<Rightarrow> (nat \<times> byte list) list \<Rightarrow> bool" where
  "wrote s s' ws \<longleftrightarrow> binv s' \<and> bsame s s' \<and> held s' = held s \<and> memdisk s' = apply_writes ws (memdisk s)
     \<and> disk_writes s' = disk_writes s @ ws \<and> bview s' = apply_writes ws (bview s)
     \<and> dirtyb s' = dirtyb s - fst ` set ws"

lemma wrote_refl: "binv s \<Longrightarrow> wrote s s []"
  by (simp add: wrote_def)

lemma wrote_trans: "wrote s t ws \<Longrightarrow> wrote t u ws' \<Longrightarrow> wrote s u (ws @ ws')"
  by (auto simp: wrote_def intro: bsame_trans)

lemma wroteD:
  assumes "wrote s s' ws"
  shows "binv s'" "bsame s s'" "held s' = held s" "memdisk s' = apply_writes ws (memdisk s)"
    "disk_writes s' = disk_writes s @ ws" "bview s' = apply_writes ws (bview s)" "dirtyb s' = dirtyb s - fst ` set ws"
  using assms by (simp_all add: wrote_def)

lemma bsame_log:
  fixes s s' :: "'a lstate_scheme"
  assumes "bsame s s'"
  shows "log_start s' = log_start s" "log_size s' = log_size s" "log_outstanding s' = log_outstanding s"
    "log_committing s' = log_committing s" "log_dev s' = log_dev s" "lh_n s' = lh_n s" "lh_block s' = lh_block s"
    "disksize s' = disksize s" "curpid s' = curpid s" "lstate.more s' = lstate.more s"
  using assms by (cases s; cases s'; simp add: bsame_def)+

lemma bquiet_bsame: "bquiet s s' \<Longrightarrow> bsame s s'"
  by (simp add: bquiet_def)

text \<open>The tail of the two copying loops: \<open>dst\<close> gets the contents of \<open>src\<close> and goes to the disk.\<close>

lemma copy_block:
  assumes inv: "binv s" and at: "bat s lb src" "bat s db dst" and ne: "src \<noteq> dst"
    and clean: "src \<in> dirtyb s \<or> bview s src = memdisk s src"
  shows "\<exists>s1 s2 s3. bwrite db (set_bdata db (b_data (bufs s lb)) s) = Ok s1 \<and> brelse lb s1 = Ok s2 \<and> brelse db s2 = Ok s3
    \<and> binv s3 \<and> bsame s s3 \<and> held s3 = held s - {src, dst} \<and> memdisk s3 = (memdisk s)(dst := bview s src)
    \<and> disk_writes s3 = disk_writes s @ [(dst, bview s src)] \<and> bview s3 = (bview s)(dst := bview s src)
    \<and> dirtyb s3 = dirtyb s - {dst}"
proof -
  have d: "b_data (bufs s lb) = bview s src" by (rule bview_bat [OF inv at(1), symmetric])
  have "length (bview s src) = BSIZE" using inv bat_lt [OF inv at(1)] by simp
  note m = set_bdata_ok [OF inv at(2) this]
  let ?s0 = "set_bdata db (bview s src) s"
  have same0: "bsame s ?s0" "memdisk ?s0 = memdisk s" "disk_writes ?s0 = disk_writes s"
    by (simp_all add: set_bdata_def upd_buf_def)
  have at0: "bat ?s0 lb src" "bat ?s0 db dst" using at by (simp_all add: m(5))
  obtain s1 where w: "bwrite db ?s0 = Ok s1" "binv s1" "bsame ?s0 s1" "memdisk s1 = (memdisk ?s0)(dst := bview ?s0 dst)"
    "disk_writes s1 = disk_writes ?s0 @ [(dst, bview ?s0 dst)]" "bview s1 = bview ?s0"
    "held s1 = held ?s0" "dirtyb s1 = dirtyb ?s0 - {dst}" "\<forall>c m. bat s1 c m = bat ?s0 c m"
    using bwrite_ok [OF m(1) at0(2)] by blast
  have w': "memdisk s1 = (memdisk s)(dst := bview s src)" "disk_writes s1 = disk_writes s @ [(dst, bview s src)]"
    "bview s1 = (bview s)(dst := bview s src)" "held s1 = held s" "dirtyb s1 = dirtyb s - {dst}"
    using w(4-8) by (simp_all add: m(2-4) same0)
  have at1: "bat s1 lb src" "bat s1 db dst" using w(9) at0 by simp_all
  have "src \<in> dirtyb s1 \<or> bview s1 src = memdisk s1 src" using w' ne clean by auto
  from bc.rl_ok [OF w(2) at1(1) this] obtain s2 where l: "brelse lb s1 = Ok s2" "binv s2" "bquiet s1 s2"
    "held s2 = held s1 - {src}" "\<forall>c m. bat s2 c m \<longleftrightarrow> bat s1 c m \<and> c \<noteq> lb" by blast
  have "db \<noteq> lb" using at ne by (auto simp: bat_def)
  then have at2: "bat s2 db dst" using l(5) at1 by blast
  have "bview s2 dst = memdisk s2 dst" using bquietD [OF l(3)] w' by simp
  from bc.rl_ok [OF l(2) at2 disjI2, OF this] obtain s3 where r: "brelse db s2 = Ok s3" "binv s3" "bquiet s2 s3"
    "held s3 = held s2 - {dst}" by blast
  have "bsame s s3"
    by (rule bsame_trans [OF bsame_trans [OF same0(1) w(3)]
          bsame_trans [OF bquiet_bsame [OF l(3)] bquiet_bsame [OF r(3)]]])
  moreover have "held s3 = held s - {src, dst}" using r(4) l(4) w'(4) by auto
  ultimately show ?thesis
    using w(1) l(1) r(1,2) w' bquietD [OF l(3)] bquietD [OF r(3)] unfolding d
    by (intro exI [of _ s1] exI [of _ s2] exI [of _ s3]) simp
qed

lemma bread_two:
  assumes inv: "binv s" and x: "x < disksize s" "x \<notin> held s" and y: "y < disksize s" "y \<notin> held s" and ne: "x \<noteq> y"
    and room: "card (insert y (held s \<union> dirtyb s)) + 1 \<le> NBUF"
  shows "\<exists>bx s1 by s2. bread 1 x s = Ok (bx, s1) \<and> bsame s s1 \<and> bread 1 y s1 = Ok (by, s2) \<and> binv s2 \<and> bquiet s s2
    \<and> bat s2 bx x \<and> bat s2 by y \<and> held s2 = insert y (insert x (held s))"
proof -
  have "card (held s \<union> dirtyb s) \<le> card (insert y (held s \<union> dirtyb s))" by (rule card_mono) auto
  then have "card (insert x (held s \<union> dirtyb s)) \<le> NBUF" using room by (auto simp: card_insert_if)
  from bc.rd_ok [OF inv x this] obtain bx s1 where r: "bread 1 x s = Ok (bx, s1)" "binv s1" "bquiet s s1" "bat s1 bx x"
    "held s1 = insert x (held s)" by blast
  have "insert y (held s1 \<union> dirtyb s1) = insert x (insert y (held s \<union> dirtyb s))"
    using bquietD(6) [OF r(3)] r(5) by auto
  then have "card (insert y (held s1 \<union> dirtyb s1)) \<le> NBUF" using room by (simp add: card_insert_if)
  moreover have "y < disksize s1" "y \<notin> held s1"
    using bquietD [OF r(3)] r(5) y ne by simp_all
  ultimately have "card (insert y (held s1 \<union> dirtyb s1)) \<le> NBUF" "y < disksize s1" "y \<notin> held s1" by blast+
  from bc.rd_ok [OF r(2) this(2,3,1)] obtain b2 s2 where q: "bread 1 y s1 = Ok (b2, s2)" "binv s2" "bquiet s1 s2" "bat s2 b2 y"
    "held s2 = insert y (held s1)" "\<forall>c m. bat s1 c m \<longrightarrow> bat s2 c m" by blast
  have "bat s2 bx x" using q(6) r(4) by blast
  then show ?thesis
    using r q bquiet_trans [OF r(3) q(3)] bquiet_bsame [OF r(3)] by auto
qed

text \<open>What one iteration of either loop needs: the blocks exist and two buffers can be taken.\<close>

definition log_ready :: "'a lstate_scheme \<Rightarrow> nat \<Rightarrow> bool" where
  "log_ready s i \<longleftrightarrow> binv s \<and> held s = {} \<and> card (insert (lh_block s ! i) (dirtyb s)) + 1 \<le> NBUF \<and> log_dev s = 1 \<and> i < length (lh_block s)
     \<and> log_start s + i + 1 < disksize s \<and> lh_block s ! i < disksize s \<and> lh_block s ! i \<noteq> log_start s + i + 1"

lemma log_ready_wrote: "log_ready s i \<Longrightarrow> wrote s s' ws \<Longrightarrow> log_ready s' i"
proof -
  assume r: "log_ready s i" and w: "wrote s s' ws"
  note d = wroteD [OF w] and l = bsame_log [OF wroteD(2) [OF w]]
  have "card (insert n (dirtyb s')) \<le> card (insert n (dirtyb s))" for n
    unfolding d(7) by (rule card_mono) auto
  from this [of "lh_block s ! i"]
  show ?thesis using r d(1,3) by (simp add: log_ready_def l)
qed

lemma copied_wrote:
  assumes "bquiet s s2" "binv s3" "bsame s2 s3" "held s3 = held s2 - {x, y}" "held s2 = insert y (insert x (held s))"
    and "x \<notin> held s" "y \<notin> held s" "memdisk s3 = (memdisk s2)(n := v)" "disk_writes s3 = disk_writes s2 @ [(n, v)]"
    and "bview s3 = (bview s2)(n := v)" "dirtyb s3 = dirtyb s2 - {n}"
  shows "wrote s s3 [(n, v)]"
  using assms bquietD [OF assms(1)] bsame_trans [OF bquiet_bsame [OF assms(1)] assms(3)] by (auto simp: wrote_def)

lemma install_step:
  assumes "log_ready s i"
  shows "\<exists>s'. install_loop (i # ts) s = install_loop ts s' \<and> wrote s s' [(lh_block s ! i, bview s (log_start s + i + 1))]"
proof -
  let ?x = "log_start s + i + 1" and ?y = "lh_block s ! i"
  have c: "binv s" "held s = {}" "card (insert ?y (held s \<union> dirtyb s)) + 1 \<le> NBUF" "log_dev s = 1" "i < length (lh_block s)"
    "?x < disksize s" "?y < disksize s" "?x \<noteq> ?y"
    using assms by (auto simp: log_ready_def)
  obtain bx s1 b2 s2 where r: "bread 1 ?x s = Ok (bx, s1)" "bsame s s1" "bread 1 ?y s1 = Ok (b2, s2)" "binv s2" "bquiet s s2"
    "bat s2 bx ?x" "bat s2 b2 ?y" "held s2 = insert ?y (insert ?x (held s))"
    using bread_two [OF c(1,6) _ c(7) _ c(8) c(3)] c(2) by auto
  have "?x \<in> dirtyb s2 \<or> bview s2 ?x = memdisk s2 ?x"
    using bc.clean [OF c(1), of ?x] c(2) bquietD [OF r(5)] by simp
  from copy_block [OF r(4,6,7) c(8) this] obtain s3 s4 s5 where
    k: "bwrite b2 (set_bdata b2 (b_data (bufs s2 bx)) s2) = Ok s3" "brelse bx s3 = Ok s4" "brelse b2 s4 = Ok s5" and
    w: "binv s5" "bsame s2 s5" "held s5 = held s2 - {?x, ?y}" "memdisk s5 = (memdisk s2)(?y := bview s2 ?x)"
    "disk_writes s5 = disk_writes s2 @ [(?y, bview s2 ?x)]" "bview s5 = (bview s2)(?y := bview s2 ?x)"
    "dirtyb s5 = dirtyb s2 - {?y}" by blast
  have "wrote s s5 [(?y, bview s2 ?x)]"
    by (rule copied_wrote [OF r(5) w(1-3) r(8)]) (use c(2) w(4-) in simp_all)
  moreover have "install_loop (i # ts) s = install_loop ts s5"
    using r k c(4,5) bsame_log [OF r(2)] by simp
  ultimately show ?thesis using bquietD(5) [OF r(5)] by auto
qed

lemma write_log_step:
  assumes "log_ready s i"
  shows "\<exists>s'. write_log_loop (i # ts) s = write_log_loop ts s' \<and> wrote s s' [(log_start s + i + 1, bview s (lh_block s ! i))]"
proof -
  let ?x = "log_start s + i + 1" and ?y = "lh_block s ! i"
  have c: "binv s" "held s = {}" "card (insert ?y (held s \<union> dirtyb s)) + 1 \<le> NBUF" "log_dev s = 1" "i < length (lh_block s)"
    "?x < disksize s" "?y < disksize s" "?x \<noteq> ?y" "?y \<noteq> ?x"
    using assms by (auto simp: log_ready_def)
  obtain bx s1 b2 s2 where r: "bread 1 ?x s = Ok (bx, s1)" "bsame s s1" "bread 1 ?y s1 = Ok (b2, s2)" "binv s2" "bquiet s s2"
    "bat s2 bx ?x" "bat s2 b2 ?y" "held s2 = insert ?y (insert ?x (held s))"
    using bread_two [OF c(1,6) _ c(7) _ c(8) c(3)] c(2) by auto
  have "?y \<in> dirtyb s2 \<or> bview s2 ?y = memdisk s2 ?y"
    using bc.clean [OF c(1), of ?y] c(2) bquietD [OF r(5)] by simp
  from copy_block [OF r(4,7,6) c(9) this] obtain s3 s4 s5 where
    k: "bwrite bx (set_bdata bx (b_data (bufs s2 b2)) s2) = Ok s3" "brelse b2 s3 = Ok s4" "brelse bx s4 = Ok s5" and
    w: "binv s5" "bsame s2 s5" "held s5 = held s2 - {?y, ?x}" "memdisk s5 = (memdisk s2)(?x := bview s2 ?y)"
    "disk_writes s5 = disk_writes s2 @ [(?x, bview s2 ?y)]" "bview s5 = (bview s2)(?x := bview s2 ?y)"
    "dirtyb s5 = dirtyb s2 - {?x}" by blast
  have "held s2 = insert ?x (insert ?y (held s))" using r(8) by blast
  then have "wrote s s5 [(?x, bview s2 ?y)]"
    by (rule copied_wrote [OF r(5) w(1-3)]) (use c(2) w(4-) in simp_all)
  moreover have "write_log_loop (i # ts) s = write_log_loop ts s5"
    using r k c(4,5) bsame_log [OF r(2)] by simp
  ultimately show ?thesis using bquietD(5) [OF r(5)] by auto
qed

section \<open>The loops and the header\<close>

lemma copy_loop:
  fixes loop :: "nat list \<Rightarrow> 'a lstate_scheme \<Rightarrow> 'a lstate_scheme res"
  assumes nil: "\<And>s. loop [] s = Ok s"
    and step: "\<And>s i ts. log_ready s i \<Longrightarrow> log_start s = st \<Longrightarrow> lh_block s = bl \<Longrightarrow>
      \<exists>s'. loop (i # ts) s = loop ts s' \<and> wrote s s' [(dst i, bview s (src i))]"
    and s: "binv s" "log_start s = st" "lh_block s = bl"
    and ready: "\<And>i. i \<in> set ts \<Longrightarrow> log_ready s i"
    and apart: "\<And>i j. i \<in> set ts \<Longrightarrow> j \<in> set ts \<Longrightarrow> src i \<noteq> dst j"
  shows "\<exists>s'. loop ts s = Ok s' \<and> wrote s s' (map (\<lambda>i. (dst i, bview s (src i))) ts)"
  using s ready apart
proof (induction ts arbitrary: s)
  case Nil
  then show ?case by (simp add: nil wrote_refl)
next
  case (Cons i ts)
  obtain s1 where w: "loop (i # ts) s = loop ts s1" "wrote s s1 [(dst i, bview s (src i))]"
    using step [of s i ts] Cons.prems by auto
  note l = bsame_log [OF wroteD(2) [OF w(2)]]
  have "\<exists>s'. loop ts s1 = Ok s' \<and> wrote s1 s' (map (\<lambda>i. (dst i, bview s1 (src i))) ts)"
    by (rule Cons.IH) (use Cons.prems w(2) l wroteD(1) [OF w(2)] in \<open>auto intro: log_ready_wrote\<close>)
  then obtain s2 where r: "loop ts s1 = Ok s2" "wrote s1 s2 (map (\<lambda>i. (dst i, bview s1 (src i))) ts)" by blast
  have "bview s1 (src j) = bview s (src j)" if "j \<in> set ts" for j
    using Cons.prems(5) [of j i] that wroteD(6) [OF w(2)] by simp
  then have "map (\<lambda>i. (dst i, bview s1 (src i))) ts = map (\<lambda>i. (dst i, bview s (src i))) ts" by simp
  with r w wrote_trans [OF w(2)] show ?case by auto
qed

text \<open>The block numbers the in-memory header holds.\<close>

definition logged :: "'a lstate_scheme \<Rightarrow> nat list" where
  "logged s = take (nat (lh_n s)) (lh_block s)"

text \<open>
  The log fits on the disk, and none of the logged blocks lies in the log
  area, which is the header block and the \<open>log_size - 1\<close> blocks behind it.
\<close>

definition log_area :: "'a lstate_scheme \<Rightarrow> nat set" where
  "log_area s = {log_start s ..< log_start s + nat (log_size s)}"

definition log_layout :: "'a lstate_scheme \<Rightarrow> bool" where
  "log_layout s \<longleftrightarrow> log_dev s = 1 \<and> log_start s + nat (log_size s) \<le> disksize s \<and> length (lh_block s) = LOGSIZE
     \<and> 0 \<le> lh_n s \<and> lh_n s \<le> int LOGSIZE \<and> lh_n s < log_size s \<and> (\<forall>n \<in> set (logged s). n < disksize s \<and> n \<notin> log_area s)"

lemma log_layout_ready:
  assumes "log_layout s" "binv s" "held s = {}" "\<And>n. n \<in> set (logged s) \<Longrightarrow> card (insert n (dirtyb s)) + 1 \<le> NBUF" "i < nat (lh_n s)"
  shows "log_ready s i"
proof -
  have "lh_block s ! i \<in> set (logged s)"
    using assms(1,5) by (auto simp: log_layout_def logged_def in_set_conv_nth intro!: exI [of _ i])
  with assms show ?thesis by (auto simp: log_ready_def log_layout_def log_area_def)
qed

lemma log_src_dst:
  assumes "log_layout s" "i < nat (lh_n s)" "j < nat (lh_n s)"
  shows "lh_block s ! j \<noteq> log_start s + i + 1"
proof -
  have "lh_block s ! j \<in> set (logged s)"
    using assms(1,3) by (auto simp: log_layout_def logged_def in_set_conv_nth intro!: exI [of _ j])
  with assms show ?thesis by (auto simp: log_layout_def log_area_def)
qed

lemma install_trans_ok:
  assumes "log_layout s" "binv s" "held s = {}" "\<And>n. n \<in> set (logged s) \<Longrightarrow> card (insert n (dirtyb s)) + 1 \<le> NBUF"
  shows "\<exists>s'. install_trans s = Ok s' \<and>
    wrote s s' (map (\<lambda>i. (lh_block s ! i, bview s (log_start s + i + 1))) [0..<nat (lh_n s)])"
  unfolding install_trans_def
proof (rule copy_loop [where st = "log_start s" and bl = "lh_block s"])
  fix t :: "'a lstate_scheme" and i ts
  assume "log_ready t i" "log_start t = log_start s" "lh_block t = lh_block s"
  then show "\<exists>s'. install_loop (i # ts) t = install_loop ts s' \<and> wrote t s' [(lh_block s ! i, bview t (log_start s + i + 1))]"
    using install_step [of t i ts] by simp
next
  show "log_start s + i + 1 \<noteq> lh_block s ! j" if "i \<in> set [0..<nat (lh_n s)]" "j \<in> set [0..<nat (lh_n s)]" for i j
    using that log_src_dst [OF assms(1), of i j] by auto
qed (simp_all add: assms(2) log_layout_ready [OF assms])

lemma write_log_ok:
  assumes "log_layout s" "binv s" "held s = {}" "\<And>n. n \<in> set (logged s) \<Longrightarrow> card (insert n (dirtyb s)) + 1 \<le> NBUF"
  shows "\<exists>s'. write_log s = Ok s' \<and>
    wrote s s' (map (\<lambda>i. (log_start s + i + 1, bview s (lh_block s ! i))) [0..<nat (lh_n s)])"
  unfolding write_log_def
proof (rule copy_loop [where st = "log_start s" and bl = "lh_block s"])
  fix t :: "'a lstate_scheme" and i ts
  assume "log_ready t i" "log_start t = log_start s" "lh_block t = lh_block s"
  then show "\<exists>s'. write_log_loop (i # ts) t = write_log_loop ts s' \<and> wrote t s' [(log_start s + i + 1, bview t (lh_block s ! i))]"
    using write_log_step [of t i ts] by simp
next
  show "lh_block s ! i \<noteq> log_start s + j + 1" if "i \<in> set [0..<nat (lh_n s)]" "j \<in> set [0..<nat (lh_n s)]" for i j
    using that log_src_dst [OF assms(1), of j i] by auto
qed (simp_all add: assms(2) log_layout_ready [OF assms])

lemma fold_put_uint:
  assumes "4 * (k + 1) \<le> length d"
  shows "length (fold (\<lambda>i d. put_uint (i + 1) (f i) d) [0..<k] d) = length d"
    and "4 * j + 4 \<le> length d \<Longrightarrow> get_uint (fold (\<lambda>i d. put_uint (i + 1) (f i) d) [0..<k] d) j =
      (if 0 < j \<and> j \<le> k then f (j - 1) mod 2 ^ 32 else get_uint d j)"
  using assms by (induction k) (auto simp: get_put_uint)

lemma head_data:
  assumes "length d = BSIZE" "n \<le> LOGSIZE"
  shows "length (head_data (int n) bl d) = BSIZE" "get_uint (head_data (int n) bl d) 0 = n"
    "i < n \<Longrightarrow> get_uint (head_data (int n) bl d) (i + 1) = bl ! i mod 2 ^ 32"
proof -
  have l: "4 * (n + 1) \<le> length (put_uint 0 (uint_of_int (int n)) d)" "n < 2 ^ 32"
    using assms by (simp_all add: layout_simps)
  note f = fold_put_uint [OF l(1), where f = "\<lambda>i. bl ! i"]
  show "length (head_data (int n) bl d) = BSIZE" using f(1) assms(1) by (simp add: head_data_def layout_simps)
  show "get_uint (head_data (int n) bl d) 0 = n"
    using f(2) [of 0] assms(1) l by (simp add: head_data_def get_put_uint uint_of_int_small layout_simps)
  show "get_uint (head_data (int n) bl d) (i + 1) = bl ! i mod 2 ^ 32" if "i < n"
    using f(2) [of "i + 1"] assms that by (simp add: head_data_def layout_simps)
qed

lemma write_head_ok:
  assumes "binv s" "held s = {}" "card (dirtyb s) + 1 \<le> NBUF" "log_dev s = 1" "log_start s < disksize s"
    and "0 \<le> lh_n s" "lh_n s \<le> int LOGSIZE"
  shows "\<exists>s'. write_head s = Ok s' \<and>
    wrote s s' [(log_start s, head_data (lh_n s) (lh_block s) (bview s (log_start s)))]"
proof -
  let ?n = "log_start s"
  let ?h = "head_data (lh_n s) (lh_block s) (bview s ?n)"
  have "card (insert ?n (held s \<union> dirtyb s)) \<le> NBUF" using assms(2,3) by (simp add: card_insert_if)
  then obtain b s1 where r: "bread 1 ?n s = Ok (b, s1)" "binv s1" "bquiet s s1" "bat s1 b ?n" "held s1 = insert ?n (held s)"
    using bc.rd_ok [OF assms(1,5)] assms(2) by auto
  have v: "b_data (bufs s1 b) = bview s ?n" using bview_bat [OF r(2,4)] bquietD(5) [OF r(3)] by simp
  have "length ?h = BSIZE"
    using head_data(1) [of "bview s ?n" "nat (lh_n s)"] assms by simp
  note m = set_bdata_ok [OF r(2,4) this]
  let ?s2 = "set_bdata b ?h s1"
  have at: "bat ?s2 b ?n" using r(4) by (simp add: m(5))
  have same: "bsame s1 ?s2" "memdisk ?s2 = memdisk s1" "disk_writes ?s2 = disk_writes s1"
    by (simp_all add: set_bdata_def upd_buf_def)
  obtain s3 where w: "bwrite b ?s2 = Ok s3" "binv s3" "bsame ?s2 s3" "memdisk s3 = (memdisk ?s2)(?n := bview ?s2 ?n)"
    "disk_writes s3 = disk_writes ?s2 @ [(?n, bview ?s2 ?n)]" "bview s3 = bview ?s2"
    "held s3 = held ?s2" "dirtyb s3 = dirtyb ?s2 - {?n}" "\<forall>c m. bat s3 c m = bat ?s2 c m"
    using bwrite_ok [OF m(1) at] by blast
  have "bat s3 b ?n" using w(9) at by simp
  moreover have "bview s3 ?n = memdisk s3 ?n" using w(4,6) by simp
  ultimately obtain s4 where l: "brelse b s3 = Ok s4" "binv s4" "bquiet s3 s4" "held s4 = held s3 - {?n}"
    using bc.rl_ok [OF w(2)] by blast
  have "write_head s = Ok s4"
    using r(1) w(1) l(1) v assms(4) bsame_log [OF bquiet_bsame [OF r(3)]] by (simp add: write_head_def)
  moreover have "bsame s s4"
    by (rule bsame_trans [OF bsame_trans [OF bquiet_bsame [OF r(3)] same(1)] bsame_trans [OF w(3) bquiet_bsame [OF l(3)]]])
  moreover have "held s4 = held s" using l(4) w(7) m(3) r(5) assms(2) by simp
  ultimately show ?thesis
    using l(2) w m bquietD [OF r(3)] bquietD [OF l(3)] same by (auto simp: wrote_def)
qed

section \<open>Commit and recovery\<close>

lemma bst_cong:
  assumes "bufs s' = bufs s" "memdisk s' = memdisk s" "disksize s' = disksize s" "curpid s' = curpid s"
  shows "binv s' = binv s" "bview s' = bview s" "held s' = held s" "dirtyb s' = dirtyb s" "bat s' b n = bat s b n"
  using assms by (simp_all add: binv_def lru_def bview_def [abs_def] held_def dirtyb_def bat_def cong: option.case_cong)

lemma binv_log_upd [simp]:
  "binv (s\<lparr>lh_n := n\<rparr>) = binv s" "binv (s\<lparr>lh_block := bl\<rparr>) = binv s" "binv (s\<lparr>log_start := st\<rparr>) = binv s"
  "binv (s\<lparr>log_size := z\<rparr>) = binv s" "binv (s\<lparr>log_dev := v\<rparr>) = binv s"
  "binv (s\<lparr>log_outstanding := z\<rparr>) = binv s" "binv (s\<lparr>log_committing := c\<rparr>) = binv s"
  by (rule bst_cong(1); simp)+

lemma bview_log_upd [simp]:
  "bview (s\<lparr>lh_n := n\<rparr>) = bview s" "bview (s\<lparr>lh_block := bl\<rparr>) = bview s" "bview (s\<lparr>log_start := st\<rparr>) = bview s"
  "bview (s\<lparr>log_size := z\<rparr>) = bview s" "bview (s\<lparr>log_dev := v\<rparr>) = bview s"
  "bview (s\<lparr>log_outstanding := z\<rparr>) = bview s" "bview (s\<lparr>log_committing := c\<rparr>) = bview s"
  by (rule bst_cong(2); simp)+

lemma held_log_upd [simp]:
  "held (s\<lparr>lh_n := n\<rparr>) = held s" "held (s\<lparr>lh_block := bl\<rparr>) = held s" "held (s\<lparr>log_start := st\<rparr>) = held s"
  "held (s\<lparr>log_size := z\<rparr>) = held s" "held (s\<lparr>log_dev := v\<rparr>) = held s"
  "held (s\<lparr>log_outstanding := z\<rparr>) = held s" "held (s\<lparr>log_committing := c\<rparr>) = held s"
  by (rule bst_cong(3); simp)+

lemma dirtyb_log_upd [simp]:
  "dirtyb (s\<lparr>lh_n := n\<rparr>) = dirtyb s" "dirtyb (s\<lparr>lh_block := bl\<rparr>) = dirtyb s" "dirtyb (s\<lparr>log_start := st\<rparr>) = dirtyb s"
  "dirtyb (s\<lparr>log_size := z\<rparr>) = dirtyb s" "dirtyb (s\<lparr>log_dev := v\<rparr>) = dirtyb s"
  "dirtyb (s\<lparr>log_outstanding := z\<rparr>) = dirtyb s" "dirtyb (s\<lparr>log_committing := c\<rparr>) = dirtyb s"
  by (rule bst_cong(4); simp)+

lemma bat_log_upd [simp]:
  "bat (s\<lparr>lh_n := n\<rparr>) b m = bat s b m" "bat (s\<lparr>lh_block := bl\<rparr>) b m = bat s b m" "bat (s\<lparr>log_start := st\<rparr>) b m = bat s b m"
  "bat (s\<lparr>log_outstanding := z\<rparr>) b m = bat s b m" "bat (s\<lparr>log_committing := c\<rparr>) b m = bat s b m"
  by (rule bst_cong(5); simp)+

lemma bsame_lh_n: "bsame s s' \<Longrightarrow> bsame (s\<lparr>lh_n := n\<rparr>) (s'\<lparr>lh_n := n\<rparr>)"
  by (cases s; cases s'; simp add: bsame_def)

lemma wrote_lh_n: "wrote s s' ws \<Longrightarrow> wrote (s\<lparr>lh_n := n\<rparr>) (s'\<lparr>lh_n := n\<rparr>) ws"
  by (simp add: wrote_def bsame_lh_n)

text \<open>The disk writes of a commit, in order.\<close>

definition commit_writes :: "'a lstate_scheme \<Rightarrow> (nat \<times> byte list) list" where
  "commit_writes s =
     (let bl = lh_block s; n = nat (lh_n s); h = head_data (lh_n s) bl (bview s (log_start s)) in
      map (\<lambda>i. (log_start s + i + 1, bview s (bl ! i))) [0..<n] @ [(log_start s, h)] @
      map (\<lambda>i. (bl ! i, bview s (bl ! i))) [0..<n] @ [(log_start s, head_data 0 bl h)])"

text \<open>
  A transaction that can commit: the log area and the logged blocks are in
  place, nothing is held, and what is dirty in the cache is what is logged.
\<close>

definition log_inv :: "'a lstate_scheme \<Rightarrow> bool" where
  "log_inv s \<longleftrightarrow> log_layout s \<and> binv s \<and> distinct (logged s) \<and> dirtyb s = set (logged s)
     \<and> get_uint (memdisk s (log_start s)) 0 = 0"

lemma length_logged: "log_layout s \<Longrightarrow> length (logged s) = nat (lh_n s)"
  by (auto simp: log_layout_def logged_def)

lemma logged_nth: "log_layout s \<Longrightarrow> i < nat (lh_n s) \<Longrightarrow> lh_block s ! i = logged s ! i"
  by (simp add: logged_def)

lemma logged_mem: "log_layout s \<Longrightarrow> i < nat (lh_n s) \<Longrightarrow> lh_block s ! i \<in> set (logged s)"
  by (simp add: logged_nth length_logged)

lemma log_start_area: "log_layout s \<Longrightarrow> log_start s \<in> log_area s"
  by (simp add: log_area_def log_layout_def)

lemma log_layout_start: "log_layout s \<Longrightarrow> log_start s < disksize s"
  unfolding log_layout_def by linarith

lemma log_block_area: "log_layout s \<Longrightarrow> i < nat (lh_n s) \<Longrightarrow> Suc (log_start s + i) \<in> log_area s"
  by (auto simp: log_area_def log_layout_def)

lemma commit_ok:
  assumes inv: "log_inv s" and free: "held s = {}" "nat (lh_n s) + 1 \<le> NBUF" and pos: "lh_n s > 0"
  shows "\<exists>s'. commit s = Ok s' \<and> wrote (s\<lparr>lh_n := 0\<rparr>) s' (commit_writes s)"
proof -
  have lay: "log_layout s" and bi: "binv s" using inv by (auto simp: log_inv_def)
  have card: "card (dirtyb s) + 1 \<le> NBUF"
    using inv free(2) by (simp add: log_inv_def distinct_card length_logged)
  have cards: "card (insert n (dirtyb s)) + 1 \<le> NBUF" if "n \<in> set (logged s)" for n
    using card inv that by (simp add: log_inv_def insert_absorb)
  let ?n = "nat (lh_n s)" and ?st = "log_start s" and ?bl = "lh_block s"
  let ?w1 = "map (\<lambda>i. (?st + i + 1, bview s (?bl ! i))) [0..<?n]"
  obtain s1 where w: "write_log s = Ok s1" "wrote s s1 ?w1" using write_log_ok [OF lay bi free(1) cards] by blast
  note d1 = wroteD [OF w(2)] and l1 = bsame_log [OF wroteD(2) [OF w(2)]]
  have c1: "card (dirtyb s1) + 1 \<le> NBUF"
    using card card_mono [OF finite_busy(2) [of s], of "dirtyb s1"] d1(7) by auto
  have "?st \<notin> fst ` set ?w1" by auto
  then have v1: "bview s1 ?st = bview s ?st" using apply_writes_other [of ?st ?w1] d1(6) by simp
  let ?h = "head_data (lh_n s) ?bl (bview s ?st)"
  obtain s2 where h: "write_head s1 = Ok s2" "wrote s1 s2 [(?st, ?h)]"
    using write_head_ok [of s1] d1(1,3) c1 free(1) lay log_layout_start [OF lay] by (auto simp: l1 v1 log_layout_def)
  note d2 = wroteD [OF wrote_trans [OF w(2) h(2)]] and l2 = bsame_log [OF wroteD(2) [OF wrote_trans [OF w(2) h(2)]]]
  have c2: "card (insert n (dirtyb s2)) + 1 \<le> NBUF" if "n \<in> set (logged s2)" for n
  proof -
    have "card (insert n (dirtyb s2)) \<le> card (insert n (dirtyb s))" by (rule card_mono) (auto simp: d2(7))
    moreover have "n \<in> set (logged s)" using that by (simp add: logged_def l2)
    ultimately show ?thesis using cards [of n] by simp
  qed
  have lay2: "log_layout s2" using lay by (simp add: log_layout_def logged_def log_area_def l2)
  have src: "bview s2 (?st + i + 1) = bview s (?bl ! i)" if "i < ?n" for i
  proof -
    have "distinct (map (\<lambda>i. ?st + i + 1) [0..<?n])" by (simp add: distinct_map inj_on_def)
    from apply_writes_map [OF this, of i "\<lambda>i. bview s (?bl ! i)" "bview s"] that
    show ?thesis unfolding d2(6) by simp
  qed
  let ?w2 = "map (\<lambda>i. (?bl ! i, bview s (?bl ! i))) [0..<?n]"
  have e2: "map (\<lambda>i. (?bl ! i, bview s2 (?st + i + 1))) [0..<?n] = ?w2" using src by simp
  have "held s2 = {}" using d2(3) free(1) by simp
  from install_trans_ok [OF lay2 d2(1) this c2] obtain s3 where i: "install_trans s2 = Ok s3" "wrote s2 s3 ?w2"
    unfolding l2 e2 by blast
  note w3 = wrote_trans [OF wrote_trans [OF w(2) h(2)] i(2)]
  note d3 = wroteD [OF w3] and l3 = bsame_log [OF wroteD(2) [OF w3]]
  have c3: "card (dirtyb s3) + 1 \<le> NBUF"
    using card card_mono [OF finite_busy(2) [of s], of "dirtyb s3"] d3(7) by auto
  have "?bl ! i \<noteq> ?st" if "i < ?n" for i
    using logged_mem [OF lay that] lay log_start_area [OF lay] unfolding log_layout_def by metis
  then have "?st \<notin> (\<lambda>i. ?bl ! i) ` {0..<?n}" by (metis atLeastLessThan_iff imageE)
  then have "?st \<notin> fst ` set ?w2" by (simp add: image_image)
  then have v3: "bview s3 ?st = ?h" using apply_writes_other [of ?st ?w2] unfolding d3(6) by simp
  have "\<exists>s4. write_head (s3\<lparr>lh_n := 0\<rparr>) = Ok s4 \<and> wrote (s3\<lparr>lh_n := 0\<rparr>) s4 [(?st, head_data 0 ?bl ?h)]"
    using write_head_ok [of "s3\<lparr>lh_n := 0\<rparr>"] d3(1,3) c3 free(1) lay log_layout_start [OF lay] by (auto simp: l3 v3 log_layout_def)
  then obtain s4 where e: "write_head (s3\<lparr>lh_n := 0\<rparr>) = Ok s4" "wrote (s3\<lparr>lh_n := 0\<rparr>) s4 [(?st, head_data 0 ?bl ?h)]" by blast
  have "wrote (s\<lparr>lh_n := 0\<rparr>) (s3\<lparr>lh_n := 0\<rparr>) ((?w1 @ [(?st, ?h)]) @ ?w2)"
    by (rule wrote_lh_n [OF w3])
  from wrote_trans [OF this e(2)] have "wrote (s\<lparr>lh_n := 0\<rparr>) s4 (commit_writes s)"
    by (simp add: commit_writes_def Let_def)
  moreover have "commit s = Ok s4" using pos w h i e by (simp add: commit_def)
  ultimately show ?thesis by blast
qed

text \<open>
  Recovery as a function of the disk: the blocks the header on the disk names
  are copied home and the header is cleared.
\<close>

definition hdr_n :: "byte list \<Rightarrow> nat" where
  "hdr_n d = get_uint d 0"

definition recover_writes :: "nat \<Rightarrow> (nat \<Rightarrow> byte list) \<Rightarrow> (nat \<times> byte list) list" where
  "recover_writes st d =
     map (\<lambda>i. (get_uint (d st) (i + 1), d (st + i + 1))) [0..<hdr_n (d st)] @ [(st, put_uint 0 0 (d st))]"

definition recovered :: "nat \<Rightarrow> (nat \<Rightarrow> byte list) \<Rightarrow> nat \<Rightarrow> byte list" where
  "recovered st d = apply_writes (recover_writes st d) d"

text \<open>A disk from which recovery works: every header the log writes is like this.\<close>

definition log_disk :: "nat \<Rightarrow> nat \<Rightarrow> nat \<Rightarrow> (nat \<Rightarrow> byte list) \<Rightarrow> bool" where
  "log_disk st nl sz d \<longleftrightarrow> st + nl \<le> sz \<and> (\<forall>n < sz. length (d n) = BSIZE) \<and> hdr_n (d st) \<le> LOGSIZE \<and> hdr_n (d st) < nl
     \<and> distinct (map (\<lambda>i. get_uint (d st) (i + 1)) [0..<hdr_n (d st)])
     \<and> (\<forall>i < hdr_n (d st). get_uint (d st) (i + 1) < sz \<and> get_uint (d st) (i + 1) \<notin> {st ..< st + nl})"

lemma read_blocks_ok:
  assumes "k \<le> n" "n \<le> length bl"
  shows "\<exists>bl'. read_blocks [k..<n] d bl = Ok bl' \<and> length bl' = length bl
    \<and> (\<forall>i. k \<le> i \<and> i < n \<longrightarrow> bl' ! i = get_uint d (i + 1)) \<and> (\<forall>i < k. bl' ! i = bl ! i)"
  using assms
proof (induction "n - k" arbitrary: k bl)
  case (Suc m)
  then have c: "[k..<n] = k # [Suc k..<n]" "k < length bl" by (simp_all add: upt_conv_Cons)
  let ?bl = "bl[k := get_uint d (k + 1)]"
  have "m = n - Suc k" "Suc k \<le> n" "n \<le> length ?bl" using Suc by simp_all
  from Suc(1) [OF this] obtain bl' where r: "read_blocks [Suc k..<n] d ?bl = Ok bl'" "length bl' = length bl"
    "\<forall>i. Suc k \<le> i \<and> i < n \<longrightarrow> bl' ! i = get_uint d (i + 1)" "\<forall>i < Suc k. bl' ! i = ?bl ! i" by auto
  have "bl' ! i = get_uint d (i + 1)" if "k \<le> i" "i < n" for i
    using r(3,4) that c(2) by (cases "i = k") auto
  moreover have "\<forall>i < k. bl' ! i = bl ! i" using r(4) by simp
  ultimately show ?case using r(1,2) c by (intro exI [of _ bl']) simp
qed simp

lemma read_head_ok:
  assumes inv: "binv s" "held s = {}" "dirtyb s = {}" and dev: "log_dev s = 1" and len: "length (lh_block s) = LOGSIZE"
    and disk: "log_disk (log_start s) (nat (log_size s)) (disksize s) (memdisk s)"
  defines "hb \<equiv> memdisk s (log_start s)"
  shows "\<exists>s' bl. read_head s = Ok s' \<and> binv s' \<and> held s' = {} \<and> dirtyb s' = {} \<and>
    bsame (s\<lparr>lh_n := int (hdr_n hb), lh_block := bl\<rparr>) s' \<and> length bl = LOGSIZE \<and>
    (\<forall>i < hdr_n hb. bl ! i = get_uint hb (i + 1)) \<and>
    memdisk s' = memdisk s \<and> disk_writes s' = disk_writes s \<and> bview s' = memdisk s"
proof -
  let ?st = "log_start s"
  have view: "bview s = memdisk s" using bview_clean [OF inv(1)] inv(2,3) by (intro ext) simp
  have n: "hdr_n hb \<le> LOGSIZE" "?st < disksize s" using disk by (auto simp: log_disk_def hb_def)
  obtain b s1 where r: "bread 1 ?st s = Ok (b, s1)" "binv s1" "bquiet s s1" "bat s1 b ?st" "held s1 = insert ?st (held s)"
    using bc.rd_ok [OF inv(1) n(2)] inv(2,3) by (auto simp: layout_simps)
  note l = bsame_log [OF bquiet_bsame [OF r(3)]]
  have v: "b_data (bufs s1 b) = hb" using bview_bat [OF r(2,4)] bquietD(5) [OF r(3)] view by (simp add: hb_def)
  have i: "int_of_uint (get_uint hb 0) = int (hdr_n hb)"
    using n(1) by (simp add: hdr_n_def int_of_uint_small layout_simps)
  obtain bl where bl: "read_blocks [0..<hdr_n hb] hb (lh_block s1) = Ok bl" "length bl = LOGSIZE"
    "\<forall>i < hdr_n hb. bl ! i = get_uint hb (i + 1)"
    using read_blocks_ok [of 0 "hdr_n hb" "lh_block s1" hb] n(1) len l by auto
  let ?s2 = "s1\<lparr>lh_n := int (hdr_n hb), lh_block := bl\<rparr>"
  have "bview ?s2 ?st = memdisk ?s2 ?st" using bquietD [OF r(3)] view by simp
  from bc.rl_ok [of ?s2 b ?st, OF _ _ disjI2 [OF this]] r(2,4)
  obtain s3 where q: "brelse b ?s2 = Ok s3" "binv s3" "bquiet ?s2 s3" "held s3 = held s1 - {?st}" by auto
  have "read_head s = Ok s3"
    using r(1) v i bl(1) q(1) dev by (simp add: read_head_def Let_def l)
  moreover have "bsame (s\<lparr>lh_n := int (hdr_n hb), lh_block := bl\<rparr>) s3"
  proof (rule bsame_trans)
    show "bsame (s\<lparr>lh_n := int (hdr_n hb), lh_block := bl\<rparr>) ?s2"
      using bquiet_bsame [OF r(3)] by (cases s; cases s1; simp add: bsame_def)
    show "bsame ?s2 s3" by (rule bquiet_bsame [OF q(3)])
  qed
  ultimately show ?thesis
    using q(2,4) r(5) inv(2,3) bl(2,3) bquietD [OF q(3)] bquietD [OF r(3)] view
    by (intro exI [of _ s3] exI [of _ bl]) simp
qed

lemma recover_ok:
  assumes inv: "binv s" "held s = {}" "dirtyb s = {}" and dev: "log_dev s = 1" and len: "length (lh_block s) = LOGSIZE"
    and disk: "log_disk (log_start s) (nat (log_size s)) (disksize s) (memdisk s)"
  shows "\<exists>s'. recover_from_log s = Ok s' \<and> binv s' \<and> held s' = {} \<and> dirtyb s' = {} \<and> lh_n s' = 0
    \<and> log_start s' = log_start s \<and> disksize s' = disksize s
    \<and> memdisk s' = recovered (log_start s) (memdisk s)
    \<and> disk_writes s' = disk_writes s @ recover_writes (log_start s) (memdisk s)"
proof -
  let ?st = "log_start s" and ?d = "memdisk s"
  let ?n = "hdr_n (?d ?st)"
  obtain s1 bl where r: "read_head s = Ok s1" "binv s1" "held s1 = {}" "dirtyb s1 = {}"
    "bsame (s\<lparr>lh_n := int ?n, lh_block := bl\<rparr>) s1" "length bl = LOGSIZE" "\<forall>i < ?n. bl ! i = get_uint (?d ?st) (i + 1)"
    "memdisk s1 = ?d" "disk_writes s1 = disk_writes s" "bview s1 = ?d"
    using read_head_ok [OF assms] by blast
  note l1 = bsame_log [OF r(5), simplified]
  have "set (logged s1) = (\<lambda>i. bl ! i) ` {0..<?n}"
    using disk r(6) by (simp add: logged_def l1 log_disk_def nth_image)
  then have lay: "log_layout s1"
    using disk dev r(6,7) by (auto simp: log_layout_def log_area_def l1 log_disk_def)
  let ?w = "map (\<lambda>i. (get_uint (?d ?st) (i + 1), ?d (?st + i + 1))) [0..<?n]"
  have "map (\<lambda>i. (lh_block s1 ! i, bview s1 (log_start s1 + i + 1))) [0..<nat (lh_n s1)] = ?w"
    using r(7) by (simp add: l1 r(10))
  then obtain s2 where i: "install_trans s1 = Ok s2" "wrote s1 s2 ?w"
    using install_trans_ok [OF lay r(2,3)] r(4) by (auto simp: layout_simps)
  note d2 = wroteD [OF i(2)] and l2 = bsame_log [OF wroteD(2) [OF i(2)]]
  have "?st \<notin> fst ` set ?w" using disk by (force simp: log_disk_def)
  then have "bview s2 ?st = ?d ?st" unfolding d2(6) r(10) by (rule apply_writes_other)
  moreover have "head_data 0 bl' hb = put_uint 0 0 hb" for bl' hb by (simp add: head_data_def uint_of_int_def)
  ultimately obtain s3 where w: "write_head (s2\<lparr>lh_n := 0\<rparr>) = Ok s3" "wrote (s2\<lparr>lh_n := 0\<rparr>) s3 [(?st, put_uint 0 0 (?d ?st))]"
    using write_head_ok [of "s2\<lparr>lh_n := 0\<rparr>"] d2(1,3,7) r(3,4) disk dev by (auto simp: l1 l2 log_disk_def layout_simps)
  note d3 = wroteD [OF w(2)] and l3 = bsame_log [OF wroteD(2) [OF w(2)]]
  have "recover_from_log s = Ok s3" using r(1) i(1) w(1) by (simp add: recover_from_log_def)
  then show ?thesis
    using d3 d2 r(3,4,8,9) by (intro exI [of _ s3]) (simp add: l1 l2 l3 recovered_def recover_writes_def)
qed

section \<open>Crashes\<close>

text \<open>Two disks agree outside the log area.\<close>

definition home_eq :: "nat \<Rightarrow> nat \<Rightarrow> (nat \<Rightarrow> byte list) \<Rightarrow> (nat \<Rightarrow> byte list) \<Rightarrow> bool" where
  "home_eq st nl d d' \<longleftrightarrow> (\<forall>b. b \<notin> {st ..< st + nl} \<longrightarrow> d b = d' b)"

lemma recovered_named:
  assumes "log_disk st nl sz d" "i < hdr_n (d st)"
  shows "recovered st d (get_uint (d st) (i + 1)) = d (st + i + 1)"
proof -
  let ?g = "\<lambda>i. get_uint (d st) (i + 1)"
  have "?g i \<notin> {st ..< st + nl}" using assms unfolding log_disk_def by blast
  then have "?g i \<noteq> st" using assms(1) by (auto simp: log_disk_def)
  moreover have "apply_writes (map (\<lambda>i. (?g i, d (st + i + 1))) [0..<hdr_n (d st)]) d (?g i) = d (st + i + 1)"
    by (rule apply_writes_map) (use assms in \<open>simp_all add: log_disk_def\<close>)
  ultimately show ?thesis
    by (simp only: recovered_def recover_writes_def apply_writes_append apply_writes_Cons apply_writes_Nil fun_upd_apply if_False)
qed

lemma recovered_other:
  assumes "b \<noteq> st" "\<And>i. i < hdr_n (d st) \<Longrightarrow> get_uint (d st) (i + 1) \<noteq> b"
  shows "recovered st d b = d b"
proof -
  have "b \<notin> (\<lambda>i. get_uint (d st) (i + 1)) ` {0..<hdr_n (d st)}"
  proof
    assume "b \<in> (\<lambda>i. get_uint (d st) (i + 1)) ` {0..<hdr_n (d st)}"
    then obtain i where "i < hdr_n (d st)" "b = get_uint (d st) (i + 1)" by auto
    with assms(2) [of i] show False by simp
  qed
  then have "b \<notin> fst ` set (recover_writes st d)"
    using assms(1) by (simp add: recover_writes_def image_image image_Un)
  then show ?thesis unfolding recovered_def by (rule apply_writes_other)
qed

lemma apply_writes_area:
  assumes "fst ` set ws \<inter> {st ..< st + nl} = {}" "i < nl"
  shows "apply_writes ws d (st + i) = d (st + i)"
  by (rule apply_writes_other) (use assms in auto)

lemma length_apply_writes:
  assumes "\<And>n. n < sz \<Longrightarrow> length (d n) = BSIZE" "\<And>n v. (n, v) \<in> set ws \<Longrightarrow> length v = BSIZE" "n < sz"
  shows "length (apply_writes ws d n) = BSIZE"
  using assms
proof (induction ws arbitrary: d)
  case (Cons w ws)
  obtain m v where w: "w = (m, v)" by (cases w)
  have "length ((d(m := v)) n) = BSIZE" if "n < sz" for n using Cons.prems(1,2) w that by auto
  then have "length (apply_writes ws (d(m := v)) n) = BSIZE"
    by (rule Cons.IH) (use Cons.prems(2,3) in auto)
  then show ?case by (simp add: w)
qed simp

text \<open>A disk whose header names no block recovers to itself at home.\<close>

lemma recovered_empty:
  assumes "hdr_n (d st) = 0" "0 < nl"
  shows "home_eq st nl (recovered st d) d"
  unfolding home_eq_def by (intro allI impI recovered_other) (use assms in auto)

lemma log_disk_empty:
  "st + nl \<le> sz \<Longrightarrow> 0 < nl \<Longrightarrow> (\<And>n. n < sz \<Longrightarrow> length (d n) = BSIZE) \<Longrightarrow> hdr_n (d st) = 0 \<Longrightarrow> log_disk st nl sz d"
  by (simp add: log_disk_def)

text \<open>Writing home part of what the header names does not change the outcome of recovery.\<close>

lemma recovered_partly:
  assumes d: "log_disk st nl sz d" and k: "k \<le> hdr_n (d st)"
    and d': "d' = apply_writes (map (\<lambda>i. (get_uint (d st) (i + 1), d (st + i + 1))) [0..<k]) d"
  shows "log_disk st nl sz d'" "home_eq st nl (recovered st d') (recovered st d)"
proof -
  let ?g = "\<lambda>i. get_uint (d st) (i + 1)"
  let ?ws = "map (\<lambda>i. (?g i, d (st + i + 1))) [0..<k]"
  have g: "?g i < sz" "?g i \<notin> {st ..< st + nl}" if "i < hdr_n (d st)" for i
    using d that by (auto simp: log_disk_def)
  have "fst ` set ?ws \<inter> {st ..< st + nl} = {}" using g(2) k by (auto simp: image_image)
  from apply_writes_area [OF this, of _ d] have area: "d' (st + i) = d (st + i)" if "i < nl" for i
    using that by (simp add: d')
  then have st: "d' st = d st" using area [of 0] d by (simp add: log_disk_def)
  have "length v = BSIZE" if "(n, v) \<in> set ?ws" for n v
    using that d k by (auto simp: log_disk_def)
  then have "length (d' n) = BSIZE" if "n < sz" for n
    unfolding d' using length_apply_writes [of sz d ?ws n] d that by (auto simp: log_disk_def)
  then show ld: "log_disk st nl sz d'" using d by (simp add: log_disk_def st)
  show "home_eq st nl (recovered st d') (recovered st d)"
    unfolding home_eq_def
  proof (intro allI impI)
    fix b assume b: "b \<notin> {st ..< st + nl}"
    show "recovered st d' b = recovered st d b"
    proof (cases "\<exists>i < hdr_n (d st). ?g i = b")
      case True
      then obtain i where i: "i < hdr_n (d st)" "?g i = b" by blast
      then have "d' (st + (i + 1)) = d (st + (i + 1))" using d by (intro area) (simp add: log_disk_def)
      then show ?thesis using recovered_named [OF d i(1)] recovered_named [OF ld, of i] i st by simp
    next
      case False
      then have "b \<notin> ?g ` {0..<hdr_n (d st)}" by auto
      moreover have "?g ` {0..<k} \<subseteq> ?g ` {0..<hdr_n (d st)}" using k by (intro image_mono) simp
      ultimately have "b \<notin> ?g ` {0..<k}" by blast
      then have "d' b = d b" unfolding d' by (intro apply_writes_other) (simp add: image_image)
      moreover have "b \<noteq> st" using b d by (auto simp: log_disk_def)
      then have "recovered st d b = d b" "recovered st d' b = d' b"
        using False st recovered_other [of b st d] recovered_other [of b st d'] by simp_all
      ultimately show ?thesis by simp
    qed
  qed
qed

text \<open>A crash during recovery, after any number of its writes.\<close>

lemma recovery_crash:
  assumes d: "log_disk st nl sz d" and d': "d' = apply_writes (take k (recover_writes st d)) d"
  shows "log_disk st nl sz d'" "home_eq st nl (recovered st d') (recovered st d)"
proof -
  let ?n = "hdr_n (d st)" and ?w = "\<lambda>i. (get_uint (d st) (i + 1), d (st + i + 1))"
  have "log_disk st nl sz d' \<and> home_eq st nl (recovered st d') (recovered st d)"
  proof (cases "k \<le> ?n")
    case True
    then have "take k (recover_writes st d) = map ?w [0..<k]" by (simp add: recover_writes_def take_map)
    then show ?thesis using recovered_partly [OF d True, of d'] d' by simp
  next
    case False
    then have e: "d' = recovered st d" by (simp add: d' recovered_def recover_writes_def)
    have l: "length (d n) = BSIZE" if "n < sz" for n using d that by (simp add: log_disk_def)
    have st: "st < sz" "4 \<le> BSIZE" using d by (simp_all add: log_disk_def layout_simps)
    have "d' st = put_uint 0 0 (d st)" by (simp add: e recovered_def recover_writes_def)
    then have "hdr_n (d' st) = 0" using l [OF st(1)] st(2) by (simp add: hdr_n_def get_put_uint)
    moreover have "length (d' n) = BSIZE" if "n < sz" for n
      unfolding e recovered_def
      by (rule length_apply_writes [of sz]) (use l st that d in \<open>auto simp: recover_writes_def log_disk_def\<close>)
    ultimately show ?thesis using recovered_empty [of d' st nl] log_disk_empty [of st nl sz d'] d e
      by (simp add: log_disk_def)
  qed
  then show "log_disk st nl sz d'" "home_eq st nl (recovered st d') (recovered st d)" by simp_all
qed

text \<open>The disk at the moment of commit: the log blocks and the header are written.\<close>

definition log_writes :: "'a lstate_scheme \<Rightarrow> (nat \<times> byte list) list" where
  "log_writes s = map (\<lambda>i. (log_start s + i + 1, bview s (lh_block s ! i))) [0..<nat (lh_n s)]"

definition commit_point :: "'a lstate_scheme \<Rightarrow> nat \<Rightarrow> byte list" where
  "commit_point s = (apply_writes (log_writes s) (memdisk s))
     (log_start s := head_data (lh_n s) (lh_block s) (bview s (log_start s)))"

lemma log_writes_keys: "log_layout s \<Longrightarrow> fst ` set (log_writes s) \<subseteq> log_area s - {log_start s}"
  by (auto simp: log_writes_def log_area_def log_layout_def)

lemma commit_point:
  assumes inv: "log_inv s" and free: "held s = {}" and sz: "disksize s \<le> 2 ^ 32"
  shows "hdr_n (commit_point s (log_start s)) = nat (lh_n s)"
    and "i < nat (lh_n s) \<Longrightarrow> get_uint (commit_point s (log_start s)) (i + 1) = lh_block s ! i"
    and "i < nat (lh_n s) \<Longrightarrow> commit_point s (log_start s + i + 1) = bview s (lh_block s ! i)"
    and "b \<notin> log_area s \<Longrightarrow> commit_point s b = memdisk s b"
    and "log_disk (log_start s) (nat (log_size s)) (disksize s) (commit_point s)"
proof -
  let ?st = "log_start s" and ?n = "nat (lh_n s)" and ?c = "commit_point s"
  have lay: "log_layout s" and bi: "binv s" using inv by (auto simp: log_inv_def)
  have n: "lh_n s = int ?n" "?n \<le> LOGSIZE" "?st < disksize s" using lay by (auto simp: log_layout_def)
  have c: "?c ?st = head_data (int ?n) (lh_block s) (bview s ?st)" using n(1) by (simp add: commit_point_def)
  have l: "length (bview s ?st) = BSIZE" using bi n(3) by simp
  note h = head_data [OF l n(2), where bl = "lh_block s", folded c]
  show hn: "hdr_n (?c ?st) = ?n" using h(2) by (simp add: hdr_n_def)
  have blk: "lh_block s ! i < disksize s" "lh_block s ! i \<notin> log_area s" if "i < ?n" for i
    using logged_mem [OF lay that] lay by (auto simp: log_layout_def)
  show g: "get_uint (?c ?st) (i + 1) = lh_block s ! i" if "i < ?n" for i
    using h(3) [OF that] blk(1) [OF that] sz by simp
  have d: "distinct (map (\<lambda>i. ?st + i + 1) [0..<?n])" by (simp add: distinct_map inj_on_def)
  show lb: "?c (?st + i + 1) = bview s (lh_block s ! i)" if "i < ?n" for i
    using apply_writes_map [OF d, of i "\<lambda>i. bview s (lh_block s ! i)" "memdisk s"] that
    by (simp add: commit_point_def log_writes_def)
  show "?c b = memdisk s b" if "b \<notin> log_area s"
  proof -
    have "b \<notin> fst ` set (log_writes s)" "b \<noteq> ?st"
      using that log_writes_keys [OF lay] log_start_area [OF lay] by blast+
    then show ?thesis by (simp add: commit_point_def apply_writes_other)
  qed
  have "map (\<lambda>i. lh_block s ! i) [0..<?n] = logged s"
    by (rule nth_equalityI) (simp_all add: length_logged [OF lay] logged_nth [OF lay])
  then have dst: "distinct (map (\<lambda>i. lh_block s ! i) [0..<?n])" using inv by (simp add: log_inv_def)
  have "length (?c b) = BSIZE" if "b < disksize s" for b
  proof (cases "b = ?st")
    case True
    then show ?thesis using h(1) by simp
  next
    case False
    then have "?c b = apply_writes (log_writes s) (memdisk s) b" by (simp add: commit_point_def)
    also have "length \<dots> = BSIZE"
      by (rule length_apply_writes [of "disksize s"])
        (use bi that blk in \<open>auto simp: binv_def log_writes_def intro: length_bview [OF bi]\<close>)
    finally show ?thesis .
  qed
  moreover have "map (\<lambda>i. get_uint (?c ?st) (i + 1)) [0..<?n] = map (\<lambda>i. lh_block s ! i) [0..<?n]" using g by simp
  with dst have "distinct (map (\<lambda>i. get_uint (?c ?st) (i + 1)) [0..<?n])" by (simp only:)
  ultimately show "log_disk ?st (nat (log_size s)) (disksize s) ?c"
    using lay n(2) blk g by (simp add: log_disk_def hn log_area_def log_layout_def)
qed

lemma commit_writes_split:
  assumes "log_inv s" "held s = {}" "disksize s \<le> 2 ^ 32"
  shows "commit_writes s = log_writes s @ (log_start s, commit_point s (log_start s)) # recover_writes (log_start s) (commit_point s)"
proof -
  note c = commit_point [OF assms]
  have "map (\<lambda>i. (get_uint (commit_point s (log_start s)) (i + 1), commit_point s (log_start s + i + 1))) [0..<nat (lh_n s)]
      = map (\<lambda>i. (lh_block s ! i, bview s (lh_block s ! i))) [0..<nat (lh_n s)]"
    using c(2,3) by simp
  then have r: "recover_writes (log_start s) (commit_point s) =
      map (\<lambda>i. (lh_block s ! i, bview s (lh_block s ! i))) [0..<nat (lh_n s)] @
      [(log_start s, put_uint 0 0 (commit_point s (log_start s)))]"
    by (simp only: recover_writes_def c(1))
  have "head_data (lh_n s) (lh_block s) (bview s (log_start s)) = commit_point s (log_start s)"
    by (simp add: commit_point_def)
  then show ?thesis unfolding r
    by (simp add: commit_writes_def Let_def log_writes_def head_data_def [of 0] uint_of_int_def)
qed

lemma recovered_commit_point:
  assumes "log_inv s" "held s = {}" "disksize s \<le> 2 ^ 32"
  shows "home_eq (log_start s) (nat (log_size s)) (recovered (log_start s) (commit_point s)) (bview s)"
  unfolding home_eq_def
proof (intro allI impI)
  let ?st = "log_start s" and ?c = "commit_point s"
  note c = commit_point [OF assms]
  fix b assume b: "b \<notin> {?st ..< ?st + nat (log_size s)}"
  have lay: "log_layout s" and bi: "binv s" using assms(1) by (auto simp: log_inv_def)
  show "recovered ?st ?c b = bview s b"
  proof (cases "b \<in> set (logged s)")
    case True
    then obtain i where i: "i < nat (lh_n s)" "b = lh_block s ! i"
      by (metis in_set_conv_nth length_logged [OF lay] logged_nth [OF lay])
    then show ?thesis using recovered_named [OF c(5), of i] c(1-3) by simp
  next
    case False
    have "recovered ?st ?c b = ?c b"
    proof (rule recovered_other)
      show "b \<noteq> ?st" using b log_start_area [OF lay] by (auto simp: log_area_def)
    qed (use False logged_mem [OF lay] c(1,2) in auto)
    also have "\<dots> = memdisk s b" using c(4) b by (simp add: log_area_def)
    also have "\<dots> = bview s b" using bview_clean [OF bi, of b] assms(1,2) False by (simp add: log_inv_def)
    finally show ?thesis .
  qed
qed

text \<open>The kernel's static storage at boot, after \<open>binit\<close>, on the disk \<open>d\<close>.\<close>

definition boot_state :: "(nat \<Rightarrow> byte list) \<Rightarrow> nat \<Rightarrow> lstate" where
  "boot_state d sz = binit \<lparr>memdisk = d, disksize = sz, disk_writes = [], bufs = (\<lambda>_. zero_buf), curpid = 1,
     log_start = 0, log_size = 0, log_outstanding = 0, log_committing = False, log_dev = 0, lh_n = 0,
     lh_block = replicate LOGSIZE 0\<rparr>"

lemma boot_state:
  assumes "\<And>n. n < sz \<Longrightarrow> length (d n) = BSIZE"
  shows "binv (boot_state d sz)" "bview (boot_state d sz) = d" "held (boot_state d sz) = {}" "dirtyb (boot_state d sz) = {}"
    "memdisk (boot_state d sz) = d" "disk_writes (boot_state d sz) = []" "disksize (boot_state d sz) = sz"
    "length (lh_block (boot_state d sz)) = LOGSIZE"
proof -
  let ?s = "\<lparr>memdisk = d, disksize = sz, disk_writes = [], bufs = (\<lambda>_. zero_buf), curpid = 1,
     log_start = 0, log_size = 0, log_outstanding = 0, log_committing = False, log_dev = 0, lh_n = 0,
     lh_block = replicate LOGSIZE 0\<rparr>"
  note b = binit_ok [of ?s, simplified, OF assms]
  show "binv (boot_state d sz)" "bview (boot_state d sz) = d" "held (boot_state d sz) = {}" "dirtyb (boot_state d sz) = {}"
    "memdisk (boot_state d sz) = d" "disk_writes (boot_state d sz) = []" "disksize (boot_state d sz) = sz"
    "length (lh_block (boot_state d sz)) = LOGSIZE"
    using b bsame_log [OF b(5)] by (simp_all add: boot_state_def)
qed

lemma readsb_ok:
  assumes "binv s" "1 < disksize s" "1 \<notin> held s" "card (insert 1 (held s \<union> dirtyb s)) \<le> NBUF"
  shows "\<exists>s'. readsb 1 s = Ok (decode_sb (bview s 1), s') \<and> binv s' \<and> bquiet s s' \<and> held s' = held s"
proof -
  obtain b s1 s2 where p: "bread 1 1 s = Ok (b, s1)" "binv s1" "bat s1 b 1" "bview s1 = bview s" "brelse b s1 = Ok s2"
    "binv s2" "bquiet s s2" "held s2 = held s"
    using bc.peek [OF assms] by blast
  then show ?thesis using bview_bat [OF p(2,3)] by (simp add: readsb_def Let_def)
qed

lemma initlog_ok:
  assumes d: "log_disk (sb_logstart (decode_sb (d 1))) (sb_nlog (decode_sb (d 1))) sz d" and sz: "1 < sz"
    and nl: "sb_nlog (decode_sb (d 1)) < 2 ^ 31"
  shows "\<exists>s'. initlog 1 (boot_state d sz) = Ok s' \<and> binv s' \<and> held s' = {} \<and> dirtyb s' = {} \<and> lh_n s' = 0
    \<and> memdisk s' = recovered (sb_logstart (decode_sb (d 1))) d
    \<and> disk_writes s' = recover_writes (sb_logstart (decode_sb (d 1))) d"
proof -
  let ?b = "boot_state d sz" and ?sb = "decode_sb (d 1)"
  have "length (d n) = BSIZE" if "n < sz" for n using d that by (simp add: log_disk_def)
  note b = boot_state [OF this]
  obtain s1 where r: "readsb 1 ?b = Ok (?sb, s1)" "binv s1" "bquiet ?b s1" "held s1 = {}"
    using readsb_ok [of ?b] b sz by (auto simp: layout_simps)
  note q = bquietD [OF r(3)] and l = bsame_log [OF bquiet_bsame [OF r(3)]]
  let ?s2 = "s1\<lparr>log_start := sb_logstart ?sb, log_size := int_of_uint (sb_nlog ?sb), log_dev := 1\<rparr>"
  have "\<exists>s'. recover_from_log ?s2 = Ok s' \<and> binv s' \<and> held s' = {} \<and> dirtyb s' = {} \<and> lh_n s' = 0
    \<and> log_start s' = log_start ?s2 \<and> disksize s' = disksize ?s2
    \<and> memdisk s' = recovered (log_start ?s2) (memdisk ?s2)
    \<and> disk_writes s' = disk_writes ?s2 @ recover_writes (log_start ?s2) (memdisk ?s2)"
    by (rule recover_ok) (use r b q l d nl in \<open>simp_all add: int_of_uint_small\<close>)
  then show ?thesis using r(1) b q by (auto simp: initlog_def layout_simps)
qed

text \<open>\<open>reboots st d d'\<close>: starting on disk \<open>d\<close>, recovery crashed any number of times, leaving \<open>d'\<close>.\<close>

inductive reboots :: "nat \<Rightarrow> (nat \<Rightarrow> byte list) \<Rightarrow> (nat \<Rightarrow> byte list) \<Rightarrow> bool" for st where
  reboots_none: "reboots st d d"
| reboots_again: "reboots st d d' \<Longrightarrow> reboots st d (apply_writes (take k (recover_writes st d')) d')"

text \<open>What every disk between a commit and the end of its recovery satisfies.\<close>

definition crash_inv :: "nat \<Rightarrow> nat \<Rightarrow> nat \<Rightarrow> byte list \<Rightarrow> (nat \<Rightarrow> byte list) \<Rightarrow> (nat \<Rightarrow> byte list) \<Rightarrow> bool" where
  "crash_inv st nl sz sblk new d \<longleftrightarrow> log_disk st nl sz d \<and> d 1 = sblk \<and> (\<forall>i < hdr_n (d st). get_uint (d st) (i + 1) \<noteq> 1)
     \<and> home_eq st nl (recovered st d) new"

lemma home_eq_trans: "home_eq st nl a b \<Longrightarrow> home_eq st nl b c \<Longrightarrow> home_eq st nl a c"
  by (simp add: home_eq_def)

lemma crash_inv_step:
  assumes "crash_inv st nl sz sblk new d" "st \<noteq> 1"
  shows "crash_inv st nl sz sblk new (apply_writes (take k (recover_writes st d)) d)" (is "crash_inv _ _ _ _ _ ?d")
proof -
  have d: "log_disk st nl sz d" "d 1 = sblk" "\<forall>i < hdr_n (d st). get_uint (d st) (i + 1) \<noteq> 1" "home_eq st nl (recovered st d) new"
    using assms(1) by (simp_all add: crash_inv_def)
  note c = recovery_crash [OF d(1) refl, of k]
  have "1 \<notin> fst ` set (recover_writes st d)"
    using d(3) assms(2) by (auto simp: recover_writes_def image_image)
  then have "1 \<notin> fst ` set (take k (recover_writes st d))" by (meson image_mono set_take_subset subsetD)
  then have d1: "?d 1 = sblk" using d(2) by (simp add: apply_writes_other)
  have "get_uint (?d st) (i + 1) \<noteq> 1" if i: "i < hdr_n (?d st)" for i
  proof (cases "k \<le> hdr_n (d st)")
    case True
    let ?w = "map (\<lambda>i. (get_uint (d st) (i + 1), d (st + i + 1))) [0..<hdr_n (d st)]"
    have "take k (recover_writes st d) = take k ?w" using True by (simp add: recover_writes_def)
    moreover have "fst ` set ?w \<inter> {st ..< st + nl} = {}" using d(1) by (auto simp: log_disk_def)
    then have "fst ` set (take k ?w) \<inter> {st ..< st + nl} = {}" by (meson disjoint_iff image_mono set_take_subset subsetD)
    from apply_writes_area [OF this, of 0 d] d(1) have "apply_writes (take k ?w) d st = d st" by (simp add: log_disk_def)
    ultimately show ?thesis using i d(3) by simp
  next
    case False
    then have "?d st = put_uint 0 0 (d st)" by (simp add: recover_writes_def)
    moreover have "length (d st) = BSIZE" "4 \<le> BSIZE" using d(1) by (simp_all add: log_disk_def layout_simps)
    ultimately have "hdr_n (?d st) = 0" by (simp add: hdr_n_def get_put_uint)
    with i show ?thesis by simp
  qed
  then show ?thesis using c d1 home_eq_trans [OF c(2) d(4)] by (simp add: crash_inv_def)
qed

lemma crash_inv_reboots:
  assumes "reboots st d d'" "crash_inv st nl sz sblk new d" "st \<noteq> 1"
  shows "crash_inv st nl sz sblk new d'"
  using assms by (induction rule: reboots.induct) (auto intro: crash_inv_step)

section \<open>Logging a block\<close>

lemma log_scan:
  "log_scan k i bl bn \<le> i + k"
  "log_scan k i bl bn < i + k \<Longrightarrow> bl ! log_scan k i bl bn = bn"
  "i \<le> j \<Longrightarrow> j < log_scan k i bl bn \<Longrightarrow> bl ! j \<noteq> bn"
proof (induction k arbitrary: i)
  case (Suc k)
  { case 1 then show ?case using Suc.IH(1) [of "i + 1"] by simp }
  { case 2 then show ?case using Suc.IH(2) [of "i + 1"] by (simp split: if_splits) }
  { case 3 then show ?case using Suc.IH(3) [of "i + 1"] by (cases "j = i") (auto split: if_splits) }
qed simp_all

lemma log_scan_logged:
  assumes "n \<le> length bl"
  shows "log_scan n 0 bl bn < n \<longleftrightarrow> bn \<in> set (take n bl)"
proof
  assume "log_scan n 0 bl bn < n"
  then show "bn \<in> set (take n bl)"
    using log_scan(2) [of n 0 bl bn] assms by (auto simp: in_set_conv_nth)
next
  assume "bn \<in> set (take n bl)"
  then obtain j where "j < n" "bl ! j = bn" using assms by (auto simp: in_set_conv_nth)
  then show "log_scan n 0 bl bn < n"
    using log_scan(3) [of 0 j n bl bn] by (meson leI le0 le_less_trans less_le_trans)
qed

lemma log_write_ok:
  assumes inv: "log_inv s" and at: "bat s b n" and out: "n \<notin> log_area s"
    and room: "lh_n s < int LOGSIZE" "lh_n s < log_size s - 1" and tx: "log_outstanding s \<ge> 1"
  shows "\<exists>s'. log_write b s = Ok s' \<and> log_inv s' \<and> bview s' = bview s \<and> held s' = held s \<and> (\<forall>c m. bat s' c m = bat s c m)
    \<and> set (logged s') = insert n (set (logged s)) \<and> lh_n s' = (if n \<in> set (logged s) then lh_n s else lh_n s + 1)
    \<and> memdisk s' = memdisk s \<and> disk_writes s' = disk_writes s
    \<and> (\<exists>k bl. bsame (s\<lparr>lh_block := bl, lh_n := k\<rparr>) s')"
proof -
  have lay: "log_layout s" and bi: "binv s" using inv by (auto simp: log_inv_def)
  let ?n = "nat (lh_n s)" and ?bl = "lh_block s"
  define i where "i = log_scan ?n 0 ?bl n"
  define k where "k = (if int i = lh_n s then lh_n s + 1 else lh_n s)"
  have bn: "b_blockno (bufs s b) = n" using at by (simp add: bat_def)
  have len: "length ?bl = LOGSIZE" "0 \<le> lh_n s" using lay by (auto simp: log_layout_def)
  have ib: "i \<le> ?n" "i < ?n \<longleftrightarrow> n \<in> set (logged s)" "i < LOGSIZE"
    using log_scan(1) [of ?n 0 ?bl n] log_scan_logged [of ?n ?bl n] len room by (auto simp: logged_def i_def)
  define t where "t = s\<lparr>lh_block := ?bl[i := n], lh_n := k\<rparr>"
  define s' where "s' = upd_buf b (b_dirty_update (\<lambda>_. True)) t"
  have run: "log_write b s = Ok s'"
    using room tx ib(3) len bn by (simp add: log_write_def Let_def s'_def t_def k_def i_def)
  have kk: "k = (if n \<in> set (logged s) then lh_n s else lh_n s + 1)" using ib len by (auto simp: k_def)
  have lg: "take (nat k) (?bl[i := n]) = (if n \<in> set (logged s) then logged s else logged s @ [n])"
  proof (cases "n \<in> set (logged s)")
    case True
    then have "?bl[i := n] = ?bl" using ib log_scan(2) [of ?n 0 ?bl n] by (metis add_0 list_update_id i_def)
    then show ?thesis using True kk by (simp add: logged_def)
  next
    case False
    then have e: "i = ?n" using ib by auto
    moreover have "nat (lh_n s + 1) = Suc ?n" using len(2) by simp
    ultimately show ?thesis using False kk room len by (simp add: logged_def take_update_Suc)
  qed
  have at': "bat t b n" using at by (simp add: t_def)
  have bi': "binv t" using bi by (simp add: t_def)
  have tt: "dirtyb t = dirtyb s" "bview t = bview s" "held t = held s" "bat t c m = bat s c m" for c m by (simp_all add: t_def)
  note d = set_dirty_ok [OF bi' at', folded s'_def, unfolded tt]
  have log: "logged s' = (if n \<in> set (logged s) then logged s else logged s @ [n])"
    using lg by (simp add: logged_def upd_buf_def s'_def t_def)
  have area: "log_area s' = log_area s" by (simp add: log_area_def upd_buf_def s'_def t_def)
  have fields: "log_dev s' = log_dev s" "log_start s' = log_start s" "disksize s' = disksize s" "lh_block s' = ?bl[i := n]"
    "lh_n s' = k" "log_size s' = log_size s" "memdisk s' = memdisk s" "disk_writes s' = disk_writes s"
    by (simp_all add: upd_buf_def s'_def t_def)
  have "log_layout s'"
    using lay kk room out bat_lt [OF bi at] by (auto simp: log_layout_def log area fields)
  moreover have "distinct (logged s')" "set (logged s') = insert n (set (logged s))" using inv log by (auto simp: log_inv_def)
  ultimately have "log_inv s'"
    using inv d(1,4) by (simp add: log_inv_def fields)
  moreover have "bsame t s'" by (simp add: upd_buf_def s'_def)
  then have "\<exists>k bl. bsame (s\<lparr>lh_block := bl, lh_n := k\<rparr>) s'" unfolding t_def by blast
  ultimately show ?thesis
    using run d(2,3,5) kk \<open>set (logged s') = insert n (set (logged s))\<close>
    by (intro exI [of _ s']) (simp add: fields t_def)
qed

section \<open>Properties of the log\<close>

lemma home_eq_sym: "home_eq st nl a b \<Longrightarrow> home_eq st nl b a"
  by (simp add: home_eq_def)

lemma crash_inv_commit_point:
  assumes inv: "log_inv s" "held s = {}" "disksize s \<le> 2 ^ 32" and one: "1 \<notin> log_area s" "1 \<notin> set (logged s)"
  shows "crash_inv (log_start s) (nat (log_size s)) (disksize s) (memdisk s 1) (bview s) (commit_point s)"
proof -
  note c = commit_point [OF inv]
  have lay: "log_layout s" using inv(1) by (simp add: log_inv_def)
  have "get_uint (commit_point s (log_start s)) (i + 1) \<noteq> 1" if "i < nat (lh_n s)" for i
    using c(2) [OF that] logged_mem [OF lay that] one(2) by metis
  then show ?thesis
    using c(1,4,5) one(1) recovered_commit_point [OF inv] by (simp add: crash_inv_def)
qed

text \<open>A crash while the log blocks are written leaves the old contents.\<close>

lemma crash_inv_log_writes:
  assumes inv: "log_inv s" "held s = {}" and one: "1 \<notin> log_area s"
  shows "crash_inv (log_start s) (nat (log_size s)) (disksize s) (memdisk s 1) (memdisk s)
    (apply_writes (take k (log_writes s)) (memdisk s))" (is "crash_inv ?st ?nl _ _ _ ?d")
proof -
  have lay: "log_layout s" and bi: "binv s" using inv(1) by (auto simp: log_inv_def)
  have keys: "fst ` set (take k (log_writes s)) \<subseteq> log_area s - {?st}"
    using log_writes_keys [OF lay] by (meson image_mono order_trans set_take_subset)
  have out: "?d b = memdisk s b" if "b \<notin> log_area s - {?st}" for b
    by (rule apply_writes_other) (use that keys in blast)
  have h: "hdr_n (?d ?st) = 0" using out [of ?st] inv(1) by (simp add: hdr_n_def log_inv_def)
  have "length v = BSIZE" if "(n, v) \<in> set (take k (log_writes s))" for n v
  proof -
    from that obtain i where "i < nat (lh_n s)" "v = bview s (lh_block s ! i)"
      by (auto simp: log_writes_def dest!: in_set_takeD)
    then show ?thesis using logged_mem [OF lay] lay bi by (simp add: log_layout_def)
  qed
  moreover have "length (memdisk s n) = BSIZE" if "n < disksize s" for n using bi that by (simp add: binv_def)
  ultimately have "length (?d n) = BSIZE" if "n < disksize s" for n
    using that by (intro length_apply_writes [of "disksize s"])
  then have "log_disk ?st ?nl (disksize s) ?d"
    by (intro log_disk_empty h) (use lay in \<open>auto simp: log_layout_def\<close>)
  moreover have "home_eq ?st ?nl (recovered ?st ?d) (memdisk s)"
  proof (rule home_eq_trans [OF recovered_empty [of ?d ?st, OF h]])
    show "0 < ?nl" using lay by (simp add: log_layout_def)
    show "home_eq ?st ?nl ?d (memdisk s)" unfolding home_eq_def
      by (intro allI impI out) (auto simp: log_area_def)
  qed
  moreover have "?d 1 = memdisk s 1" using out one by simp
  ultimately show ?thesis using h by (simp add: crash_inv_def)
qed

lemma crash_inv_commit:
  assumes inv: "log_inv s" "held s = {}" "disksize s \<le> 2 ^ 32" and one: "1 \<notin> log_area s" "1 \<notin> set (logged s)"
  obtains new where "new \<in> {memdisk s, bview s}"
    "crash_inv (log_start s) (nat (log_size s)) (disksize s) (memdisk s 1) new (apply_writes (take k (commit_writes s)) (memdisk s))"
proof (cases "k \<le> length (log_writes s)")
  case True
  then have "take k (commit_writes s) = take k (log_writes s)" by (simp add: commit_writes_split [OF inv])
  then show ?thesis using crash_inv_log_writes [OF inv(1,2) one(1), of k] that by auto
next
  case False
  let ?j = "k - length (log_writes s) - 1" and ?c = "commit_point s" and ?st = "log_start s"
  have "take k (commit_writes s) = log_writes s @ (?st, ?c ?st) # take ?j (recover_writes ?st ?c)"
    using False by (simp add: commit_writes_split [OF inv] take_Cons')
  moreover have "(apply_writes (log_writes s) (memdisk s)) (?st := ?c ?st) = ?c" by (simp add: commit_point_def)
  ultimately have "apply_writes (take k (commit_writes s)) (memdisk s) = apply_writes (take ?j (recover_writes ?st ?c)) ?c"
    by simp
  moreover have "log_layout s" using inv(1) by (simp add: log_inv_def)
  then have "?st \<noteq> 1" using one(1) log_start_area by metis
  ultimately show ?thesis
    using crash_inv_step [OF crash_inv_commit_point [OF inv one], of ?j] that by auto
qed

lemma crash_inv_initlog:
  assumes "crash_inv st nl sz sblk new d" "1 < sz" "sb_logstart (decode_sb sblk) = st" "sb_nlog (decode_sb sblk) = nl" "nl < 2 ^ 31"
  shows "\<exists>s'. initlog 1 (boot_state d sz) = Ok s' \<and> lh_n s' = 0 \<and> home_eq st nl (memdisk s') new"
proof -
  have "d 1 = sblk" "log_disk st nl sz d" "home_eq st nl (recovered st d) new" using assms(1) by (simp_all add: crash_inv_def)
  then show ?thesis using initlog_ok [of d sz] assms(2-) by auto
qed

end
