(* ===== verification/Txn.thy ===== *)
theory Txn
  imports Log
begin

text \<open>
  Reading and logging blocks inside a transaction: the interface through which
  the file system (src/xv6/fs.c) sees the buffer cache and the log.  The locale
  \<open>logged_store\<close> extends the cache's interface with a logged store of a block;
  it is interpreted on the code of the log.
\<close>

section \<open>The interface\<close>

locale logged_store = block_store +
  fixes put :: "'b \<Rightarrow> byte list \<Rightarrow> 's \<Rightarrow> 's res" and same :: "'s \<Rightarrow> 's \<Rightarrow> bool" and spare :: "'s \<Rightarrow> nat"
    and home :: "'s \<Rightarrow> nat \<Rightarrow> bool"
  assumes put_ok: "inv s \<Longrightarrow> holds s b n \<Longrightarrow> length d = BSIZE \<Longrightarrow> home s n \<Longrightarrow> 0 < spare s \<Longrightarrow>
      \<exists>s'. put b d s = Ok s' \<and> inv s' \<and> same s s' \<and> view s' = (view s)(n := d) \<and> taken_blocks s' = taken_blocks s
        \<and> (\<forall>c m. holds s' c m = holds s c m) \<and> dirty s' = insert n (dirty s) \<and> spare s \<le> Suc (spare s')"
    and dirty_bound: "inv s \<Longrightarrow> finite (dirty s) \<and> finite (taken_blocks s) \<and> card (dirty s) + spare s < capacity"
    and quiet_same: "quiet s s' \<Longrightarrow> same s s' \<and> spare s' = spare s"
    and same_trans: "same s t \<Longrightarrow> same t u \<Longrightarrow> same s u"
    and same_home: "same s s' \<Longrightarrow> home s' = home s \<and> nblocks s' = nblocks s"
begin

lemma room:
  assumes "inv s" "card (taken_blocks s) \<le> spare s"
  shows "card (insert n (taken_blocks s \<union> dirty s)) \<le> capacity"
proof -
  have "card (insert n (taken_blocks s \<union> dirty s)) \<le> Suc (card (taken_blocks s \<union> dirty s))"
    using dirty_bound [OF assms(1)] by (simp add: card_insert_if)
  also have "\<dots> \<le> Suc (card (taken_blocks s) + card (dirty s))" by (simp add: card_Un_le)
  finally show ?thesis using dirty_bound [OF assms(1)] assms(2) by linarith
qed

text \<open>Taking a block during a transaction.\<close>

lemma take_block:
  assumes "inv s" "n < nblocks s" "n \<notin> taken_blocks s" "card (taken_blocks s) \<le> spare s"
  shows "\<exists>b s'. rd n s = Ok (b, s') \<and> inv s' \<and> quiet s s' \<and> same s s' \<and> spare s' = spare s \<and> view s' = view s
    \<and> holds s' b n \<and> taken_blocks s' = insert n (taken_blocks s) \<and> (\<forall>c m. holds s c m \<longrightarrow> holds s' c m)"
  using rd_ok [OF assms(1-3) room [OF assms(1,4)]] quiet_same quiet_view by meson

text \<open>Replacing the contents of a block that nobody has taken.\<close>

lemma poke:
  assumes "inv s" "n < nblocks s" "n \<notin> taken_blocks s" "card (taken_blocks s) \<le> spare s" "0 < spare s" "home s n"
    and "length d = BSIZE"
  shows "\<exists>b s1 s2 s3. rd n s = Ok (b, s1) \<and> quiet s s1 \<and> holds s1 b n \<and> inv s1 \<and> view s1 = view s \<and> put b d s1 = Ok s2 \<and> rl b s2 = Ok s3
    \<and> inv s3 \<and> same s s3 \<and> view s3 = (view s)(n := d) \<and> taken_blocks s3 = taken_blocks s \<and> spare s \<le> Suc (spare s3)
    \<and> dirty s3 = insert n (dirty s)
    \<and> (\<forall>c m. holds s c m \<longrightarrow> holds s3 c m)"
proof -
  obtain b s1 where r: "rd n s = Ok (b, s1)" "inv s1" "quiet s s1" "same s s1" "spare s1 = spare s" "view s1 = view s"
    "holds s1 b n" "taken_blocks s1 = insert n (taken_blocks s)" "\<forall>c m. holds s c m \<longrightarrow> holds s1 c m"
    using take_block [OF assms(1-4)] by blast
  have "home s1 n" "0 < spare s1" using same_home [OF r(4)] assms r(5) by simp_all
  from put_ok [OF r(2,7) assms(7) this] obtain s2 where p: "put b d s1 = Ok s2" "inv s2" "same s1 s2"
    "view s2 = (view s1)(n := d)" "taken_blocks s2 = taken_blocks s1" "\<forall>c m. holds s2 c m = holds s1 c m"
    "dirty s2 = insert n (dirty s1)" "spare s1 \<le> Suc (spare s2)" by blast
  have "holds s2 b n" using p(6) r(7) by blast
  moreover have "n \<in> dirty s2" using p(7) by simp
  ultimately obtain s3 where l: "rl b s2 = Ok s3" "inv s3" "quiet s2 s3"
    "taken_blocks s3 = taken_blocks s2 - {n}" "\<forall>c m. holds s3 c m \<longleftrightarrow> holds s2 c m \<and> c \<noteq> b"
    using rl_ok [OF p(2)] by blast
  have "c \<noteq> b" if "holds s c m" for c m
    using that r(7,9) holds_inj [OF r(2,7)] holds_taken assms(3) by blast
  then have h: "\<forall>c m. holds s c m \<longrightarrow> holds s3 c m" using l(5) p(6) r(9) by blast
  have t: "taken_blocks s3 = taken_blocks s" using l(4) p(5) r(8) assms(3) by simp
  have "same s s3" using same_trans [OF r(4) same_trans [OF p(3)]] quiet_same [OF l(3)] by blast
  then show ?thesis using r p l h t quiet_same [OF l(3)] quiet_view [OF l(3)] quiet_view [OF r(3)] by auto
qed

end

section \<open>The log provides it\<close>

text \<open>The store that \<open>fs.c\<close> makes: change the data of the buffer, then \<open>log_write\<close>.\<close>

definition put_block :: "nat \<Rightarrow> byte list \<Rightarrow> 'a lstate_scheme \<Rightarrow> 'a lstate_scheme res" where
  "put_block b d s = log_write b (set_bdata b d s)"

definition tx_inv :: "'a lstate_scheme \<Rightarrow> bool" where
  "tx_inv s \<longleftrightarrow> log_inv s \<and> log_outstanding s \<ge> 1 \<and> log_size s \<le> int NBUF"

text \<open>The number of blocks that can still be logged.\<close>

definition log_spare :: "'a lstate_scheme \<Rightarrow> nat" where
  "log_spare s = nat (log_size s - 1 - lh_n s)"

definition home_block :: "'a lstate_scheme \<Rightarrow> nat \<Rightarrow> bool" where
  "home_block s n \<longleftrightarrow> n \<notin> log_area s"

text \<open>What the calls of a transaction leave alone: all but the cache and the list of logged blocks.\<close>

definition tx_same :: "'a lstate_scheme \<Rightarrow> 'a lstate_scheme \<Rightarrow> bool" where
  "tx_same s s' \<longleftrightarrow> (\<exists>bl n. bsame (s\<lparr>lh_block := bl, lh_n := n\<rparr>) s') \<and> memdisk s' = memdisk s \<and> disk_writes s' = disk_writes s"

lemma tx_sameD:
  assumes "tx_same s s'"
  shows "log_start s' = log_start s" "log_size s' = log_size s" "log_outstanding s' = log_outstanding s"
    "log_committing s' = log_committing s" "log_dev s' = log_dev s" "disksize s' = disksize s" "curpid s' = curpid s"
    "lstate.more s' = lstate.more s" "memdisk s' = memdisk s" "disk_writes s' = disk_writes s"
  using assms by (auto simp: tx_same_def dest: bsame_log)

lemma tx_same_iff:
  "tx_same s s' \<longleftrightarrow> log_start s' = log_start s \<and> log_size s' = log_size s \<and> log_outstanding s' = log_outstanding s
     \<and> log_committing s' = log_committing s \<and> log_dev s' = log_dev s \<and> disksize s' = disksize s \<and> curpid s' = curpid s
     \<and> lstate.more s' = lstate.more s \<and> memdisk s' = memdisk s \<and> disk_writes s' = disk_writes s"
proof
  assume r: "log_start s' = log_start s \<and> log_size s' = log_size s \<and> log_outstanding s' = log_outstanding s
     \<and> log_committing s' = log_committing s \<and> log_dev s' = log_dev s \<and> disksize s' = disksize s \<and> curpid s' = curpid s
     \<and> lstate.more s' = lstate.more s \<and> memdisk s' = memdisk s \<and> disk_writes s' = disk_writes s"
  then have "bsame (s\<lparr>lh_block := lh_block s', lh_n := lh_n s'\<rparr>) s'"
    by (cases s; cases s'; simp add: bsame_def)
  with r show "tx_same s s'" by (auto simp: tx_same_def)
qed (blast dest: tx_sameD)

lemma tx_same_refl [simp]: "tx_same s s"
  by (simp add: tx_same_iff)

lemma tx_same_trans: "tx_same s t \<Longrightarrow> tx_same t u \<Longrightarrow> tx_same s u"
  by (simp add: tx_same_iff)

lemma tx_same_home: "tx_same s s' \<Longrightarrow> home_block s' = home_block s \<and> disksize s' = disksize s"
  by (simp add: tx_same_iff home_block_def fun_eq_iff log_area_def)

lemma bquiet_tx:
  fixes s s' :: "'a lstate_scheme"
  assumes "bquiet s s'"
  shows "tx_same s s'" "log_spare s' = log_spare s" "binv s' \<Longrightarrow> tx_inv s \<Longrightarrow> tx_inv s'"
proof -
  note q = bquietD [OF assms] and l = bsame_log [OF bquiet_bsame [OF assms]]
  show "tx_same s s'" "log_spare s' = log_spare s" using q l by (simp_all add: tx_same_iff log_spare_def)
  show "binv s' \<Longrightarrow> tx_inv s \<Longrightarrow> tx_inv s'"
    using q l by (simp add: tx_inv_def log_inv_def log_layout_def logged_def log_area_def)
qed

lemma put_block_ok:
  assumes inv: "tx_inv s" and at: "bat s b n" and len: "length d = BSIZE" and home: "home_block s n" and sp: "0 < log_spare s"
  shows "\<exists>s'. put_block b d s = Ok s' \<and> tx_inv s' \<and> tx_same s s' \<and> bview s' = (bview s)(n := d) \<and> held s' = held s
    \<and> (\<forall>c m. bat s' c m = bat s c m) \<and> dirtyb s' = insert n (dirtyb s) \<and> log_spare s \<le> Suc (log_spare s')"
proof -
  have bi: "binv s" and li: "log_inv s" using inv by (auto simp: tx_inv_def log_inv_def)
  let ?t = "set_bdata b d s"
  note m = set_bdata_ok [OF bi at len]
  have f: "log_start ?t = log_start s" "log_size ?t = log_size s" "log_outstanding ?t = log_outstanding s" "log_dev ?t = log_dev s"
    "lh_n ?t = lh_n s" "lh_block ?t = lh_block s" "disksize ?t = disksize s" "memdisk ?t = memdisk s" "disk_writes ?t = disk_writes s"
    "log_committing ?t = log_committing s" "curpid ?t = curpid s" "lstate.more ?t = lstate.more s"
    by (simp_all add: set_bdata_def upd_buf_def)
  have lt: "log_inv ?t" using li m(1,4) by (simp add: log_inv_def log_layout_def logged_def log_area_def f)
  have "bat ?t b n" using at by (simp add: m(5))
  moreover have "n \<notin> log_area ?t" using home by (simp add: home_block_def log_area_def f)
  moreover have "lh_n ?t < int LOGSIZE" "lh_n ?t < log_size ?t - 1" "log_outstanding ?t \<ge> 1"
    using inv sp by (auto simp: f tx_inv_def log_spare_def layout_simps)
  ultimately obtain s' where w: "log_write b ?t = Ok s'" "log_inv s'" "bview s' = bview ?t" "held s' = held ?t"
    "\<forall>c m. bat s' c m = bat ?t c m" "set (logged s') = insert n (set (logged ?t))"
    "lh_n s' = (if n \<in> set (logged ?t) then lh_n ?t else lh_n ?t + 1)" "memdisk s' = memdisk ?t" "disk_writes s' = disk_writes ?t"
    "\<exists>k bl. bsame (?t\<lparr>lh_block := bl, lh_n := k\<rparr>) s'"
    using log_write_ok [OF lt] by blast
  have ts: "tx_same ?t s'" using w(8-10) by (auto simp: tx_same_def)
  have same: "tx_same s s'" by (rule tx_same_trans [OF _ ts]) (simp add: tx_same_iff f)
  have "tx_inv s'" using inv w(2) tx_sameD [OF same] by (simp add: tx_inv_def)
  moreover have "log_spare s \<le> Suc (log_spare s')" using w(7) tx_sameD [OF same] by (auto simp: log_spare_def f)
  moreover have "dirtyb s' = insert n (dirtyb s)" using w(2,6) lt m(4) by (simp add: log_inv_def)
  ultimately show ?thesis using w same m by (auto simp: put_block_def)
qed

interpretation tx: logged_store "bread 1" brelse tx_inv bview memdisk held dirtyb bat bquiet disksize NBUF
  put_block tx_same log_spare home_block
proof unfold_locales
  fix s :: "'a lstate_scheme" and b n d
  have bi: "binv s" if "tx_inv s" using that by (simp add: tx_inv_def log_inv_def)
  show "\<exists>s'. put_block b d s = Ok s' \<and> tx_inv s' \<and> tx_same s s' \<and> bview s' = (bview s)(n := d) \<and> held s' = held s
      \<and> (\<forall>c m. bat s' c m = bat s c m) \<and> dirtyb s' = insert n (dirtyb s) \<and> log_spare s \<le> Suc (log_spare s')"
    if "tx_inv s" "bat s b n" "length d = BSIZE" "home_block s n" "0 < log_spare s"
    using that by (rule put_block_ok)
  show "finite (dirtyb s) \<and> finite (held s) \<and> card (dirtyb s) + log_spare s < NBUF" if i: "tx_inv s"
  proof -
    have l: "log_layout s" "distinct (logged s)" "dirtyb s = set (logged s)" "log_size s \<le> int NBUF"
      using i by (auto simp: tx_inv_def log_inv_def)
    then have "card (dirtyb s) = nat (lh_n s)" by (simp add: distinct_card length_logged)
    then show ?thesis using l by (auto simp: log_spare_def log_layout_def)
  qed
  show "\<exists>b s'. bread 1 n s = Ok (b, s') \<and> tx_inv s' \<and> bquiet s s' \<and> bat s' b n \<and> held s' = insert n (held s)
      \<and> (\<forall>c m. bat s c m \<longrightarrow> bat s' c m)"
    if "tx_inv s" "n < disksize s" "n \<notin> held s" "card (insert n (held s \<union> dirtyb s)) \<le> NBUF"
    using bread_ok [OF bi that(2-4)] that(1) bquiet_tx(3) by blast
  show "\<exists>s'. brelse b s = Ok s' \<and> tx_inv s' \<and> bquiet s s' \<and> held s' = held s - {n} \<and> (\<forall>c m. bat s' c m \<longleftrightarrow> bat s c m \<and> c \<noteq> b)"
    if "tx_inv s" "bat s b n" "n \<in> dirtyb s \<or> bview s n = memdisk s n"
    using brelse_ok [OF bi that(2,3)] that(1) bquiet_tx(3) by blast
  show "n \<in> dirtyb s \<or> bview s n = memdisk s n" if "tx_inv s" "n \<notin> held s"
    using bview_clean [OF bi] that by blast
qed (auto intro: bquiet_trans tx_same_trans bquiet_tx bat_held simp: bquietD bat_def dest: tx_same_home)

text \<open>
  A step of a transaction: the invariant holds again, the reader sees \<open>v\<close>, the blocks \<open>D\<close> have been logged, and the
  buffers held are the same.
\<close>

definition tx_step :: "'a lstate_scheme \<Rightarrow> 'a lstate_scheme \<Rightarrow> (nat \<Rightarrow> byte list) \<Rightarrow> nat set \<Rightarrow> bool" where
  "tx_step s s' v D \<longleftrightarrow> tx_inv s' \<and> tx_same s s' \<and> bview s' = v \<and> held s' = held s \<and> dirtyb s' = dirtyb s \<union> D
     \<and> (\<forall>c m. bat s c m \<longrightarrow> bat s' c m)"

lemma tx_stepD:
  assumes "tx_step s s' v D"
  shows "tx_inv s'" "tx_same s s'" "bview s' = v" "held s' = held s" "dirtyb s' = dirtyb s \<union> D" "bat s c m \<Longrightarrow> bat s' c m"
  using assms by (simp_all add: tx_step_def)

lemma tx_step_trans:
  assumes "tx_step s t v D" "tx_step t u w E"
  shows "tx_step s u w (D \<union> E)"
  using assms tx_same_trans by (auto simp: tx_step_def Un_assoc)

lemma tx_inv_binv: "tx_inv s \<Longrightarrow> binv s"
  by (simp add: tx_inv_def log_inv_def)

lemma log_spare_dirty:
  assumes "tx_inv s"
  shows "card (dirtyb s) + log_spare s = nat (log_size s) - 1" "finite (dirtyb s)"
proof -
  have l: "log_layout s" "distinct (logged s)" "set (logged s) = dirtyb s" using assms by (auto simp: tx_inv_def log_inv_def)
  then have "card (dirtyb s) = nat (lh_n s)" using distinct_card [OF l(2)] length_logged [OF l(1)] by simp
  then show "card (dirtyb s) + log_spare s = nat (log_size s) - 1" using l(1) by (auto simp: log_spare_def log_layout_def)
  show "finite (dirtyb s)" using l(3) by (metis List.finite_set)
qed

lemma tx_step_spare:
  assumes "tx_inv s" "tx_step s s' v D" "finite D"
  shows "log_spare s \<le> log_spare s' + card D"
proof -
  note d = tx_stepD [OF assms(2)]
  have "card (dirtyb s') \<le> card (dirtyb s) + card D" unfolding d(5) by (rule card_Un_le)
  then show ?thesis using log_spare_dirty(1) [OF assms(1)] log_spare_dirty(1) [OF d(1)] tx_sameD(2) [OF d(2)] by linarith
qed

lemma tx_step_quiet: "tx_inv s \<Longrightarrow> tx_step s s' v {} \<Longrightarrow> log_spare s' = log_spare s"
  using log_spare_dirty(1) [of s] log_spare_dirty(1) [of s'] by (simp add: tx_step_def tx_same_iff)

text \<open>The two patterns of \<open>fs.c\<close>: look at a block, and change a block.\<close>

lemma peek_data:
  assumes "tx_inv s" "n < disksize s" "n \<notin> held s" "card (held s) \<le> log_spare s"
  shows "\<exists>b s1 s2. bread 1 n s = Ok (b, s1) \<and> b_data (bufs s1 b) = bview s n \<and> tx_same s s1 \<and> brelse b s1 = Ok s2
    \<and> tx_step s s2 (bview s) {}"
proof -
  obtain b s1 s2 where p: "bread 1 n s = Ok (b, s1)" "tx_inv s1" "bquiet s s1" "bat s1 b n" "bview s1 = bview s"
    "brelse b s1 = Ok s2" "tx_inv s2" "bquiet s s2" "held s2 = held s" "\<forall>c m. bat s c m \<longrightarrow> bat s2 c m"
    using tx.peek [OF assms(1-3) tx.room [OF assms(1,4)]] by blast
  then show ?thesis
    using bview_bat [OF tx_inv_binv [OF p(2)] p(4)] bquiet_tx(1) [OF p(3)] bquiet_tx(1) [OF p(8)] bquietD(5,6) [OF p(8)]
    by (intro exI [of _ b] exI [of _ s1] exI [of _ s2]) (simp add: tx_step_def)
qed

lemma poke_data:
  assumes "tx_inv s" "n < disksize s" "n \<notin> held s" "card (held s) \<le> log_spare s" "0 < log_spare s" "home_block s n"
    and "length d = BSIZE"
  shows "\<exists>b s1 s2 s3. bread 1 n s = Ok (b, s1) \<and> b_data (bufs s1 b) = bview s n \<and> tx_same s s1 \<and> put_block b d s1 = Ok s2
    \<and> brelse b s2 = Ok s3 \<and> tx_step s s3 ((bview s)(n := d)) {n}"
proof -
  obtain b s1 s2 s3 where p: "bread 1 n s = Ok (b, s1)" "bquiet s s1" "bat s1 b n" "tx_inv s1" "bview s1 = bview s"
    "put_block b d s1 = Ok s2" "brelse b s2 = Ok s3" "tx_inv s3" "tx_same s s3" "bview s3 = (bview s)(n := d)" "held s3 = held s"
    "dirtyb s3 = insert n (dirtyb s)" "\<forall>c m. bat s c m \<longrightarrow> bat s3 c m"
    using tx.poke [OF assms] by blast
  then show ?thesis
    using bview_bat [OF tx_inv_binv [OF p(4)] p(3)] bquiet_tx [OF p(2)]
    by (intro exI [of _ b] exI [of _ s1] exI [of _ s2] exI [of _ s3]) (simp add: tx_step_def)
qed

lemma put_release:
  assumes "tx_inv s" "bat s b n" "length d = BSIZE" "home_block s n" "0 < log_spare s"
  shows "\<exists>s1 s2. put_block b d s = Ok s1 \<and> brelse b s1 = Ok s2 \<and> tx_inv s2 \<and> tx_same s s2 \<and> bview s2 = (bview s)(n := d)
    \<and> held s2 = held s - {n} \<and> dirtyb s2 = insert n (dirtyb s)"
proof -
  obtain s1 where p: "put_block b d s = Ok s1" "tx_inv s1" "tx_same s s1" "bview s1 = (bview s)(n := d)" "held s1 = held s"
    "\<forall>c m. bat s1 c m = bat s c m" "dirtyb s1 = insert n (dirtyb s)"
    using tx.put_ok [OF assms] by blast
  have "bat s1 b n" "n \<in> dirtyb s1" using p(6,7) assms(2) by simp_all
  then obtain s2 where r: "brelse b s1 = Ok s2" "tx_inv s2" "bquiet s1 s2" "held s2 = held s1 - {n}"
    using tx.rl_ok [OF p(2)] by blast
  then show ?thesis using p tx_same_trans [OF p(3) bquiet_tx(1) [OF r(3)]] bquietD(5,6) [OF r(3)] by auto
qed

section \<open>Crash safety\<close>

text \<open>A concrete transaction: one block logged on a small disk with the log at blocks 2 to 31.\<close>

definition demo_disk :: "nat \<Rightarrow> byte list" where
  "demo_disk n = (if n = 1 then put_uint 3 30 (put_uint 4 2 (replicate BSIZE 0)) else replicate BSIZE 0)"

definition demo_log :: lstate where
  "demo_log = (boot_state demo_disk 40)\<lparr>log_start := 2, log_size := 30, log_dev := 1, log_outstanding := 1\<rparr>"

lemma demo_disk:
  "length (demo_disk n) = BSIZE" "get_uint (demo_disk 2) 0 = 0" "sb_logstart (decode_sb (demo_disk 1)) = 2"
  "sb_nlog (decode_sb (demo_disk 1)) = 30"
  by (simp_all add: demo_disk_def decode_sb_def get_put_uint layout_simps)

lemma demo_log:
  "binv demo_log" "held demo_log = {}" "dirtyb demo_log = {}" "memdisk demo_log = demo_disk" "disksize demo_log = 40"
  "bview demo_log = demo_disk" "length (lh_block demo_log) = LOGSIZE" "lh_n demo_log = 0" "log_inv demo_log"
proof -
  let ?b = "boot_state demo_disk 40"
  note b = boot_state [of 40 demo_disk, OF demo_disk(1)]
  have n: "lh_n ?b = 0"
    by (simp add: boot_state_def binit_ok(5) [THEN bsame_log(6)] demo_disk(1))
  show c: "binv demo_log" "held demo_log = {}" "dirtyb demo_log = {}" "memdisk demo_log = demo_disk" "disksize demo_log = 40"
    "bview demo_log = demo_disk" "length (lh_block demo_log) = LOGSIZE" "lh_n demo_log = 0"
    using b n by (simp_all add: demo_log_def)
  show "log_inv demo_log"
    using c demo_disk(2) by (simp add: log_inv_def log_layout_def logged_def demo_log_def)
qed

lemma demo_transaction:
  "\<exists>s :: lstate. log_inv s \<and> held s = {} \<and> lh_n s = 1 \<and> set (logged s) = {35} \<and> memdisk s = demo_disk \<and> disksize s = 40
     \<and> log_start s = 2 \<and> log_size s = 30 \<and> bview s = demo_disk(35 := replicate BSIZE 7)"
proof -
  have "tx_inv demo_log" "log_spare demo_log = 29"
    using demo_log by (simp_all add: tx_inv_def log_spare_def) (simp_all add: demo_log_def layout_simps)
  moreover have "home_block demo_log 35" by (simp add: home_block_def log_area_def demo_log_def)
  ultimately obtain s where s: "tx_inv s" "tx_same demo_log s" "bview s = (bview demo_log)(35 := replicate BSIZE 7)"
    "held s = held demo_log" "dirtyb s = insert 35 (dirtyb demo_log)"
    using tx.poke [of demo_log 35 "replicate BSIZE 7"] demo_log by auto
  have l: "log_inv s" "log_layout s" "set (logged s) = {35}" "distinct (logged s)"
    using s(1,5) demo_log(3) by (auto simp: tx_inv_def log_inv_def)
  have "nat (lh_n s) = 1" using distinct_card [OF l(4)] length_logged [OF l(2)] l(3) by simp
  then have "lh_n s = 1" by simp
  then show ?thesis
    using l s demo_log tx_sameD [OF s(2)] by (intro exI [of _ s]) (simp add: demo_log_def)
qed

text \<open>
  C1. Commit is atomic under crashes.  In every state of the log with a
  transaction to commit, \<open>commit\<close> returns and the blocks outside the log area
  hold the new contents; and if the machine stops after any number of the disk
  writes it makes, and recovery at boot is itself interrupted any number of
  times after any number of its own writes, then the next boot's \<open>initlog\<close>
  returns with an empty log and a disk whose blocks outside the log area are
  all as before the transaction or all as after it.
\<close>

theorem commit_crash_safe:
  assumes inv: "log_inv s" "held s = {}" and sz: "disksize s \<le> 2 ^ 32" "1 < disksize s" and pos: "lh_n s > 0"
    and size: "log_size s \<le> int NBUF" and one: "1 \<notin> log_area s" "1 \<notin> set (logged s)"
    and sb: "sb_logstart (decode_sb (memdisk s 1)) = log_start s" "int (sb_nlog (decode_sb (memdisk s 1))) = log_size s"
  shows "\<exists>s' ws. commit s = Ok s' \<and> disk_writes s' = disk_writes s @ ws \<and> lh_n s' = 0
    \<and> home_eq (log_start s) (nat (log_size s)) (memdisk s') (bview s)
    \<and> (\<forall>k d. reboots (log_start s) (apply_writes (take k ws) (memdisk s)) d \<longrightarrow>
         (\<exists>r. initlog 1 (boot_state d (disksize s)) = Ok r \<and> lh_n r = 0
            \<and> (home_eq (log_start s) (nat (log_size s)) (memdisk r) (memdisk s)
               \<or> home_eq (log_start s) (nat (log_size s)) (memdisk r) (bview s))))"
proof -
  let ?st = "log_start s" and ?nl = "nat (log_size s)"
  have lay: "log_layout s" using inv(1) by (simp add: log_inv_def)
  then have n: "nat (lh_n s) + 1 \<le> NBUF" "?nl < 2 ^ 31" "sb_nlog (decode_sb (memdisk s 1)) = ?nl"
    using size sb(2) by (auto simp: log_layout_def layout_simps)
  obtain s' where c: "commit s = Ok s'" "wrote (s\<lparr>lh_n := 0\<rparr>) s' (commit_writes s)"
    using commit_ok [OF inv n(1) pos] by blast
  have st: "?st \<noteq> 1" using one(1) log_start_area [OF lay] by metis
  have crash: "\<exists>r. initlog 1 (boot_state d (disksize s)) = Ok r \<and> lh_n r = 0
      \<and> (home_eq ?st ?nl (memdisk r) (memdisk s) \<or> home_eq ?st ?nl (memdisk r) (bview s))"
    if "reboots ?st (apply_writes (take k (commit_writes s)) (memdisk s)) d" for k d
  proof -
    obtain new where new: "new \<in> {memdisk s, bview s}" and
      i: "crash_inv ?st ?nl (disksize s) (memdisk s 1) new (apply_writes (take k (commit_writes s)) (memdisk s))"
      by (rule crash_inv_commit [OF inv sz(1) one])
    from crash_inv_initlog [OF crash_inv_reboots [OF that i st] sz(2) sb(1) n(3,2)] new show ?thesis by auto
  qed
  have "memdisk s' = apply_writes (recover_writes ?st (commit_point s)) (commit_point s)"
    using wroteD(4) [OF c(2)] by (simp add: commit_writes_split [OF inv sz(1)] commit_point_def)
  then have "home_eq ?st ?nl (memdisk s') (bview s)"
    using recovered_commit_point [OF inv sz(1)] by (simp add: recovered_def)
  moreover have "disk_writes s' = disk_writes s @ commit_writes s" "lh_n s' = 0"
    using wroteD(5) [OF c(2)] bsame_log(6) [OF wroteD(2) [OF c(2)]] by simp_all
  ultimately show ?thesis using c(1) crash by blast
qed


theorem commit_crash_safe_witness:
  "\<exists>(s :: lstate) ws s'. bview s 35 = replicate BSIZE 7 \<and> memdisk s 35 = replicate BSIZE 0 \<and> commit s = Ok s'
     \<and> disk_writes s' = disk_writes s @ ws
     \<and> (\<forall>k. \<exists>r. initlog 1 (boot_state (apply_writes (take k ws) (memdisk s)) 40) = Ok r
          \<and> memdisk r 35 \<in> {replicate BSIZE 0, replicate BSIZE 7})"
proof -
  obtain s :: lstate where s: "log_inv s" "held s = {}" "lh_n s = 1" "set (logged s) = {35}" "memdisk s = demo_disk" "disksize s = 40"
    "log_start s = 2" "log_size s = 30" "bview s = demo_disk(35 := replicate BSIZE 7)"
    using demo_transaction by blast
  have "1 \<notin> log_area s" using s by (simp add: log_area_def)
  then obtain s' ws where c: "commit s = Ok s'" "disk_writes s' = disk_writes s @ ws"
    "\<forall>k d. reboots (log_start s) (apply_writes (take k ws) (memdisk s)) d \<longrightarrow>
       (\<exists>r. initlog 1 (boot_state d (disksize s)) = Ok r \<and> lh_n r = 0
          \<and> (home_eq (log_start s) (nat (log_size s)) (memdisk r) (memdisk s)
             \<or> home_eq (log_start s) (nat (log_size s)) (memdisk r) (bview s)))"
    using commit_crash_safe [OF s(1,2)] s demo_disk(3,4) by (auto simp: layout_simps)
  have "\<exists>r. initlog 1 (boot_state (apply_writes (take k ws) (memdisk s)) 40) = Ok r
      \<and> memdisk r 35 \<in> {replicate BSIZE 0, replicate BSIZE 7}" for k
    using c(3) [rule_format, OF reboots_none, of k] s by (auto simp: home_eq_def demo_disk_def)
  then show ?thesis using c s by (intro exI [of _ s] exI [of _ ws] exI [of _ s']) (simp add: demo_disk_def)
qed

end
