(* ===== verification/Fs_Blocks.thy ===== *)
theory Fs_Blocks
  imports Txn
begin

text \<open>
  The block allocator of src/xv6/fs.c: \<open>bzero\<close>, \<open>balloc\<close> and \<open>bfree\<close> over the
  free-block bitmap, and the file system's state, which extends the log's with
  the superblock and the inode cache.
\<close>

unbundle bit_operations_syntax

section \<open>State\<close>

text \<open>\<open>struct inode\<close> of file.h; the \<open>short\<close> fields are integers, their 16 bits are taken when they are stored.\<close>

record inode =
  i_dev :: nat
  i_inum :: nat
  i_ref :: int
  i_lock :: sleeplock
  i_valid :: bool
  i_type :: int
  i_major :: int
  i_minor :: int
  i_nlink :: int
  i_size :: nat
  i_addrs :: "nat list"

text \<open>\<open>fs_sb\<close> is the global \<open>sb\<close>, \<open>inodes\<close> is \<open>icache.inode\<close>.\<close>

record fstate = lstate +
  fs_sb :: superblock
  inodes :: "nat \<Rightarrow> inode"

section \<open>Operations\<close>

definition BBLOCK :: "nat \<Rightarrow> superblock \<Rightarrow> nat" where
  "BBLOCK b sb = b div BPB + sb_bmapstart sb"

definition IBLOCK :: "nat \<Rightarrow> superblock \<Rightarrow> nat" where
  "IBLOCK i sb = i div IPB + sb_inodestart sb"

definition bzero :: "nat \<Rightarrow> nat \<Rightarrow> 'a lstate_scheme \<Rightarrow> 'a lstate_scheme res" where
  "bzero dev bno s =
     bindr (bread dev bno s) (\<lambda>(bp, s).
     bindr (put_block bp (replicate BSIZE 0) s) (\<lambda>s.
       brelse bp s))"

text \<open>The byte and the mask of bit \<open>bi\<close> of a bitmap block.\<close>

definition bit_mask :: "nat \<Rightarrow> byte" where
  "bit_mask bi = push_bit (bi mod 8) 1"

fun balloc_bits :: "nat list \<Rightarrow> nat \<Rightarrow> nat \<Rightarrow> byte list \<Rightarrow> nat option" where
  "balloc_bits [] b sz d = None"
| "balloc_bits (bi # bis) b sz d =
     (if \<not> b + bi < sz then None
      else if d ! (bi div 8) AND bit_mask bi = 0 then Some bi
      else balloc_bits bis b sz d)"

fun balloc_loop :: "nat list \<Rightarrow> nat \<Rightarrow> 'a fstate_scheme \<Rightarrow> (nat \<times> 'a fstate_scheme) res" where
  "balloc_loop [] dev s = Err (Panic ''balloc: out of blocks'')"
| "balloc_loop (b # bs) dev s =
     bindr (bread dev (BBLOCK b (fs_sb s)) s) (\<lambda>(bp, s).
       let d = b_data (bufs s bp) in
       case balloc_bits [0..<BPB] b (sb_size (fs_sb s)) d of
         Some bi \<Rightarrow>
           bindr (put_block bp (d[bi div 8 := d ! (bi div 8) OR bit_mask bi]) s) (\<lambda>s.
           bindr (brelse bp s) (\<lambda>s.
           bindr (bzero dev (b + bi) s) (\<lambda>s.
             Ok (b + bi, s))))
       | None \<Rightarrow> bindr (brelse bp s) (\<lambda>s. balloc_loop bs dev s))"

text \<open>The values of \<open>b\<close> in the outer loop: the multiples of \<open>BPB\<close> below \<open>sb.size\<close>.\<close>

definition balloc :: "nat \<Rightarrow> 'a fstate_scheme \<Rightarrow> (nat \<times> 'a fstate_scheme) res" where
  "balloc dev s = balloc_loop (map (\<lambda>i. i * BPB) [0..<(sb_size (fs_sb s) + BPB - 1) div BPB]) dev s"

definition bfree :: "nat \<Rightarrow> nat \<Rightarrow> 'a fstate_scheme \<Rightarrow> 'a fstate_scheme res" where
  "bfree dev b s =
     bindr (readsb dev s) (\<lambda>(sb, s).
       let s = s\<lparr>fs_sb := sb\<rparr> in
       bindr (bread dev (BBLOCK b (fs_sb s)) s) (\<lambda>(bp, s).
         let bi = b mod BPB; d = b_data (bufs s bp) in
         if d ! (bi div 8) AND bit_mask bi = 0 then Err (Panic ''freeing free block'')
         else bindr (put_block bp (d[bi div 8 := d ! (bi div 8) AND NOT (bit_mask bi)]) s) (\<lambda>s.
           brelse bp s)))"

section \<open>The bitmap\<close>

lemma and_bit_mask: "x AND bit_mask bi = 0 \<longleftrightarrow> \<not> bit x (bi mod 8)"
  by (simp add: bit_mask_def and_exp_eq_0_iff_not_bit)

lemma bit_or_mask: "bit (x OR bit_mask bi) k \<longleftrightarrow> bit x k \<or> k = bi mod 8"
  by (auto simp: bit_mask_def bit_or_iff bit_exp_iff possible_bit_word)

lemma bit_and_not_mask: "bit (x AND NOT (bit_mask bi)) k \<longleftrightarrow> bit x k \<and> k \<noteq> bi mod 8"
  by (auto simp: bit_mask_def bit_and_iff bit_not_iff bit_exp_iff possible_bit_word dest: bit_imp_le_length)

text \<open>Block \<open>n\<close> is marked in use in the bitmap of the disk \<open>d\<close>.\<close>

definition used :: "superblock \<Rightarrow> (nat \<Rightarrow> byte list) \<Rightarrow> nat \<Rightarrow> bool" where
  "used sb d n \<longleftrightarrow> bit (d (BBLOCK n sb) ! (n mod BPB div 8)) (n mod 8)"

definition mark :: "superblock \<Rightarrow> nat \<Rightarrow> (nat \<Rightarrow> byte list) \<Rightarrow> nat \<Rightarrow> byte list" where
  "mark sb n d = d(BBLOCK n sb := (d (BBLOCK n sb))[n mod BPB div 8 := d (BBLOCK n sb) ! (n mod BPB div 8) OR bit_mask n])"

definition unmark :: "superblock \<Rightarrow> nat \<Rightarrow> (nat \<Rightarrow> byte list) \<Rightarrow> nat \<Rightarrow> byte list" where
  "unmark sb n d = d(BBLOCK n sb := (d (BBLOCK n sb))[n mod BPB div 8 := d (BBLOCK n sb) ! (n mod BPB div 8) AND NOT (bit_mask n)])"

lemma bpb_mod_8: "n mod BPB mod 8 = n mod 8"
  by (simp add: layout_simps mod_mod_cancel)

lemma bpb_byte_lt: "n mod BPB div 8 < BSIZE"
  by (simp add: layout_simps div_less_iff_less_mult)

text \<open>Two blocks have the same bit only if they are the same block.\<close>

lemma bit_position_inj:
  assumes "BBLOCK m sb = BBLOCK n sb" "m mod BPB div 8 = n mod BPB div 8" "m mod 8 = n mod 8"
  shows "m = n"
proof -
  have "m mod BPB = n mod BPB" using assms(2,3) bpb_mod_8 by (metis div_mult_mod_eq)
  moreover have "m div BPB = n div BPB" using assms(1) by (simp add: BBLOCK_def)
  ultimately show ?thesis by (metis div_mult_mod_eq)
qed

lemma used_mark:
  assumes "length (d (BBLOCK n sb)) = BSIZE"
  shows "used sb (mark sb n d) m \<longleftrightarrow> used sb d m \<or> m = n"
proof (cases "BBLOCK m sb = BBLOCK n sb \<and> m mod BPB div 8 = n mod BPB div 8")
  case True
  then show ?thesis using assms bpb_byte_lt [of n] bit_position_inj [of m sb n]
    by (auto simp: used_def mark_def bit_or_mask)
next
  case False
  then show ?thesis using assms by (auto simp: used_def mark_def nth_list_update)
qed

lemma used_unmark:
  assumes "length (d (BBLOCK n sb)) = BSIZE"
  shows "used sb (unmark sb n d) m \<longleftrightarrow> used sb d m \<and> m \<noteq> n"
proof (cases "BBLOCK m sb = BBLOCK n sb \<and> m mod BPB div 8 = n mod BPB div 8")
  case True
  then show ?thesis using assms bpb_byte_lt [of n] bit_position_inj [of m sb n]
    by (auto simp: used_def unmark_def bit_and_not_mask)
next
  case False
  then show ?thesis using assms by (auto simp: used_def unmark_def nth_list_update)
qed

lemma length_mark [simp]:
  "length (mark sb n d m) = length (d m)" "length (unmark sb n d m) = length (d m)"
  by (simp_all add: mark_def unmark_def)

text \<open>The scan of one bitmap block finds its first free block.\<close>

lemma all_from_Suc: "(\<forall>i :: nat. k \<le> i \<and> R i \<longrightarrow> Q i) \<longleftrightarrow> (R k \<longrightarrow> Q k) \<and> (\<forall>i. Suc k \<le> i \<and> R i \<longrightarrow> Q i)"
  by (metis Suc_leD Suc_leI le_neq_implies_less order_refl)

lemma balloc_bits_None:
  "balloc_bits [k..<m] b sz d = None \<longleftrightarrow> (\<forall>bi. k \<le> bi \<and> bi < m \<and> b + bi < sz \<longrightarrow> bit (d ! (bi div 8)) (bi mod 8))"
proof (induction "m - k" arbitrary: k)
  case (Suc j)
  then have u: "[k..<m] = k # [Suc k..<m]" and km: "k < m" by (simp_all add: upt_conv_Cons)
  have ih: "balloc_bits [Suc k..<m] b sz d = None \<longleftrightarrow>
      (\<forall>bi. Suc k \<le> bi \<and> bi < m \<and> b + bi < sz \<longrightarrow> bit (d ! (bi div 8)) (bi mod 8))"
    using Suc by simp
  show ?case
  proof (cases "b + k < sz")
    case True
    then show ?thesis unfolding all_from_Suc [of k "\<lambda>i. i < m \<and> b + i < sz"] u using ih km by (simp add: and_bit_mask)
  next
    case False
    then show ?thesis unfolding u by auto
  qed
qed auto

lemma balloc_bits_Some:
  assumes "balloc_bits [k..<m] b sz d = Some bi"
  shows "k \<le> bi" "bi < m" "b + bi < sz" "\<not> bit (d ! (bi div 8)) (bi mod 8)"
    "\<forall>j. k \<le> j \<and> j < bi \<longrightarrow> bit (d ! (j div 8)) (j mod 8)"
proof -
  have "k \<le> bi \<and> bi < m \<and> b + bi < sz \<and> \<not> bit (d ! (bi div 8)) (bi mod 8) \<and> (\<forall>j. k \<le> j \<and> j < bi \<longrightarrow> bit (d ! (j div 8)) (j mod 8))"
    using assms
  proof (induction "m - k" arbitrary: k)
    case (Suc j)
    then have u: "[k..<m] = k # [Suc k..<m]" and km: "k < m" by (simp_all add: upt_conv_Cons)
    show ?case
    proof (cases "bit (d ! (k div 8)) (k mod 8)")
      case True
      then have "balloc_bits [Suc k..<m] b sz d = Some bi" using Suc.prems unfolding u by (simp add: and_bit_mask split: if_splits)
      moreover have "j = m - Suc k" using Suc.hyps(2) by simp
      ultimately show ?thesis using Suc.hyps(1) [of "Suc k"] True unfolding all_from_Suc [of k] by auto
    next
      case False
      then show ?thesis using Suc.prems km unfolding u by (auto simp: and_bit_mask split: if_splits)
    qed
  qed simp
  then show "k \<le> bi" "bi < m" "b + bi < sz" "\<not> bit (d ! (bi div 8)) (bi mod 8)"
    "\<forall>j. k \<le> j \<and> j < bi \<longrightarrow> bit (d ! (j div 8)) (j mod 8)"
    by blast+
qed

section \<open>The layout of the disk\<close>

text \<open>The first data block: behind the boot block, the superblock, the log, the inodes and the bitmap.\<close>

definition data_start :: "superblock \<Rightarrow> nat" where
  "data_start sb = sb_bmapstart sb + sb_size sb div BPB + 1"

definition fs_layout :: "'a fstate_scheme \<Rightarrow> bool" where
  "fs_layout s \<longleftrightarrow> sb_size (fs_sb s) \<le> disksize s \<and> decode_sb (bview s 1) = fs_sb s
     \<and> data_start (fs_sb s) \<le> sb_size (fs_sb s) \<and> log_area s \<subseteq> {2..<sb_inodestart (fs_sb s)}
     \<and> 2 \<le> sb_inodestart (fs_sb s) \<and> sb_inodestart (fs_sb s) + sb_ninodes (fs_sb s) div IPB < sb_bmapstart (fs_sb s)
     \<and> (\<forall>n < data_start (fs_sb s). used (fs_sb s) (bview s) n)"

text \<open>A state of a transaction in which the running process holds only data blocks that are in use.\<close>

definition fs_tx :: "'a fstate_scheme \<Rightarrow> bool" where
  "fs_tx s \<longleftrightarrow> tx_inv s \<and> fs_layout s \<and> (\<forall>n \<in> held s. data_start (fs_sb s) \<le> n \<and> n < sb_size (fs_sb s) \<and> used (fs_sb s) (bview s) n)"

text \<open>The weaker condition that freeing a block needs: the blocks held are data blocks.\<close>

definition fs_base :: "'a fstate_scheme \<Rightarrow> bool" where
  "fs_base s \<longleftrightarrow> tx_inv s \<and> fs_layout s \<and> (\<forall>n \<in> held s. data_start (fs_sb s) \<le> n)"

lemma fs_tx_base: "fs_tx s \<Longrightarrow> fs_base s"
  by (simp add: fs_tx_def fs_base_def)

lemma fs_same:
  fixes s s' :: "'a fstate_scheme"
  assumes "tx_same s s'"
  shows "fs_sb s' = fs_sb s" "inodes s' = inodes s" "fstate.more s' = fstate.more s" "disksize s' = disksize s" "log_area s' = log_area s"
    "curpid s' = curpid s" "memdisk s' = memdisk s"
  using tx_sameD [OF assms] by (cases s; cases s'; simp add: log_area_def)+

lemma BBLOCK_range:
  assumes "fs_layout s" "n < sb_size (fs_sb s)"
  shows "BBLOCK n (fs_sb s) < data_start (fs_sb s)" "sb_bmapstart (fs_sb s) \<le> BBLOCK n (fs_sb s)" "BBLOCK n (fs_sb s) < disksize s"
    "home_block s (BBLOCK n (fs_sb s))" "BBLOCK n (fs_sb s) \<noteq> 1"
proof -
  have "n div BPB \<le> sb_size (fs_sb s) div BPB" using assms(2) by (simp add: div_le_mono)
  then show a: "BBLOCK n (fs_sb s) < data_start (fs_sb s)" "sb_bmapstart (fs_sb s) \<le> BBLOCK n (fs_sb s)"
    by (simp_all add: BBLOCK_def data_start_def)
  then show "BBLOCK n (fs_sb s) < disksize s" "home_block s (BBLOCK n (fs_sb s))" "BBLOCK n (fs_sb s) \<noteq> 1"
    using assms(1) by (auto simp: fs_layout_def home_block_def)
qed

lemma data_block:
  assumes "fs_layout s" "data_start (fs_sb s) \<le> n" "n < sb_size (fs_sb s)"
  shows "n < disksize s" "home_block s n" "n \<noteq> 1" "n \<noteq> BBLOCK m (fs_sb s) \<or> sb_size (fs_sb s) \<le> m"
proof -
  show "n < disksize s" "home_block s n" "n \<noteq> 1"
    using assms by (auto simp: fs_layout_def home_block_def data_start_def)
  show "n \<noteq> BBLOCK m (fs_sb s) \<or> sb_size (fs_sb s) \<le> m"
    using assms BBLOCK_range(1) [OF assms(1), of m] by linarith
qed

lemma chunk_bit:
  assumes "bi < BPB"
  shows "bit (d (BBLOCK (k * BPB) sb) ! (bi div 8)) (bi mod 8) \<longleftrightarrow> used sb d (k * BPB + bi)"
    "BBLOCK (k * BPB + bi) sb = BBLOCK (k * BPB) sb" "(k * BPB + bi) mod BPB div 8 = bi div 8" "bit_mask (k * BPB + bi) = bit_mask bi"
proof -
  have m: "(k * BPB + bi) mod BPB = bi" "(k * BPB + bi) mod 8 = bi mod 8" and d: "(k * BPB + bi) div BPB = k"
    using assms bpb_mod_8 [of "k * BPB + bi"] by simp_all
  then show "BBLOCK (k * BPB + bi) sb = BBLOCK (k * BPB) sb" "(k * BPB + bi) mod BPB div 8 = bi div 8"
    "bit_mask (k * BPB + bi) = bit_mask bi"
    by (simp_all add: BBLOCK_def bit_mask_def)
  then show "bit (d (BBLOCK (k * BPB) sb) ! (bi div 8)) (bi mod 8) \<longleftrightarrow> used sb d (k * BPB + bi)"
    using m by (simp add: used_def)
qed

lemma bzero_ok:
  assumes "tx_inv s" "n < disksize s" "n \<notin> held s" "card (held s) \<le> log_spare s" "0 < log_spare s" "home_block s n"
  shows "\<exists>s'. bzero 1 n s = Ok s' \<and> tx_step s s' ((bview s)(n := replicate BSIZE 0)) {n}"
  using poke_data [OF assms, of "replicate BSIZE 0"] by (auto simp: bzero_def)

section \<open>Allocating and freeing\<close>

definition first_free :: "superblock \<Rightarrow> (nat \<Rightarrow> byte list) \<Rightarrow> nat \<Rightarrow> bool" where
  "first_free sb d n \<longleftrightarrow> n < sb_size sb \<and> \<not> used sb d n \<and> (\<forall>m < n. used sb d m)"

lemma fs_tx_same:
  assumes "fs_tx s" "tx_step s s' (bview s) D"
  shows "fs_tx s'"
  using assms tx_stepD [OF assms(2)] fs_same [OF tx_stepD(2) [OF assms(2)]] by (simp add: fs_tx_def fs_layout_def)

lemma fs_base_same:
  assumes "fs_base s" "tx_step s s' (bview s) D"
  shows "fs_base s'"
  using assms tx_stepD [OF assms(2)] fs_same [OF tx_stepD(2) [OF assms(2)]] by (simp add: fs_base_def fs_layout_def)

lemma balloc_bits_SomeI:
  assumes "bi < m" "b + bi < sz" "\<not> bit (d ! (bi div 8)) (bi mod 8)" "\<And>j. j < bi \<Longrightarrow> bit (d ! (j div 8)) (j mod 8)"
  shows "balloc_bits [0..<m] b sz d = Some bi"
proof (cases "balloc_bits [0..<m] b sz d")
  case None
  then show ?thesis using assms(1-3) unfolding balloc_bits_None by blast
next
  case (Some c)
  note c = balloc_bits_Some [OF Some]
  have "\<not> c < bi" using c(4) assms(4) by blast
  moreover have "\<not> bi < c" using c(5) assms(3) by blast
  ultimately show ?thesis using Some by simp
qed

text \<open>A bitmap block without a free block is passed over.\<close>

lemma balloc_chunk_full:
  assumes "fs_tx s" "card (held s) \<le> log_spare s" "k * BPB < sb_size (fs_sb s)"
    "\<forall>bi < BPB. k * BPB + bi < sb_size (fs_sb s) \<longrightarrow> used (fs_sb s) (bview s) (k * BPB + bi)"
  shows "\<exists>s'. balloc_loop (k * BPB # bs) 1 s = balloc_loop bs 1 s' \<and> tx_step s s' (bview s) {} \<and> fs_tx s'"
proof -
  let ?sb = "fs_sb s" and ?bb = "BBLOCK (k * BPB) (fs_sb s)"
  have l: "fs_layout s" "tx_inv s" using assms(1) by (simp_all add: fs_tx_def)
  note bb = BBLOCK_range [OF l(1) assms(3)]
  have "?bb \<notin> held s" using assms(1) bb(1) by (auto simp: fs_tx_def)
  then obtain b s1 s2 where p: "bread 1 ?bb s = Ok (b, s1)" "b_data (bufs s1 b) = bview s ?bb" "tx_same s s1"
    "brelse b s1 = Ok s2" "tx_step s s2 (bview s) {}"
    using peek_data [OF l(2) bb(3) _ assms(2)] by blast
  have "balloc_bits [0..<BPB] (k * BPB) (sb_size ?sb) (bview s ?bb) = None"
    unfolding balloc_bits_None using assms(4) by (simp add: chunk_bit)
  then have "balloc_loop (k * BPB # bs) 1 s = balloc_loop bs 1 s2"
    using p(1,2,4) fs_same [OF p(3)] by simp
  then show ?thesis using p(5) fs_tx_same [OF assms(1) p(5)] by blast
qed

lemma balloc_loop_ok:
  assumes "fs_tx s" "card (held s) + 2 \<le> log_spare s" "first_free (fs_sb s) (bview s) n" "k \<le> n div BPB" "n div BPB < K"
  shows "\<exists>s'. balloc_loop (map (\<lambda>i. i * BPB) [k..<K]) 1 s = Ok (n, s')
    \<and> tx_step s s' ((mark (fs_sb s) n (bview s))(n := replicate BSIZE 0)) {BBLOCK n (fs_sb s), n}"
  using assms
proof (induction "n div BPB - k" arbitrary: s k)
  case (Suc j)
  have u: "map (\<lambda>i. i * BPB) [k..<K] = k * BPB # map (\<lambda>i. i * BPB) [Suc k..<K]"
    using Suc by (simp add: upt_conv_Cons)
  have "Suc k \<le> n div BPB" using Suc(2) by linarith
  then have "Suc k * BPB \<le> n" by (rule order_trans [OF mult_le_mono1]) simp
  then have "k * BPB + BPB \<le> n" by simp
  then have kn: "k * BPB < sb_size (fs_sb s)"
    "\<forall>bi < BPB. k * BPB + bi < sb_size (fs_sb s) \<longrightarrow> used (fs_sb s) (bview s) (k * BPB + bi)"
    using Suc.prems(3) by (auto simp: first_free_def)
  have "card (held s) \<le> log_spare s" using Suc.prems(2) by simp
  from balloc_chunk_full [OF Suc.prems(1) this kn] obtain s2
    where p: "balloc_loop (map (\<lambda>i. i * BPB) [k..<K]) 1 s = balloc_loop (map (\<lambda>i. i * BPB) [Suc k..<K]) 1 s2"
      "tx_step s s2 (bview s) {}" "fs_tx s2" unfolding u by blast
  note d = tx_stepD [OF p(2)]
  have sp: "log_spare s2 = log_spare s" using tx_step_quiet [OF _ p(2)] Suc.prems(1) by (simp add: fs_tx_def)
  have "\<exists>s'. balloc_loop (map (\<lambda>i. i * BPB) [Suc k..<K]) 1 s2 = Ok (n, s')
    \<and> tx_step s2 s' ((mark (fs_sb s2) n (bview s2))(n := replicate BSIZE 0)) {BBLOCK n (fs_sb s2), n}"
    using Suc p(3) sp d(3,4) fs_same [OF d(2)] by (intro Suc.hyps(1)) auto
  then show ?case unfolding p(1) using d(3) fs_same [OF d(2)] tx_step_trans [OF p(2)] by auto
next
  case 0
  let ?sb = "fs_sb s" and ?bb = "BBLOCK n (fs_sb s)"
  have k: "k = n div BPB" using 0 by simp
  have n: "n < sb_size ?sb" "\<not> used ?sb (bview s) n" "\<And>m. m < n \<Longrightarrow> used ?sb (bview s) m" using 0 by (auto simp: first_free_def)
  define bi where "bi = n mod BPB"
  have nb: "n = k * BPB + bi" "bi < BPB" by (simp_all add: k bi_def)
  note cb = chunk_bit [OF nb(2), where k = k, folded nb(1)]
  have u: "map (\<lambda>i. i * BPB) [k..<K] = k * BPB # map (\<lambda>i. i * BPB) [Suc k..<K]"
    using 0 k by (simp add: upt_conv_Cons)
  have l: "fs_layout s" "tx_inv s" using 0(2) by (simp_all add: fs_tx_def)
  note bb = BBLOCK_range [OF l(1) n(1)]
  have nh: "?bb \<notin> held s" "n \<notin> held s" using 0(2) bb(1) n(2) by (auto simp: fs_tx_def)
  have sp: "card (held s) \<le> log_spare s" "0 < log_spare s" using 0(3) by simp_all
  let ?d = "mark ?sb n (bview s) ?bb"
  have len: "length ?d = BSIZE" using length_bview [OF tx_inv_binv [OF l(2)] bb(3)] by simp
  obtain b s1 s2 s3 where p: "bread 1 ?bb s = Ok (b, s1)" "b_data (bufs s1 b) = bview s ?bb" "tx_same s s1"
    "put_block b ?d s1 = Ok s2" "brelse b s2 = Ok s3" "tx_step s s3 ((bview s)(?bb := ?d)) {?bb}"
    using poke_data [OF l(2) bb(3) nh(1) sp bb(4) len] by blast
  note d = tx_stepD [OF p(6)]
  have sp3: "log_spare s \<le> log_spare s3 + 1" using tx_step_spare [OF l(2) p(6)] by simp
  have "data_start ?sb \<le> n" using n(2) l(1) by (auto simp: fs_layout_def intro: leI)
  note db = data_block [OF l(1) this n(1)]
  have "\<exists>s'. bzero 1 n s3 = Ok s' \<and> tx_step s3 s' ((bview s3)(n := replicate BSIZE 0)) {n}"
    by (rule bzero_ok) (use d sp3 0(3) db nh tx_same_home [OF d(2)] in auto)
  then obtain s4 where z: "bzero 1 n s3 = Ok s4" "tx_step s3 s4 ((bview s3)(n := replicate BSIZE 0)) {n}" by blast
  have "balloc_bits [0..<BPB] (k * BPB) (sb_size ?sb) (bview s ?bb) = Some bi"
    by (rule balloc_bits_SomeI) (use n nb chunk_bit(1) [where d = "bview s" and sb = ?sb and k = k] cb in auto)
  then have "balloc_loop (map (\<lambda>i. i * BPB) [k..<K]) 1 s = Ok (n, s4)"
    using p z(1) cb nb fs_same [OF p(3)] unfolding u by (simp add: mark_def)
  moreover have m: "(bview s)(?bb := ?d) = mark ?sb n (bview s)" by (simp add: mark_def)
  have "tx_step s s4 ((mark ?sb n (bview s))(n := replicate BSIZE 0)) ({?bb} \<union> {n})"
    using tx_step_trans [OF p(6) z(2)] unfolding d(3) m .
  ultimately show ?case by (simp only: insert_is_Un [symmetric]) blast
qed

text \<open>
  With a free block left, \<open>balloc\<close> returns the first one, marked in use and filled with zeros; with none left it panics.
\<close>

lemma balloc_ok:
  assumes "fs_tx s" "card (held s) + 2 \<le> log_spare s" "first_free (fs_sb s) (bview s) n"
  shows "\<exists>s'. balloc 1 s = Ok (n, s')
    \<and> tx_step s s' ((mark (fs_sb s) n (bview s))(n := replicate BSIZE 0)) {BBLOCK n (fs_sb s), n}"
proof -
  have "n < sb_size (fs_sb s)" using assms(3) by (simp add: first_free_def)
  then have "n div BPB < (sb_size (fs_sb s) + BPB - 1) div BPB" by (simp add: layout_simps)
  then show ?thesis unfolding balloc_def by (rule balloc_loop_ok [OF assms le0])
qed

lemma balloc_loop_full:
  assumes "fs_tx s" "card (held s) \<le> log_spare s" "\<forall>n < sb_size (fs_sb s). used (fs_sb s) (bview s) n"
    "\<forall>b \<in> set bs. \<exists>k. b = k * BPB \<and> b < sb_size (fs_sb s)"
  shows "balloc_loop bs 1 s = Err (Panic ''balloc: out of blocks'')"
  using assms
proof (induction bs arbitrary: s)
  case (Cons b bs)
  then obtain k where k: "b = k * BPB" "k * BPB < sb_size (fs_sb s)" by auto
  obtain s2 where p: "balloc_loop (b # bs) 1 s = balloc_loop bs 1 s2" "tx_step s s2 (bview s) {}" "fs_tx s2"
    using balloc_chunk_full [OF Cons.prems(1,2) k(2)] Cons.prems(3) k(1) by blast
  note d = tx_stepD [OF p(2)]
  have sp: "log_spare s2 = log_spare s" using tx_step_quiet [OF _ p(2)] Cons.prems(1) by (simp add: fs_tx_def)
  show ?case unfolding p(1) using Cons.prems p(3) sp d fs_same [OF d(2)] by (intro Cons.IH) auto
qed simp

lemma balloc_full:
  assumes "fs_tx s" "card (held s) \<le> log_spare s" "\<forall>n < sb_size (fs_sb s). used (fs_sb s) (bview s) n"
  shows "balloc 1 s = Err (Panic ''balloc: out of blocks'')"
  unfolding balloc_def
proof (rule balloc_loop_full [OF assms])
  have "i < (m + BPB - 1) div BPB \<Longrightarrow> i * BPB < m" for i m by (simp add: layout_simps)
  then show "\<forall>b\<in>set (map (\<lambda>i. i * BPB) [0..<(sb_size (fs_sb s) + BPB - 1) div BPB]). \<exists>k. b = k * BPB \<and> b < sb_size (fs_sb s)"
    by auto
qed

lemma readsb_tx:
  assumes "fs_base s" "card (held s) \<le> log_spare s"
  shows "\<exists>s'. readsb 1 s = Ok (fs_sb s, s') \<and> s'\<lparr>fs_sb := fs_sb s\<rparr> = s' \<and> tx_step s s' (bview s) {} \<and> log_spare s' = log_spare s"
proof -
  have l: "fs_layout s" "tx_inv s" using assms(1) by (simp_all add: fs_base_def)
  have "1 < data_start (fs_sb s)" "1 < disksize s" using l(1) by (auto simp: fs_layout_def data_start_def)
  moreover from this have "1 \<notin> held s" using assms(1) by (auto simp: fs_base_def)
  ultimately obtain b s1 s2 where p: "bread 1 1 s = Ok (b, s1)" "b_data (bufs s1 b) = bview s 1" "tx_same s s1" "brelse b s1 = Ok s2"
    "tx_step s s2 (bview s) {}"
    using peek_data [OF l(2) _ _ assms(2)] by blast
  then have "readsb 1 s = Ok (fs_sb s, s2)" using l(1) by (simp add: readsb_def fs_layout_def)
  moreover have "s2\<lparr>fs_sb := fs_sb s\<rparr> = s2" using fs_same(1) [OF tx_stepD(2) [OF p(5)]] by (cases s2) simp
  ultimately show ?thesis using p(5) tx_step_quiet [OF l(2) p(5)] by (intro exI [of _ s2]) simp
qed

text \<open>What \<open>bfree\<close> sees of the bitmap before it decides.\<close>

lemma bfree_read:
  assumes "fs_base s" "card (held s) \<le> log_spare s" "n < sb_size (fs_sb s)"
  shows "\<exists>s'. readsb 1 s = Ok (fs_sb s, s') \<and> s'\<lparr>fs_sb := fs_sb s\<rparr> = s' \<and> tx_step s s' (bview s) {} \<and> log_spare s' = log_spare s
    \<and> fs_sb s' = fs_sb s \<and> tx_inv s' \<and> BBLOCK n (fs_sb s) < disksize s' \<and> home_block s' (BBLOCK n (fs_sb s))
    \<and> BBLOCK n (fs_sb s) \<notin> held s' \<and> length (bview s (BBLOCK n (fs_sb s))) = BSIZE"
proof -
  obtain s0 where r: "readsb 1 s = Ok (fs_sb s, s0)" "s0\<lparr>fs_sb := fs_sb s\<rparr> = s0" "tx_step s s0 (bview s) {}" "log_spare s0 = log_spare s"
    using readsb_tx [OF assms(1,2)] by blast
  have t: "fs_base s0" by (rule fs_base_same [OF assms(1) r(3)])
  note d = tx_stepD [OF r(3)]
  note f = fs_same [OF d(2)]
  have l: "fs_layout s0" "tx_inv s0" using t by (simp_all add: fs_base_def)
  note bb = BBLOCK_range [OF l(1), unfolded f(1), OF assms(3)]
  have "BBLOCK n (fs_sb s) \<notin> held s0" using t bb(1) f(1) by (auto simp: fs_base_def)
  then show ?thesis using r f bb l length_bview [OF tx_inv_binv [OF l(2)] bb(3)] d(3) by (intro exI [of _ s0]) simp
qed

lemma bfree_ok:
  assumes "fs_base s" "card (held s) < log_spare s" "n < sb_size (fs_sb s)" "used (fs_sb s) (bview s) n"
  shows "\<exists>s'. bfree 1 n s = Ok s' \<and> tx_step s s' (unmark (fs_sb s) n (bview s)) {BBLOCK n (fs_sb s)}"
proof -
  let ?sb = "fs_sb s" and ?bb = "BBLOCK n (fs_sb s)" and ?i = "n mod BPB div 8"
  have sp: "card (held s) \<le> log_spare s" using assms(2) by simp
  obtain s0 where r: "readsb 1 s = Ok (?sb, s0)" "s0\<lparr>fs_sb := ?sb\<rparr> = s0" "tx_step s s0 (bview s) {}" "log_spare s0 = log_spare s"
    "fs_sb s0 = fs_sb s" "tx_inv s0" "?bb < disksize s0" "home_block s0 ?bb" "?bb \<notin> held s0" "length (bview s ?bb) = BSIZE"
    using bfree_read [OF assms(1) sp assms(3)] by blast
  note d = tx_stepD [OF r(3)]
  let ?d = "unmark ?sb n (bview s) ?bb"
  have sp0: "card (held s0) \<le> log_spare s0" "0 < log_spare s0" using assms(2) r(4) d(4) by simp_all
  obtain b s1 s2 s3 where p: "bread 1 ?bb s0 = Ok (b, s1)" "b_data (bufs s1 b) = bview s0 ?bb" "tx_same s0 s1"
    "put_block b ?d s1 = Ok s2" "brelse b s2 = Ok s3" "tx_step s0 s3 ((bview s0)(?bb := ?d)) {?bb}"
    using poke_data [OF r(6,7,9) sp0 r(8), of ?d] r(10) by auto
  have "\<not> (bview s ?bb ! ?i AND bit_mask n = 0)" using assms(4) by (simp add: and_bit_mask used_def)
  moreover have "bit_mask (n mod BPB) = bit_mask n" by (simp add: bit_mask_def bpb_mod_8)
  ultimately have "bfree 1 n s = Ok s3" using r(1) p(1,2,4,5) r(5) d(3) by (simp add: bfree_def unmark_def r(2))
  moreover have "(bview s)(?bb := ?d) = unmark ?sb n (bview s)" by (simp add: unmark_def)
  ultimately show ?thesis using tx_step_trans [OF r(3) p(6)] d(3) by (intro exI [of _ s3]) simp
qed

lemma bfree_free:
  assumes "fs_base s" "card (held s) \<le> log_spare s" "n < sb_size (fs_sb s)" "\<not> used (fs_sb s) (bview s) n"
  shows "bfree 1 n s = Err (Panic ''freeing free block'')"
proof -
  let ?sb = "fs_sb s" and ?bb = "BBLOCK n (fs_sb s)"
  obtain s0 where r: "readsb 1 s = Ok (?sb, s0)" "s0\<lparr>fs_sb := ?sb\<rparr> = s0" "tx_step s s0 (bview s) {}" "log_spare s0 = log_spare s"
    "fs_sb s0 = fs_sb s" "tx_inv s0" "?bb < disksize s0" "home_block s0 ?bb" "?bb \<notin> held s0" "length (bview s ?bb) = BSIZE"
    using bfree_read [OF assms(1-3)] by blast
  note d = tx_stepD [OF r(3)]
  have "card (held s0) \<le> log_spare s0" using assms(2) r(4) d(4) by simp
  then obtain b s1 where p: "bread 1 ?bb s0 = Ok (b, s1)" "b_data (bufs s1 b) = bview s0 ?bb"
    using peek_data [OF r(6,7,9)] by blast
  have "bview s ?bb ! (n mod BPB div 8) AND bit_mask n = 0" using assms(4) by (simp add: and_bit_mask used_def)
  moreover have "bit_mask (n mod BPB) = bit_mask n" by (simp add: bit_mask_def bpb_mod_8)
  ultimately show ?thesis using r(1) p r(5) d(3) by (simp add: bfree_def r(2))
qed

section \<open>Allocation and freeing of blocks as updates of the set of blocks in use\<close>

lemma unmark_mark:
  assumes "\<not> used sb d n" "length (d (BBLOCK n sb)) = BSIZE"
  shows "unmark sb n (mark sb n d) = d"
proof -
  let ?i = "n mod BPB div 8" and ?b = "d (BBLOCK n sb)"
  have "(?b ! ?i OR bit_mask n) AND NOT (bit_mask n) = ?b ! ?i"
    by (rule bit_eqI) (use assms(1) in \<open>auto simp: bit_and_not_mask bit_or_mask used_def\<close>)
  then show ?thesis using bpb_byte_lt [of n] assms(2) by (simp add: unmark_def mark_def)
qed

lemma used_update_data:
  assumes "n < sb_bmapstart sb \<or> data_start sb \<le> n" "m < sb_size sb"
  shows "used sb (d(n := x)) m = used sb d m"
proof -
  have "m div BPB \<le> sb_size sb div BPB" using assms(2) by (simp add: div_le_mono)
  then have "BBLOCK m sb \<noteq> n" using assms(1) by (auto simp: BBLOCK_def data_start_def)
  then show ?thesis by (simp add: used_def)
qed

lemma fs_tx_step:
  assumes "fs_tx s" "tx_step s s' v D" "decode_sb (v 1) = fs_sb s"
    "\<And>m. m < data_start (fs_sb s) \<or> m \<in> held s \<Longrightarrow> used (fs_sb s) v m"
  shows "fs_tx s'"
  using assms tx_stepD [OF assms(2)] fs_same [OF tx_stepD(2) [OF assms(2)]] by (simp add: fs_tx_def fs_layout_def)

lemma first_free_data:
  assumes "fs_tx s" "first_free (fs_sb s) (bview s) n"
  shows "data_start (fs_sb s) \<le> n" "n < sb_size (fs_sb s)" "n \<notin> held s" "n \<noteq> 1" "length (bview s (BBLOCK n (fs_sb s))) = BSIZE"
    "BBLOCK n (fs_sb s) \<noteq> 1"
proof -
  have l: "fs_layout s" "tx_inv s" using assms(1) by (simp_all add: fs_tx_def)
  show a: "data_start (fs_sb s) \<le> n" "n < sb_size (fs_sb s)" "n \<notin> held s"
    using assms by (auto simp: fs_tx_def fs_layout_def first_free_def intro: leI)
  show "n \<noteq> 1" using data_block(3) [OF l(1) a(1,2)] .
  show "length (bview s (BBLOCK n (fs_sb s))) = BSIZE" "BBLOCK n (fs_sb s) \<noteq> 1"
    using BBLOCK_range [OF l(1) a(2)] length_bview [OF tx_inv_binv [OF l(2)]] by simp_all
qed

lemma fs_tx_alloc:
  assumes "fs_tx s" "first_free (fs_sb s) (bview s) n" "tx_step s s' ((mark (fs_sb s) n (bview s))(n := x)) D"
  shows "fs_tx s'"
    "m < sb_size (fs_sb s) \<Longrightarrow> used (fs_sb s) (bview s') m \<longleftrightarrow> used (fs_sb s) (bview s) m \<or> m = n"
proof -
  note f = first_free_data [OF assms(1,2)]
  show u: "used (fs_sb s) (bview s') m \<longleftrightarrow> used (fs_sb s) (bview s) m \<or> m = n" if "m < sb_size (fs_sb s)" for m
    unfolding tx_stepD(3) [OF assms(3)] using that f used_update_data [of n "fs_sb s" m] used_mark [of "bview s" n "fs_sb s" m] by simp
  have "data_start (fs_sb s) \<le> sb_size (fs_sb s)" using assms(1) by (simp add: fs_tx_def fs_layout_def)
  then show "fs_tx s'"
    using assms(1) f u unfolding tx_stepD(3) [OF assms(3)]
    by (intro fs_tx_step [OF assms(1,3)]) (auto simp: mark_def fs_tx_def fs_layout_def)
qed

lemma fs_tx_free:
  assumes "fs_tx s" "data_start (fs_sb s) \<le> n" "n < sb_size (fs_sb s)" "n \<notin> held s"
    "tx_step s s' (unmark (fs_sb s) n (bview s)) D"
  shows "fs_tx s'" "used (fs_sb s) (bview s') m \<longleftrightarrow> used (fs_sb s) (bview s) m \<and> m \<noteq> n"
proof -
  have l: "fs_layout s" "tx_inv s" using assms(1) by (simp_all add: fs_tx_def)
  note bb = BBLOCK_range [OF l(1) assms(3)]
  have "length (bview s (BBLOCK n (fs_sb s))) = BSIZE" using length_bview [OF tx_inv_binv [OF l(2)] bb(3)] .
  then show u: "used (fs_sb s) (bview s') m \<longleftrightarrow> used (fs_sb s) (bview s) m \<and> m \<noteq> n" for m
    unfolding tx_stepD(3) [OF assms(5)] by (rule used_unmark)
  show "fs_tx s'"
    using assms(1-4) u bb(5) unfolding tx_stepD(3) [OF assms(5)]
    by (intro fs_tx_step [OF assms(1,5)]) (auto simp: unmark_def fs_tx_def fs_layout_def)
qed

text \<open>
  A file system of 60 blocks: the log at 2 to 31, inodes at 32 and 33, the bitmap at 34 with the first \<open>k\<close> blocks in
  use, and \<open>f\<close> in the other blocks.
\<close>

definition demo_sb :: superblock where
  "demo_sb = \<lparr>sb_size = 60, sb_nblocks = 25, sb_ninodes = 8, sb_nlog = 30, sb_logstart = 2, sb_inodestart = 32, sb_bmapstart = 34\<rparr>"

definition demo_fs_disk :: "nat \<Rightarrow> (nat \<Rightarrow> byte list) \<Rightarrow> nat \<Rightarrow> byte list" where
  "demo_fs_disk k f = f(1 := put_uint 0 60 (put_uint 1 25 (put_uint 2 8 (put_uint 3 30 (put_uint 4 2 (put_uint 5 32
     (put_uint 6 34 (replicate BSIZE 0))))))), 34 := map (\<lambda>i. mask (k - 8 * i)) [0..<BSIZE])"

definition zero_inode :: inode where
  "zero_inode = \<lparr>i_dev = 0, i_inum = 0, i_ref = 0, i_lock = \<lparr>sl_locked = False, sl_pid = 0\<rparr>, i_valid = False, i_type = 0, i_major = 0,
     i_minor = 0, i_nlink = 0, i_size = 0, i_addrs = replicate 13 0\<rparr>"

definition demo_fs :: "nat \<Rightarrow> (nat \<Rightarrow> byte list) \<Rightarrow> fstate" where
  "demo_fs k f = binit \<lparr>memdisk = demo_fs_disk k f, disksize = 60, disk_writes = [], bufs = (\<lambda>_. zero_buf), curpid = 1,
     log_start = 2, log_size = 30, log_outstanding = 1, log_committing = False, log_dev = 1, lh_n = 0,
     lh_block = replicate LOGSIZE 0, fs_sb = demo_sb, inodes = (\<lambda>_. zero_inode)\<rparr>"

lemma demo_used: "n < 60 \<Longrightarrow> used demo_sb (demo_fs_disk k f) n \<longleftrightarrow> n < k"
proof -
  assume "n < 60"
  then have "n div 8 < 512" by linarith
  with \<open>n < 60\<close> have "used demo_sb (demo_fs_disk k f) n \<longleftrightarrow> n mod 8 < k - 8 * (n div 8)"
    by (simp add: used_def demo_fs_disk_def BBLOCK_def demo_sb_def layout_simps bit_mask_iff possible_bit_word)
  also have "\<dots> \<longleftrightarrow> n < k" using mult_div_mod_eq [of 8 n] by linarith
  finally show ?thesis .
qed

lemma demo_fs:
  assumes "\<And>n. length (f n) = BSIZE" "35 \<le> k" "f 2 = replicate BSIZE 0"
  shows "fs_tx (demo_fs k f)" "held (demo_fs k f) = {}" "log_spare (demo_fs k f) = 29" "bview (demo_fs k f) = demo_fs_disk k f"
    "fs_sb (demo_fs k f) = demo_sb" "inodes (demo_fs k f) = (\<lambda>_. zero_inode)" "memdisk (demo_fs k f) = demo_fs_disk k f"
    "disksize (demo_fs k f) = 60" "curpid (demo_fs k f) = 1" "log_size (demo_fs k f) = 30" "dirtyb (demo_fs k f) = {}"
proof -
  let ?s = "\<lparr>memdisk = demo_fs_disk k f, disksize = 60, disk_writes = [], bufs = (\<lambda>_. zero_buf), curpid = 1,
     log_start = 2, log_size = 30, log_outstanding = 1, log_committing = False, log_dev = 1, lh_n = 0,
     lh_block = replicate LOGSIZE 0, fs_sb = demo_sb, inodes = (\<lambda>_. zero_inode)\<rparr>"
  have len: "length (demo_fs_disk k f n) = BSIZE" for n
    using assms(1) by (simp add: demo_fs_disk_def layout_simps)
  note b = binit_ok [of ?s, simplified, OF len]
  note l = bsame_log [OF b(5)]
  show h: "held (demo_fs k f) = {}" "log_spare (demo_fs k f) = 29" "bview (demo_fs k f) = demo_fs_disk k f"
    "fs_sb (demo_fs k f) = demo_sb" "inodes (demo_fs k f) = (\<lambda>_. zero_inode)" "memdisk (demo_fs k f) = demo_fs_disk k f"
    "disksize (demo_fs k f) = 60" "curpid (demo_fs k f) = 1" "log_size (demo_fs k f) = 30" "dirtyb (demo_fs k f) = {}"
    using b l by (simp_all add: demo_fs_def log_spare_def) (cases "binit ?s"; simp add: bsame_def)+
  have "get_uint (demo_fs_disk k f 2) 0 = 0" using assms(3) by (simp add: demo_fs_disk_def)
  then have i: "tx_inv (demo_fs k f)"
    using b l by (simp add: demo_fs_def tx_inv_def log_inv_def log_layout_def logged_def layout_simps)
  have "log_area (demo_fs k f) = {2..<32}" using l by (auto simp: log_area_def demo_fs_def)
  moreover have "decode_sb (demo_fs_disk k f 1) = demo_sb"
    by (simp add: decode_sb_def demo_fs_disk_def demo_sb_def get_put_uint layout_simps)
  moreover have "\<forall>n < 35. used demo_sb (demo_fs_disk k f) n" using assms(2) by (simp add: demo_used)
  moreover have "data_start demo_sb = 35" by (simp add: data_start_def demo_sb_def layout_simps)
  ultimately show "fs_tx (demo_fs k f)"
    using i h by (simp add: fs_tx_def fs_layout_def) (simp add: demo_sb_def layout_simps)
qed

text \<open>
  C3. The block allocator.  In a transaction with three log slots to spare
  beyond the blocks held, either every block is in use and \<open>balloc\<close> panics, or
  it returns the lowest free block, now in use and zeroed, with every other
  block's bit and contents unchanged; freeing that block again restores the
  bitmap, and freeing it twice panics.
\<close>

theorem balloc_bfree:
  assumes "fs_tx s" "card (held s) + 3 \<le> log_spare s"
  shows "(\<forall>n < sb_size (fs_sb s). used (fs_sb s) (bview s) n) \<and> balloc 1 s = Err (Panic ''balloc: out of blocks'')
    \<or> (\<exists>n s' s''. balloc 1 s = Ok (n, s') \<and> first_free (fs_sb s) (bview s) n \<and> fs_tx s' \<and> tx_same s s'
        \<and> bview s' n = replicate BSIZE 0
        \<and> (\<forall>m < sb_size (fs_sb s). used (fs_sb s) (bview s') m \<longleftrightarrow> used (fs_sb s) (bview s) m \<or> m = n)
        \<and> (\<forall>m. m \<noteq> n \<and> m \<noteq> BBLOCK n (fs_sb s) \<longrightarrow> bview s' m = bview s m)
        \<and> bfree 1 n s' = Ok s'' \<and> fs_tx s'' \<and> bview s'' = (bview s)(n := replicate BSIZE 0)
        \<and> bfree 1 n s'' = Err (Panic ''freeing free block''))"
proof (cases "\<exists>n < sb_size (fs_sb s). \<not> used (fs_sb s) (bview s) n")
  case False
  then show ?thesis using balloc_full [OF assms(1)] assms(2) by auto
next
  case True
  define n where "n = (LEAST n. n < sb_size (fs_sb s) \<and> \<not> used (fs_sb s) (bview s) n)"
  have n: "n < sb_size (fs_sb s)" "\<not> used (fs_sb s) (bview s) n" using LeastI_ex [OF True] by (simp_all add: n_def)
  then have ff: "first_free (fs_sb s) (bview s) n"
    using not_less_Least [of _ "\<lambda>n. n < sb_size (fs_sb s) \<and> \<not> used (fs_sb s) (bview s) n", folded n_def]
    by (meson first_free_def less_trans)
  note f = first_free_data [OF assms(1) ff]
  have "card (held s) + 2 \<le> log_spare s" using assms(2) by simp
  from balloc_ok [OF assms(1) this ff] obtain s' where s': "balloc 1 s = Ok (n, s')"
    "tx_step s s' ((mark (fs_sb s) n (bview s))(n := replicate BSIZE 0)) {BBLOCK n (fs_sb s), n}" by blast
  note a = fs_tx_alloc [OF assms(1) ff s'(2)] and d = tx_stepD [OF s'(2)]
  note e = fs_same(1) [OF d(2)]
  have "log_spare s \<le> log_spare s' + 2"
    using tx_step_spare [OF _ s'(2)] assms(1) card_insert_le_m1 [of 2 "{n}" "BBLOCK n (fs_sb s)"] by (simp add: fs_tx_def)
  then have h: "card (held s') < log_spare s'" using d(4) assms(2) by simp
  from bfree_ok [OF fs_tx_base [OF a(1)] h, of n] obtain s'' where s'': "bfree 1 n s' = Ok s''"
    "tx_step s' s'' (unmark (fs_sb s) n (bview s')) {BBLOCK n (fs_sb s)}"
    using n(1) a(2) e by auto
  note d' = tx_stepD [OF s''(2)]
  have b: "fs_tx s''" "\<not> used (fs_sb s) (bview s'') n"
    using fs_tx_free [OF a(1), of n s'' "{BBLOCK n (fs_sb s)}"] s''(2) e f(1,2,3) d(4) by auto
  have "n \<noteq> BBLOCK n (fs_sb s)"
    using data_block(4) [OF _ f(1,2), of n] f(2) assms(1) by (simp add: fs_tx_def)
  then have "unmark (fs_sb s) n ((mark (fs_sb s) n (bview s))(n := x)) = (unmark (fs_sb s) n (mark (fs_sb s) n (bview s)))(n := x)" for x
    by (auto simp: unmark_def)
  then have v: "bview s'' = (bview s)(n := replicate BSIZE 0)"
    unfolding d'(3) d(3) using unmark_mark [OF n(2) f(5)] by simp
  have "bfree 1 n s'' = Err (Panic ''freeing free block'')"
    by (rule bfree_free [OF fs_tx_base]) (use b n e fs_same(1) [OF d'(2)] d'(4) h tx_step_spare [OF d(1) s''(2)] in auto)
  moreover have "bview s' m = bview s m" if "m \<noteq> n" "m \<noteq> BBLOCK n (fs_sb s)" for m
    using that d(3) by (simp add: mark_def)
  ultimately show ?thesis using s'(1) d ff a s''(1) b(1) v by (intro disjI2 exI [of _ n] exI [of _ s'] exI [of _ s'']) simp
qed

theorem balloc_bfree_witness:
  "\<exists>s' s''. balloc 1 (demo_fs 35 (\<lambda>_. replicate BSIZE 0)) = Ok (35, s') \<and> bfree 1 35 s' = Ok s''
     \<and> bfree 1 35 s'' = Err (Panic ''freeing free block'')"
proof -
  let ?s = "demo_fs 35 (\<lambda>_. replicate BSIZE 0)"
  note d = demo_fs [of "\<lambda>_. replicate BSIZE 0" 35, simplified]
  have u: "n < 60 \<Longrightarrow> used (fs_sb ?s) (bview ?s) n \<longleftrightarrow> n < 35" for n using d demo_used by simp
  have sz: "sb_size (fs_sb ?s) = 60" using d(5) by (simp add: demo_sb_def)
  have ff: "n = 35" if "first_free (fs_sb ?s) (bview ?s) n" for n
  proof -
    have "n < 60" "\<not> n < 35" using that u [of n] sz by (simp_all add: first_free_def)
    moreover have "\<not> 35 < n" using that u [of 35] unfolding first_free_def by simp blast
    ultimately show ?thesis by simp
  qed
  have "\<not> (\<forall>n < sb_size (fs_sb ?s). used (fs_sb ?s) (bview ?s) n)" using u [of 36] sz by (auto intro!: exI [of _ 36])
  moreover have "card (held ?s) + 3 \<le> log_spare ?s" using d(2,3) by simp
  ultimately obtain n s' s'' where "balloc 1 ?s = Ok (n, s')" "first_free (fs_sb ?s) (bview ?s) n" "bfree 1 n s' = Ok s''"
    "bfree 1 n s'' = Err (Panic ''freeing free block'')"
    using balloc_bfree [OF d(1)] by blast
  with ff show ?thesis by blast
qed

end
