(* ===== verification/Inode.thy ===== *)
theory Inode
  imports Fs_Blocks
begin

text \<open>
  Inodes (src/xv6/fs.c): the cache of inodes with its reference counts and
  locks, the copies between the cache and the inode blocks, the block map with
  its single and double indirect blocks, truncation, and reading and writing
  the contents.  A pointer to a cached inode is its index in \<open>icache.inode\<close>.
\<close>

section \<open>Operations\<close>

definition upd_inode :: "nat \<Rightarrow> (inode \<Rightarrow> inode) \<Rightarrow> 'a fstate_scheme \<Rightarrow> 'a fstate_scheme" where
  "upd_inode ip f s = s\<lparr>inodes := (inodes s)(ip := f (inodes s ip))\<rparr>"

definition iinit :: "nat \<Rightarrow> 'a fstate_scheme \<Rightarrow> 'a fstate_scheme res" where
  "iinit dev s =
     (let s = s\<lparr>inodes := \<lambda>i. if i < NINODE then (inodes s i)\<lparr>i_lock := initsleeplock\<rparr> else inodes s i\<rparr> in
      bindr (readsb dev s) (\<lambda>(sb, s). Ok (s\<lparr>fs_sb := sb\<rparr>)))"

text \<open>
  \<open>struct dinode\<close> is 64 bytes without padding: four shorts, the size and the 13 addresses.  \<open>load_dinode\<close> is the copy that
  \<open>ilock\<close> makes, \<open>dinode_bytes\<close> are the bytes of the fields that \<open>iupdate\<close> stores.
\<close>

definition dinode_off :: "nat \<Rightarrow> nat" where
  "dinode_off inum = inum mod IPB * 64"

definition load_dinode :: "byte list \<Rightarrow> nat \<Rightarrow> inode \<Rightarrow> inode" where
  "load_dinode d off ip = ip\<lparr>i_type := load16 d off, i_major := load16 d (off + 2), i_minor := load16 d (off + 4),
     i_nlink := load16 d (off + 6), i_size := load32 d (off + 8), i_addrs := map (\<lambda>k. load32 d (off + 12 + 4 * k)) [0..<NDIRECT + 2]\<rparr>"

definition dinode_bytes :: "inode \<Rightarrow> byte list" where
  "dinode_bytes ip = short_bytes (i_type ip) @ short_bytes (i_major ip) @ short_bytes (i_minor ip) @ short_bytes (i_nlink ip)
     @ le_bytes 4 (i_size ip) @ concat (map (le_bytes 4) (i_addrs ip))"

definition iget :: "nat \<Rightarrow> nat \<Rightarrow> 'a fstate_scheme \<Rightarrow> (nat \<times> 'a fstate_scheme) res" where
  "iget dev inum s =
     (case find (\<lambda>i. i_ref (inodes s i) > 0 \<and> i_dev (inodes s i) = dev \<and> i_inum (inodes s i) = inum) [0..<NINODE] of
        Some ip \<Rightarrow> Ok (ip, upd_inode ip (i_ref_update (\<lambda>r. r + 1)) s)
      | None \<Rightarrow>
          (case find (\<lambda>i. i_ref (inodes s i) = 0) [0..<NINODE] of
             None \<Rightarrow> Err (Panic ''iget: no inodes'')
           | Some ip \<Rightarrow> Ok (ip, upd_inode ip (\<lambda>i. i\<lparr>i_dev := dev, i_inum := inum, i_ref := 1, i_valid := False\<rparr>) s)))"

fun ialloc_loop :: "nat list \<Rightarrow> nat \<Rightarrow> int \<Rightarrow> 'a fstate_scheme \<Rightarrow> (nat \<times> 'a fstate_scheme) res" where
  "ialloc_loop [] dev type s = Err (Panic ''ialloc: no inodes'')"
| "ialloc_loop (inum # inums) dev type s =
     bindr (bread dev (IBLOCK inum (fs_sb s)) s) (\<lambda>(bp, s).
       let d = b_data (bufs s bp); off = dinode_off inum in
       if load16 d off = 0 then
         bindr (put_block bp (splice off (short_bytes type @ replicate 62 0) d) s) (\<lambda>s.
         bindr (brelse bp s) (\<lambda>s.
           iget dev inum s))
       else bindr (brelse bp s) (\<lambda>s. ialloc_loop inums dev type s))"

definition ialloc :: "nat \<Rightarrow> int \<Rightarrow> 'a fstate_scheme \<Rightarrow> (nat \<times> 'a fstate_scheme) res" where
  "ialloc dev type s = ialloc_loop [1..<sb_ninodes (fs_sb s)] dev type s"

definition iupdate :: "nat \<Rightarrow> 'a fstate_scheme \<Rightarrow> 'a fstate_scheme res" where
  "iupdate ip s =
     bindr (bread (i_dev (inodes s ip)) (IBLOCK (i_inum (inodes s ip)) (fs_sb s)) s) (\<lambda>(bp, s).
     bindr (put_block bp (splice (dinode_off (i_inum (inodes s ip))) (dinode_bytes (inodes s ip)) (b_data (bufs s bp))) s) (\<lambda>s.
       brelse bp s))"

definition idup :: "nat \<Rightarrow> 'a fstate_scheme \<Rightarrow> nat \<times> 'a fstate_scheme" where
  "idup ip s = (ip, upd_inode ip (i_ref_update (\<lambda>r. r + 1)) s)"

definition ilock :: "nat \<Rightarrow> 'a fstate_scheme \<Rightarrow> 'a fstate_scheme res" where
  "ilock ip s =
     (if i_ref (inodes s ip) < 1 then Err (Panic ''ilock'')
      else
        bindr (acquiresleep (curpid s) (i_lock (inodes s ip))) (\<lambda>lk.
        let s = upd_inode ip (i_lock_update (\<lambda>_. lk)) s in
        if i_valid (inodes s ip) then Ok s
        else
          bindr (bread (i_dev (inodes s ip)) (IBLOCK (i_inum (inodes s ip)) (fs_sb s)) s) (\<lambda>(bp, s).
          let s = upd_inode ip (load_dinode (b_data (bufs s bp)) (dinode_off (i_inum (inodes s ip)))) s in
          bindr (brelse bp s) (\<lambda>s.
          let s = upd_inode ip (i_valid_update (\<lambda>_. True)) s in
          if i_type (inodes s ip) = 0 then Err (Panic ''ilock: no type'') else Ok s))))"

definition iunlock :: "nat \<Rightarrow> 'a fstate_scheme \<Rightarrow> 'a fstate_scheme res" where
  "iunlock ip s =
     (if \<not> holdingsleep (curpid s) (i_lock (inodes s ip)) \<or> i_ref (inodes s ip) < 1 then Err (Panic ''iunlock'')
      else Ok (upd_inode ip (i_lock_update releasesleep) s))"

text \<open>
  The two steps of \<open>bmap\<close>: the address in slot \<open>i\<close> of the inode, and the entry \<open>j\<close> of an indirect block; each allocates
  a block where there is none.
\<close>

definition bmap_addr :: "nat \<Rightarrow> nat \<Rightarrow> 'a fstate_scheme \<Rightarrow> (nat \<times> 'a fstate_scheme) res" where
  "bmap_addr ip i s =
     (if i_addrs (inodes s ip) ! i = 0 then
        bindr (balloc (i_dev (inodes s ip)) s) (\<lambda>(addr, s).
          Ok (addr, upd_inode ip (i_addrs_update (\<lambda>a. a[i := addr])) s))
      else Ok (i_addrs (inodes s ip) ! i, s))"

definition bmap_entry :: "nat \<Rightarrow> nat \<Rightarrow> nat \<Rightarrow> 'a fstate_scheme \<Rightarrow> (nat \<times> 'a fstate_scheme) res" where
  "bmap_entry ip blk j s =
     bindr (bread (i_dev (inodes s ip)) blk s) (\<lambda>(bp, s).
       if get_uint (b_data (bufs s bp)) j = 0 then
         bindr (balloc (i_dev (inodes s ip)) s) (\<lambda>(addr, s).
         bindr (put_block bp (put_uint j addr (b_data (bufs s bp))) s) (\<lambda>s.
         bindr (brelse bp s) (\<lambda>s. Ok (addr, s))))
       else bindr (brelse bp s) (\<lambda>s'. Ok (get_uint (b_data (bufs s bp)) j, s')))"

definition bmap :: "nat \<Rightarrow> nat \<Rightarrow> 'a fstate_scheme \<Rightarrow> (nat \<times> 'a fstate_scheme) res" where
  "bmap ip bn s =
     (if bn < NDIRECT then bmap_addr ip bn s
      else
        let bn = bn - NDIRECT in
        if bn < NINDIRECT then
          bindr (bmap_addr ip NDIRECT s) (\<lambda>(addr, s). bmap_entry ip addr bn s)
        else
          let bn = bn - NINDIRECT in
          if bn < NBDE then
            bindr (bmap_addr ip (NDIRECT + 1) s) (\<lambda>(addr, s).
            bindr (bmap_entry ip addr (bn div NINDIRECT) s) (\<lambda>(addr, s).
              bmap_entry ip addr (bn mod NINDIRECT) s))
          else Err (Panic ''bmap: out of range''))"

section \<open>Truncation\<close>

fun itrunc_direct :: "nat \<Rightarrow> nat list \<Rightarrow> 'a fstate_scheme \<Rightarrow> 'a fstate_scheme res" where
  "itrunc_direct ip [] s = Ok s"
| "itrunc_direct ip (i # is) s =
     (if i_addrs (inodes s ip) ! i \<noteq> 0 then
        bindr (bfree (i_dev (inodes s ip)) (i_addrs (inodes s ip) ! i) s) (\<lambda>s.
          itrunc_direct ip is (upd_inode ip (i_addrs_update (\<lambda>a. a[i := 0])) s))
      else itrunc_direct ip is s)"

text \<open>The loop that frees the blocks named in the buffer \<open>bp\<close>.\<close>

fun bfree_entries :: "nat \<Rightarrow> nat \<Rightarrow> nat list \<Rightarrow> 'a fstate_scheme \<Rightarrow> 'a fstate_scheme res" where
  "bfree_entries dev bp [] s = Ok s"
| "bfree_entries dev bp (j # js) s =
     (if get_uint (b_data (bufs s bp)) j \<noteq> 0 then
        bindr (bfree dev (get_uint (b_data (bufs s bp)) j) s) (\<lambda>s. bfree_entries dev bp js s)
      else bfree_entries dev bp js s)"

definition itrunc_indirect :: "nat \<Rightarrow> 'a fstate_scheme \<Rightarrow> 'a fstate_scheme res" where
  "itrunc_indirect ip s =
     (if i_addrs (inodes s ip) ! NDIRECT \<noteq> 0 then
        bindr (bread (i_dev (inodes s ip)) (i_addrs (inodes s ip) ! NDIRECT) s) (\<lambda>(bp, s).
        bindr (bfree_entries (i_dev (inodes s ip)) bp [0..<NINDIRECT] s) (\<lambda>s.
        bindr (brelse bp s) (\<lambda>s.
        bindr (bfree (i_dev (inodes s ip)) (i_addrs (inodes s ip) ! NDIRECT) s) (\<lambda>s.
          Ok (upd_inode ip (i_addrs_update (\<lambda>a. a[NDIRECT := 0])) s)))))
      else Ok s)"

text \<open>
  In the doubly indirect part the inner loop runs over \<open>bp\<close>, the block of first-level addresses, and not over \<open>bp_aux\<close>,
  as in the source.
\<close>

fun itrunc_double_loop :: "nat \<Rightarrow> nat \<Rightarrow> nat list \<Rightarrow> 'a fstate_scheme \<Rightarrow> 'a fstate_scheme res" where
  "itrunc_double_loop dev bp [] s = Ok s"
| "itrunc_double_loop dev bp (j # js) s =
     (if get_uint (b_data (bufs s bp)) j \<noteq> 0 then
        bindr (bread dev (get_uint (b_data (bufs s bp)) j) s) (\<lambda>(bp_aux, s).
        bindr (bfree_entries dev bp [0..<NINDIRECT] s) (\<lambda>s.
        bindr (brelse bp_aux s) (\<lambda>s.
        bindr (bfree dev (get_uint (b_data (bufs s bp)) j) s) (\<lambda>s.
          itrunc_double_loop dev bp js (set_bdata bp (put_uint j 0 (b_data (bufs s bp))) s)))))
      else itrunc_double_loop dev bp js s)"

definition itrunc_double :: "nat \<Rightarrow> 'a fstate_scheme \<Rightarrow> 'a fstate_scheme res" where
  "itrunc_double ip s =
     (if i_addrs (inodes s ip) ! (NDIRECT + 1) \<noteq> 0 then
        bindr (bread (i_dev (inodes s ip)) (i_addrs (inodes s ip) ! (NDIRECT + 1)) s) (\<lambda>(bp, s).
        bindr (itrunc_double_loop (i_dev (inodes s ip)) bp [0..<NINDIRECT] s) (\<lambda>s.
        bindr (brelse bp s) (\<lambda>s.
        bindr (bfree (i_dev (inodes s ip)) (i_addrs (inodes s ip) ! (NDIRECT + 1)) s) (\<lambda>s.
          Ok (upd_inode ip (i_addrs_update (\<lambda>a. a[NDIRECT + 1 := 0])) s)))))
      else Ok s)"

definition itrunc :: "nat \<Rightarrow> 'a fstate_scheme \<Rightarrow> 'a fstate_scheme res" where
  "itrunc ip s =
     bindr (itrunc_direct ip [0..<NDIRECT] s) (\<lambda>s.
     bindr (itrunc_indirect ip s) (\<lambda>s.
     bindr (itrunc_double ip s) (\<lambda>s.
       iupdate ip (upd_inode ip (i_size_update (\<lambda>_. 0)) s))))"

definition iput :: "nat \<Rightarrow> 'a fstate_scheme \<Rightarrow> 'a fstate_scheme res" where
  "iput ip s =
     bindr (acquiresleep (curpid s) (i_lock (inodes s ip))) (\<lambda>lk.
     let s = upd_inode ip (i_lock_update (\<lambda>_. lk)) s in
     bindr
       (if i_valid (inodes s ip) \<and> i_nlink (inodes s ip) = 0 \<and> i_ref (inodes s ip) = 1 then
          bindr (itrunc ip s) (\<lambda>s.
          bindr (iupdate ip (upd_inode ip (i_type_update (\<lambda>_. 0)) s)) (\<lambda>s.
            Ok (upd_inode ip (i_valid_update (\<lambda>_. False)) s)))
        else Ok s)
       (\<lambda>s. Ok (upd_inode ip (i_ref_update (\<lambda>r. r - 1)) (upd_inode ip (i_lock_update releasesleep) s))))"

definition iunlockput :: "nat \<Rightarrow> 'a fstate_scheme \<Rightarrow> 'a fstate_scheme res" where
  "iunlockput ip s = bindr (iunlock ip s) (iput ip)"

section \<open>Contents\<close>

record stat =
  st_type :: int
  st_dev :: nat
  st_ino :: nat
  st_nlink :: int
  st_size :: nat

definition stati :: "nat \<Rightarrow> 'a fstate_scheme \<Rightarrow> stat" where
  "stati ip s = \<lparr>st_type = i_type (inodes s ip), st_dev = i_dev (inodes s ip), st_ino = i_inum (inodes s ip),
     st_nlink = i_nlink (inodes s ip), st_size = i_size (inodes s ip)\<rparr>"

definition T_DIR :: int where [layout_simps]: "T_DIR = 1"
definition T_FILE :: int where [layout_simps]: "T_FILE = 2"
definition T_DEV :: int where [layout_simps]: "T_DEV = 3"

text \<open>
  The entries of \<open>devsw\<close>: a device's \<open>read\<close> yields its return value and the bytes it stores at \<open>dst\<close>; a missing function
  is \<open>None\<close>.  They are parameters of the functions below.
\<close>

datatype 's device = Device
  (dev_read: "(nat \<Rightarrow> int \<Rightarrow> 's \<Rightarrow> ((int \<times> byte list) \<times> 's) res) option")
  (dev_write: "(nat \<Rightarrow> byte list \<Rightarrow> int \<Rightarrow> 's \<Rightarrow> (int \<times> 's) res) option")

lemma chunk_less [termination_simp]: "0 < n \<Longrightarrow> n - min n (BSIZE - off mod BSIZE) < n"
  by (simp add: layout_simps)

fun readi_loop :: "nat \<Rightarrow> nat \<Rightarrow> nat \<Rightarrow> 'a fstate_scheme \<Rightarrow> (byte list \<times> 'a fstate_scheme) res" where
  "readi_loop ip off n s =
     (if n = 0 then Ok ([], s)
      else
        let m = min n (BSIZE - off mod BSIZE) in
        bindr (bmap ip (off div BSIZE) s) (\<lambda>(addr, s).
        bindr (bread (i_dev (inodes s ip)) addr s) (\<lambda>(bp, s).
        let bytes = slice (off mod BSIZE) m (b_data (bufs s bp)) in
        bindr (brelse bp s) (\<lambda>s.
        bindr (readi_loop ip (off + m) (n - m) s) (\<lambda>(rest, s). Ok (bytes @ rest, s))))))"

text \<open>\<open>readi\<close> yields its return value and the bytes it has stored at \<open>dst\<close>.\<close>

definition readi :: "(int \<Rightarrow> 'a fstate_scheme device) \<Rightarrow> nat \<Rightarrow> nat \<Rightarrow> nat \<Rightarrow> 'a fstate_scheme
    \<Rightarrow> ((int \<times> byte list) \<times> 'a fstate_scheme) res" where
  "readi dv ip off n s =
     (let i = inodes s ip in
      if i_type i = T_DEV then
        (if i_major i < 0 \<or> i_major i \<ge> int NDEV then Ok ((-1, []), s)
         else case dev_read (dv (i_major i)) of None \<Rightarrow> Ok ((-1, []), s) | Some rd \<Rightarrow> rd ip (int_of_uint n) s)
      else if off > i_size i \<or> (off + n) mod 2 ^ 32 < off then Ok ((-1, []), s)
      else
        let n = (if off + n > i_size i then i_size i - off else n) in
        bindr (readi_loop ip off n s) (\<lambda>(bytes, s). Ok ((int_of_uint n, bytes), s)))"

fun writei_loop :: "nat \<Rightarrow> byte list \<Rightarrow> nat \<Rightarrow> nat \<Rightarrow> 'a fstate_scheme \<Rightarrow> 'a fstate_scheme res" where
  "writei_loop ip src off n s =
     (if n = 0 then Ok s
      else
        let m = min n (BSIZE - off mod BSIZE) in
        bindr (bmap ip (off div BSIZE) s) (\<lambda>(addr, s).
        bindr (bread (i_dev (inodes s ip)) addr s) (\<lambda>(bp, s).
        bindr (put_block bp (splice (off mod BSIZE) (take m src) (b_data (bufs s bp))) s) (\<lambda>s.
        bindr (brelse bp s) (\<lambda>s.
          writei_loop ip (drop m src) (off + m) (n - m) s)))))"

definition writei :: "(int \<Rightarrow> 'a fstate_scheme device) \<Rightarrow> nat \<Rightarrow> byte list \<Rightarrow> nat \<Rightarrow> nat \<Rightarrow> 'a fstate_scheme
    \<Rightarrow> (int \<times> 'a fstate_scheme) res" where
  "writei dv ip src off n s =
     (let i = inodes s ip in
      if i_type i = T_DEV then
        (if i_major i < 0 \<or> i_major i \<ge> int NDEV then Ok (-1, s)
         else case dev_write (dv (i_major i)) of None \<Rightarrow> Ok (-1, s) | Some wr \<Rightarrow> wr ip src (int_of_uint n) s)
      else if off > i_size i \<or> (off + n) mod 2 ^ 32 < off then Ok (-1, s)
      else if off + n > MAXFILE * BSIZE then Ok (-1, s)
      else
        bindr (writei_loop ip src off n s) (\<lambda>s.
          if n > 0 \<and> off + n > i_size (inodes s ip) then
            bindr (iupdate ip (upd_inode ip (i_size_update (\<lambda>_. off + n)) s)) (\<lambda>s. Ok (int_of_uint n, s))
          else Ok (int_of_uint n, s)))"

end
