(* ===== verification/Inode_Map.thy ===== *)
theory Inode_Map
  imports Inode
begin

text \<open>
  The block map of src/xv6/fs.c: the tree of blocks that an inode's addresses,
  its indirect block and its doubly indirect block span, what it means to fill
  a slot of the tree, and the proof that \<open>bmap\<close> returns the block of a given
  position, allocating along the way where there is none.
\<close>

section \<open>The tree of blocks of a file\<close>

text \<open>
  The places that hold a block number: the addresses of the inode, the entries of its indirect block, the entries of its
  doubly indirect block, and the entries of the blocks named there.
\<close>

datatype slot = Addr nat | Ent1 nat | Ent2 nat | Ent22 nat nat

fun slot_ok :: "slot \<Rightarrow> bool" where
  "slot_ok (Addr i) \<longleftrightarrow> i < NDIRECT + 2"
| "slot_ok (Ent1 j) \<longleftrightarrow> j < NINDIRECT"
| "slot_ok (Ent2 j) \<longleftrightarrow> j < NINDIRECT"
| "slot_ok (Ent22 j k) \<longleftrightarrow> j < NINDIRECT \<and> k < NINDIRECT"

definition entry :: "(nat \<Rightarrow> byte list) \<Rightarrow> nat \<Rightarrow> nat \<Rightarrow> nat" where
  "entry v b j = (if b = 0 then 0 else get_uint (v b) j)"

fun slot_at :: "nat list \<Rightarrow> (nat \<Rightarrow> byte list) \<Rightarrow> slot \<Rightarrow> nat" where
  "slot_at a v (Addr i) = a ! i"
| "slot_at a v (Ent1 j) = entry v (a ! NDIRECT) j"
| "slot_at a v (Ent2 j) = entry v (a ! (NDIRECT + 1)) j"
| "slot_at a v (Ent22 j k) = entry v (entry v (a ! (NDIRECT + 1)) j) k"

text \<open>The place of the block number of block \<open>bn\<close> of the file.\<close>

definition slot_of :: "nat \<Rightarrow> slot" where
  "slot_of bn =
     (if bn < NDIRECT then Addr bn
      else if bn < NDIRECT + NINDIRECT then Ent1 (bn - NDIRECT)
      else Ent22 ((bn - NDIRECT - NINDIRECT) div NINDIRECT) ((bn - NDIRECT - NINDIRECT) mod NINDIRECT))"

lemma slot_of_ok: "bn < MAXFILE \<Longrightarrow> slot_ok (slot_of bn)"
  by (auto simp: slot_of_def layout_simps)

lemma slot_of_inj: "slot_of m = slot_of n \<Longrightarrow> m = n"
  by (auto simp: slot_of_def layout_simps split: if_splits) (metis diff_diff_left div_mult_mod_eq eq_diff_iff linorder_not_less)

text \<open>A file's tree: its blocks are data blocks in use, each named once.\<close>

definition tree_ok :: "superblock \<Rightarrow> nat list \<Rightarrow> (nat \<Rightarrow> byte list) \<Rightarrow> bool" where
  "tree_ok sb a v \<longleftrightarrow> length a = NDIRECT + 2
     \<and> (\<forall>sl. slot_ok sl \<and> slot_at a v sl \<noteq> 0 \<longrightarrow>
          data_start sb \<le> slot_at a v sl \<and> slot_at a v sl < sb_size sb \<and> used sb v (slot_at a v sl))
     \<and> inj_on (slot_at a v) {sl. slot_ok sl \<and> slot_at a v sl \<noteq> 0}"

definition tree_blocks :: "nat list \<Rightarrow> (nat \<Rightarrow> byte list) \<Rightarrow> nat set" where
  "tree_blocks a v = slot_at a v ` {sl. slot_ok sl \<and> slot_at a v sl \<noteq> 0}"

lemma tree_okD:
  assumes "tree_ok sb a v" "slot_ok sl" "slot_at a v sl \<noteq> 0"
  shows "data_start sb \<le> slot_at a v sl" "slot_at a v sl < sb_size sb" "used sb v (slot_at a v sl)"
    "slot_ok sl' \<Longrightarrow> slot_at a v sl' = slot_at a v sl \<Longrightarrow> sl' = sl"
  using assms by (auto simp: tree_ok_def inj_on_def)

text \<open>Equal contents of the tree's blocks give the same tree.\<close>

lemma slot_at_cong:
  assumes "\<And>b. b \<in> tree_blocks a v \<Longrightarrow> v' b = v b" "slot_ok sl"
  shows "slot_at a v' sl = slot_at a v sl"
proof -
  have e: "entry v' (slot_at a v p) j = entry v (slot_at a v p) j" if "slot_ok p" for p j
    using assms(1) that by (auto simp: entry_def tree_blocks_def)
  have "slot_ok (Addr NDIRECT)" "slot_ok (Addr (NDIRECT + 1))" by simp_all
  from e [OF this(1)] e [OF this(2)] have
    a: "entry v' (a ! NDIRECT) j = entry v (a ! NDIRECT) j" "entry v' (a ! (NDIRECT + 1)) j = entry v (a ! (NDIRECT + 1)) j" for j
    by simp_all
  show ?thesis
  proof (cases sl)
    case (Ent22 j k)
    then show ?thesis using assms(2) e [of "Ent2 j" k] a(2) by simp
  qed (use a in simp_all)
qed

lemma tree_ok_cong:
  assumes "tree_ok sb a v" "\<And>b. b \<in> tree_blocks a v \<Longrightarrow> v' b = v b" "\<And>b. b \<in> tree_blocks a v \<Longrightarrow> used sb v' b"
  shows "tree_ok sb a v'" "tree_blocks a v' = tree_blocks a v"
proof -
  have e: "slot_at a v' sl = slot_at a v sl" if "slot_ok sl" for sl by (rule slot_at_cong [OF _ that]) (rule assms(2))
  then have s: "{sl. slot_ok sl \<and> slot_at a v' sl \<noteq> 0} = {sl. slot_ok sl \<and> slot_at a v sl \<noteq> 0}" by auto
  show "tree_blocks a v' = tree_blocks a v" unfolding tree_blocks_def s by (rule image_cong) (simp_all add: e)
  have "inj_on (slot_at a v') {sl. slot_ok sl \<and> slot_at a v' sl \<noteq> 0}"
    unfolding s using assms(1) inj_on_cong [of "{sl. slot_ok sl \<and> slot_at a v sl \<noteq> 0}" "slot_at a v'" "slot_at a v"] e
    by (simp add: tree_ok_def)
  then show "tree_ok sb a v'" using assms(1,3) e by (auto simp: tree_ok_def tree_blocks_def)
qed

text \<open>Storing \<open>n\<close> in an empty slot whose parent exists.\<close>

fun parent :: "slot \<Rightarrow> slot option" where
  "parent (Addr i) = None"
| "parent (Ent1 j) = Some (Addr NDIRECT)"
| "parent (Ent2 j) = Some (Addr (NDIRECT + 1))"
| "parent (Ent22 j k) = Some (Ent2 j)"

fun slot_index :: "slot \<Rightarrow> nat" where
  "slot_index (Addr i) = i"
| "slot_index (Ent1 j) = j"
| "slot_index (Ent2 j) = j"
| "slot_index (Ent22 j k) = k"

lemma slot_at_parent: "parent c = Some p \<Longrightarrow> slot_at a v c = entry v (slot_at a v p) (slot_index c)"
  by (cases c) auto

lemma parent_ok:
  assumes "parent c = Some p" "slot_ok c"
  shows "slot_ok p" "slot_index c < NINDIRECT"
  using assms by (cases c; auto)+

lemma child_inj: "parent c = Some p \<Longrightarrow> parent d = Some p \<Longrightarrow> slot_index c = slot_index d \<Longrightarrow> c = d"
  by (cases c; cases d; auto)

text \<open>
  The arrays after a new block \<open>n\<close> has been stored in the slot \<open>sl\<close>: \<open>a'\<close> and \<open>v'\<close> differ from \<open>a\<close> and \<open>v\<close> at most in
  that slot, at \<open>n\<close>, which is all zeros, and outside the tree.
\<close>

definition slot_stored :: "slot \<Rightarrow> nat \<Rightarrow> nat list \<Rightarrow> (nat \<Rightarrow> byte list) \<Rightarrow> nat list \<Rightarrow> (nat \<Rightarrow> byte list) \<Rightarrow> bool" where
  "slot_stored sl n a v a' v' \<longleftrightarrow> v' n = replicate BSIZE 0 \<and>
     (case parent sl of
        None \<Rightarrow> a' = a[slot_index sl := n] \<and> (\<forall>b \<in> tree_blocks a v. v' b = v b)
      | Some p \<Rightarrow> a' = a \<and> slot_at a v p \<noteq> 0 \<and> v' (slot_at a v p) = put_uint (slot_index sl) n (v (slot_at a v p))
          \<and> (\<forall>b \<in> tree_blocks a v - {slot_at a v p}. v' b = v b))"

lemma get_entry_put:
  assumes "length blk = BSIZE" "j < NINDIRECT" "k < NINDIRECT" "n < 2 ^ 32"
  shows "get_uint (put_uint j n blk) k = (if j = k then n else get_uint blk k)"
  using assms get_put_uint [of j blk k n] by (simp add: layout_simps)

lemma slot_stored_child:
  assumes t: "tree_ok sb a v" and len: "\<forall>b \<in> tree_blocks a v. length (v b) = BSIZE"
    and sl: "slot_ok sl" "slot_at a v sl = 0" and n: "n \<noteq> 0" "n < 2 ^ 32" "n \<notin> tree_blocks a v"
    and st: "slot_stored sl n a v a' v'"
    and c: "slot_ok c" "parent c = Some p" and IH: "slot_at a' v' p = (if p = sl then n else slot_at a v p)"
  shows "slot_at a' v' c = (if c = sl then n else slot_at a v c)"
proof -
  note p = parent_ok [OF c(2,1)]
  have "p \<noteq> c" using c(2) by (cases c) auto
  consider "p = sl" | "p \<noteq> sl" "slot_at a v p = 0" | "p \<noteq> sl" "slot_at a v p \<noteq> 0" by blast
  then show ?thesis
  proof cases
    case 1
    then show ?thesis
      using IH n(1) sl(2) st \<open>p \<noteq> c\<close> by (simp add: slot_at_parent [OF c(2)] entry_def slot_stored_def)
  next
    case 2
    then have "c \<noteq> sl" using st c(2) by (auto simp: slot_stored_def)
    then show ?thesis using 2 IH by (simp add: slot_at_parent [OF c(2)] entry_def)
  next
    case 3
    let ?b = "slot_at a v p"
    have b: "?b \<in> tree_blocks a v" using 3 p(1) by (auto simp: tree_blocks_def)
    show ?thesis
    proof (cases "parent sl")
      case None
      then have "v' ?b = v ?b" "c \<noteq> sl" using st b c(2) by (auto simp: slot_stored_def)
      then show ?thesis using 3 IH by (simp add: slot_at_parent [OF c(2)] entry_def)
    next
      case (Some q)
      note q = parent_ok [OF Some sl(1)]
      show ?thesis
      proof (cases "q = p")
        case True
        have "v' ?b = put_uint (slot_index sl) n (v ?b)" using st Some True by (simp add: slot_stored_def)
        then have "get_uint (v' ?b) (slot_index c) = (if slot_index sl = slot_index c then n else get_uint (v ?b) (slot_index c))"
          using get_entry_put [OF len [rule_format, OF b] q(2) p(2) n(2)] by simp
        moreover have "slot_index sl = slot_index c \<longleftrightarrow> c = sl"
          using child_inj [OF c(2)] Some True by auto
        ultimately show ?thesis using 3 IH by (simp add: slot_at_parent [OF c(2)] entry_def)
      next
        case False
        have "?b \<noteq> slot_at a v q" using False tree_okD(4) [OF t p(1) 3(2) q(1)] by metis
        then have "v' ?b = v ?b" using st Some b by (simp add: slot_stored_def)
        moreover have "c \<noteq> sl" using False Some c(2) by auto
        ultimately show ?thesis using 3 IH by (simp add: slot_at_parent [OF c(2)] entry_def)
      qed
    qed
  qed
qed

lemma slot_stored_at:
  assumes t: "tree_ok sb a v" and len: "\<forall>b \<in> tree_blocks a v. length (v b) = BSIZE"
    and sl: "slot_ok sl" "slot_at a v sl = 0" and n: "n \<noteq> 0" "n < 2 ^ 32" "n \<notin> tree_blocks a v"
    and st: "slot_stored sl n a v a' v'" and c: "slot_ok c"
  shows "slot_at a' v' c = (if c = sl then n else slot_at a v c)"
proof -
  note child = slot_stored_child [OF t len sl n st]
  have "length a = NDIRECT + 2" using t by (simp add: tree_ok_def)
  then have addr: "slot_at a' v' (Addr i) = (if Addr i = sl then n else slot_at a v (Addr i))" if "i < NDIRECT + 2" for i
    using st sl(1) that by (cases sl) (auto simp: slot_stored_def)
  have e2: "slot_at a' v' (Ent2 j) = (if Ent2 j = sl then n else slot_at a v (Ent2 j))" if "j < NINDIRECT" for j
    using child [of "Ent2 j"] addr that by simp
  show ?thesis
  proof (cases c)
    case (Addr i) then show ?thesis using addr c by simp
  next
    case (Ent1 j) then show ?thesis using child [of "Ent1 j"] addr c by simp
  next
    case (Ent2 j) then show ?thesis using e2 c by simp
  next
    case (Ent22 j k) then show ?thesis using child [of "Ent22 j k"] e2 c by simp
  qed
qed

lemma slot_stored_tree:
  assumes t: "tree_ok sb a v" and len: "\<forall>b \<in> tree_blocks a v. length (v b) = BSIZE"
    and sl: "slot_ok sl" "slot_at a v sl = 0" and n: "n \<noteq> 0" "n < 2 ^ 32" "n \<notin> tree_blocks a v"
    and st: "slot_stored sl n a v a' v'"
    and u: "data_start sb \<le> n" "n < sb_size sb" "used sb v' n" "\<forall>b \<in> tree_blocks a v. used sb v' b"
  shows "tree_ok sb a' v'" "tree_blocks a' v' = insert n (tree_blocks a v)"
proof -
  note at = slot_stored_at [OF t len sl n st]
  have s: "{c. slot_ok c \<and> slot_at a' v' c \<noteq> 0} = insert sl {c. slot_ok c \<and> slot_at a v c \<noteq> 0}"
    using at n(1) sl by (auto split: if_splits)
  show tb: "tree_blocks a' v' = insert n (tree_blocks a v)"
    unfolding tree_blocks_def s using at sl by (auto simp: image_iff)
  have l: "length a' = NDIRECT + 2" using st t by (auto simp: slot_stored_def tree_ok_def split: option.splits)
  have ne: "slot_at a v c \<noteq> n" if "slot_ok c" for c using that n(1,3) by (auto simp: tree_blocks_def)
  have "inj_on (slot_at a' v') (insert sl {c. slot_ok c \<and> slot_at a v c \<noteq> 0})"
  proof (rule inj_onI)
    fix c d assume "c \<in> insert sl {c. slot_ok c \<and> slot_at a v c \<noteq> 0}" "d \<in> insert sl {c. slot_ok c \<and> slot_at a v c \<noteq> 0}"
      and eq: "slot_at a' v' c = slot_at a' v' d"
    then have cd: "slot_ok c" "slot_ok d" "c \<noteq> sl \<Longrightarrow> slot_at a v c \<noteq> 0" using sl(1) by auto
    show "c = d" using eq ne cd tree_okD(4) [OF t cd(1) cd(3) cd(2)] unfolding at [OF cd(1)] at [OF cd(2)]
      by (metis (full_types))
  qed
  moreover have "data_start sb \<le> slot_at a' v' c \<and> slot_at a' v' c < sb_size sb \<and> used sb v' (slot_at a' v' c)"
    if "slot_ok c" "slot_at a' v' c \<noteq> 0" for c
  proof (cases "c = sl")
    case False
    then have e: "slot_at a' v' c = slot_at a v c" "slot_at a v c \<noteq> 0" using at [OF that(1)] that(2) by auto
    then have "slot_at a v c \<in> tree_blocks a v" using that(1) by (auto simp: tree_blocks_def)
    then show ?thesis using e tree_okD(1,2) [OF t that(1) e(2)] u(4) by simp
  qed (use at [OF that(1)] u in simp)
  ultimately show "tree_ok sb a' v'" using l s by (simp add: tree_ok_def)
qed

section \<open>Updates of the inode cache and the layers below\<close>

lemma inodes_upd_inode: "inodes (upd_inode ip f s) = (inodes s)(ip := f (inodes s ip))"
  by (simp add: upd_inode_def)

lemma upd_inode_below [simp]:
  "memdisk (upd_inode ip f s) = memdisk s" "disksize (upd_inode ip f s) = disksize s" "disk_writes (upd_inode ip f s) = disk_writes s"
  "bufs (upd_inode ip f s) = bufs s" "curpid (upd_inode ip f s) = curpid s" "log_start (upd_inode ip f s) = log_start s"
  "log_size (upd_inode ip f s) = log_size s" "log_outstanding (upd_inode ip f s) = log_outstanding s"
  "log_committing (upd_inode ip f s) = log_committing s" "log_dev (upd_inode ip f s) = log_dev s" "lh_n (upd_inode ip f s) = lh_n s"
  "lh_block (upd_inode ip f s) = lh_block s" "fs_sb (upd_inode ip f s) = fs_sb s" "fstate.more (upd_inode ip f s) = fstate.more s"
  by (simp_all add: upd_inode_def)

lemma inodes_update_preds [simp]:
  "bview (inodes_update f s) = bview s" "held (inodes_update f s) = held s" "dirtyb (inodes_update f s) = dirtyb s"
  "bat (inodes_update f s) = bat s" "binv (inodes_update f s) = binv s" "tx_inv (inodes_update f s) = tx_inv s"
  "log_spare (inodes_update f s) = log_spare s" "home_block (inodes_update f s) = home_block s" "log_area (inodes_update f s) = log_area s"
  "fs_layout (inodes_update f s) = fs_layout s" "fs_base (inodes_update f s) = fs_base s" "fs_tx (inodes_update f s) = fs_tx s"
proof -
  show a: "bview (inodes_update f s) = bview s" "held (inodes_update f s) = held s" "dirtyb (inodes_update f s) = dirtyb s"
    "bat (inodes_update f s) = bat s"
    by (simp_all add: bview_def held_def dirtyb_def bat_def fun_eq_iff cong: option.case_cong)
  show b: "binv (inodes_update f s) = binv s"
    by (simp add: binv_def lru_def)
  show c: "log_area (inodes_update f s) = log_area s" by (simp add: log_area_def)
  then show "home_block (inodes_update f s) = home_block s" by (simp add: home_block_def fun_eq_iff)
  from c show "tx_inv (inodes_update f s) = tx_inv s" "log_spare (inodes_update f s) = log_spare s" "fs_layout (inodes_update f s) = fs_layout s" "fs_base (inodes_update f s) = fs_base s" "fs_tx (inodes_update f s) = fs_tx s"
    using a b by (simp_all add: tx_inv_def log_inv_def log_layout_def logged_def log_spare_def fs_tx_def fs_base_def fs_layout_def)
qed

lemma upd_inode_preds [simp]:
  "bview (upd_inode ip f s) = bview s" "held (upd_inode ip f s) = held s" "dirtyb (upd_inode ip f s) = dirtyb s"
  "bat (upd_inode ip f s) = bat s" "binv (upd_inode ip f s) = binv s" "tx_inv (upd_inode ip f s) = tx_inv s"
  "log_spare (upd_inode ip f s) = log_spare s" "home_block (upd_inode ip f s) = home_block s" "log_area (upd_inode ip f s) = log_area s"
  "fs_layout (upd_inode ip f s) = fs_layout s" "fs_base (upd_inode ip f s) = fs_base s" "fs_tx (upd_inode ip f s) = fs_tx s"
  by (simp_all add: upd_inode_def)

section \<open>Growing a file\<close>

definition bitmaps :: "superblock \<Rightarrow> nat set" where
  "bitmaps sb = {sb_bmapstart sb..<data_start sb}"

text \<open>The log slots left when those of the bitmap are set aside.\<close>

definition fs_spare :: "'a fstate_scheme \<Rightarrow> nat" where
  "fs_spare s = nat (log_size s) - 1 - card (dirtyb s \<union> bitmaps (fs_sb s))"

definition fs_free :: "'a fstate_scheme \<Rightarrow> nat set" where
  "fs_free s = {n. n < sb_size (fs_sb s) \<and> \<not> used (fs_sb s) (bview s) n}"

definition fslot :: "'a fstate_scheme \<Rightarrow> nat \<Rightarrow> slot \<Rightarrow> nat" where
  "fslot s ip = slot_at (i_addrs (inodes s ip)) (bview s)"

definition fblocks :: "'a fstate_scheme \<Rightarrow> nat \<Rightarrow> nat set" where
  "fblocks s ip = tree_blocks (i_addrs (inodes s ip)) (bview s)"

definition file_ok :: "'a fstate_scheme \<Rightarrow> nat \<Rightarrow> bool" where
  "file_ok s ip \<longleftrightarrow> fs_tx s \<and> held s = {} \<and> i_dev (inodes s ip) = 1 \<and> tree_ok (fs_sb s) (i_addrs (inodes s ip)) (bview s)"

text \<open>The states differ only in the cache, the log's list and the addresses of the inode.\<close>

definition file_same :: "nat \<Rightarrow> 'a fstate_scheme \<Rightarrow> 'a fstate_scheme \<Rightarrow> bool" where
  "file_same ip s s' \<longleftrightarrow> tx_same (upd_inode ip (i_addrs_update (\<lambda>_. i_addrs (inodes s' ip))) s) s'"

text \<open>
  From \<open>s\<close> to \<open>s'\<close> the file has grown: the new blocks were free, nothing else has been marked, and only blocks of the
  file and of the bitmap have changed.
\<close>

definition grown :: "nat \<Rightarrow> nat \<Rightarrow> 'a fstate_scheme \<Rightarrow> 'a fstate_scheme \<Rightarrow> bool" where
  "grown k ip s s' \<longleftrightarrow> file_ok s' ip \<and> file_same ip s s' \<and> fblocks s ip \<subseteq> fblocks s' ip
     \<and> fblocks s' ip \<subseteq> fblocks s ip \<union> fs_free s
     \<and> (\<forall>m < sb_size (fs_sb s). used (fs_sb s) (bview s') m \<longleftrightarrow> used (fs_sb s) (bview s) m \<or> m \<in> fblocks s' ip)
     \<and> (\<forall>m. m \<notin> fblocks s' ip \<union> bitmaps (fs_sb s) \<longrightarrow> bview s' m = bview s m)
     \<and> fs_spare s \<le> fs_spare s' + k \<and> card (fs_free s) \<le> card (fs_free s') + k"

lemma file_sameD:
  fixes s s' :: "'a fstate_scheme"
  assumes "file_same ip s s'"
  shows "fs_sb s' = fs_sb s" "disksize s' = disksize s" "curpid s' = curpid s" "log_area s' = log_area s" "log_size s' = log_size s"
    "fstate.more s' = fstate.more s" "memdisk s' = memdisk s"
    "inodes s' = (inodes s)(ip := (inodes s ip)\<lparr>i_addrs := i_addrs (inodes s' ip)\<rparr>)"
  using fs_same [OF assms [unfolded file_same_def]] tx_sameD(2) [OF assms [unfolded file_same_def]]
  by (simp_all add: inodes_upd_inode)

lemma file_same_trans:
  assumes "file_same ip s t" "file_same ip t u"
  shows "file_same ip s u"
proof -
  note a = file_sameD [OF assms(1)] and b = file_sameD [OF assms(2)]
  have "inodes u = (inodes s)(ip := (inodes s ip)\<lparr>i_addrs := i_addrs (inodes u ip)\<rparr>)"
    using a(8) b(8) by (metis (no_types, lifting) fun_upd_same fun_upd_upd inode.surjective inode.update_convs(11))
  then have "lstate.more u = lstate.more (upd_inode ip (i_addrs_update (\<lambda>_. i_addrs (inodes u ip))) s)"
    using a(1,6) b(1,6) by (cases s; cases u) (simp add: upd_inode_def)
  then show ?thesis
    using assms by (simp add: file_same_def tx_same_iff)
qed

lemma fs_spare_log:
  assumes "fs_tx s"
  shows "fs_spare s \<le> log_spare s"
proof -
  have i: "tx_inv s" using assms by (simp add: fs_tx_def)
  have "card (dirtyb s) \<le> card (dirtyb s \<union> bitmaps (fs_sb s))"
    using log_spare_dirty(2) [OF i] by (intro card_mono) (auto simp: bitmaps_def)
  then show ?thesis using log_spare_dirty(1) [OF i] by (simp add: fs_spare_def)
qed

lemma fs_spare_step:
  assumes "tx_inv s" "dirtyb s' \<subseteq> dirtyb s \<union> bitmaps (fs_sb s) \<union> D" "log_size s' = log_size s" "fs_sb s' = fs_sb s" "finite D"
  shows "fs_spare s \<le> fs_spare s' + card D"
proof -
  have f: "finite (dirtyb s)" "finite (bitmaps (fs_sb s))" using log_spare_dirty(2) [OF assms(1)] by (simp_all add: bitmaps_def)
  have "card (dirtyb s' \<union> bitmaps (fs_sb s)) \<le> card (dirtyb s \<union> bitmaps (fs_sb s) \<union> D)"
    using f assms(2,5) by (intro card_mono) auto
  also have "\<dots> \<le> card (dirtyb s \<union> bitmaps (fs_sb s)) + card D" by (rule card_Un_le)
  finally show ?thesis using assms(3,4) by (simp add: fs_spare_def)
qed

lemma finite_fs_free [simp]: "finite (fs_free s)"
  by (simp add: fs_free_def)

lemma grownD:
  assumes "grown k ip s s'"
  shows "file_ok s' ip" "file_same ip s s'" "fblocks s ip \<subseteq> fblocks s' ip" "fblocks s' ip \<subseteq> fblocks s ip \<union> fs_free s"
    "m < sb_size (fs_sb s) \<Longrightarrow> used (fs_sb s) (bview s') m \<longleftrightarrow> used (fs_sb s) (bview s) m \<or> m \<in> fblocks s' ip"
    "m \<notin> fblocks s' ip \<Longrightarrow> m \<notin> bitmaps (fs_sb s) \<Longrightarrow> bview s' m = bview s m"
    "fs_spare s \<le> fs_spare s' + k" "card (fs_free s) \<le> card (fs_free s') + k" "fs_sb s' = fs_sb s"
  using assms file_sameD(1) [of ip s s'] by (auto simp: grown_def)

lemma grown_trans:
  assumes "grown j ip s t" "grown k ip t u"
  shows "grown (j + k) ip s u"
proof -
  note a = grownD [OF assms(1)] and b = grownD [OF assms(2)]
  have f: "fs_free t \<subseteq> fs_free s" using a(5,9) by (auto simp: fs_free_def)
  show ?thesis
    unfolding grown_def
  proof (intro conjI allI impI)
    show "file_same ip s u" by (rule file_same_trans [OF a(2) b(2)])
    show "fblocks s ip \<subseteq> fblocks u ip" "fblocks u ip \<subseteq> fblocks s ip \<union> fs_free s" using a(3,4) b(3,4) f by blast+
    show "used (fs_sb s) (bview u) m = (used (fs_sb s) (bview s) m \<or> m \<in> fblocks u ip)" if "m < sb_size (fs_sb s)" for m
      using a(3,5,9) b(3,5) that by (metis subsetD)
    show "bview u m = bview s m" if "m \<notin> fblocks u ip \<union> bitmaps (fs_sb s)" for m
      using a(6,9) b(3,6) that by (metis UnCI subsetD)
    show "fs_spare s \<le> fs_spare u + (j + k)" "card (fs_free s) \<le> card (fs_free u) + (j + k)" using a(7,8) b(7,8) by linarith+
  qed (rule b(1))
qed

lemma file_same_inode:
  assumes "file_same ip s s'"
  shows "j \<noteq> ip \<Longrightarrow> inodes s' j = inodes s j" "i_dev (inodes s' ip) = i_dev (inodes s ip)" "i_inum (inodes s' ip) = i_inum (inodes s ip)"
    "i_ref (inodes s' ip) = i_ref (inodes s ip)" "i_lock (inodes s' ip) = i_lock (inodes s ip)"
    "i_valid (inodes s' ip) = i_valid (inodes s ip)" "i_type (inodes s' ip) = i_type (inodes s ip)"
    "i_major (inodes s' ip) = i_major (inodes s ip)" "i_minor (inodes s' ip) = i_minor (inodes s ip)"
    "i_nlink (inodes s' ip) = i_nlink (inodes s ip)" "i_size (inodes s' ip) = i_size (inodes s ip)"
  by (subst file_sameD(8) [OF assms], simp)+

fun leaf :: "slot \<Rightarrow> bool" where
  "leaf (Addr i) \<longleftrightarrow> i < NDIRECT"
| "leaf (Ent1 j) \<longleftrightarrow> True"
| "leaf (Ent2 j) \<longleftrightarrow> False"
| "leaf (Ent22 j k) \<longleftrightarrow> True"

lemma leaf_slot_of [simp]: "leaf (slot_of bn)"
  by (simp add: slot_of_def)

lemma leaf_not_parent: "parent c = Some p \<Longrightarrow> \<not> leaf p"
  by (cases c) auto

text \<open>The slot \<open>sl\<close> now holds \<open>addr\<close>, which it already held unless it was empty; all else in the file is as before.\<close>

definition ensured :: "nat \<Rightarrow> slot \<Rightarrow> nat \<Rightarrow> 'a fstate_scheme \<Rightarrow> 'a fstate_scheme \<Rightarrow> bool" where
  "ensured ip sl addr s s' \<longleftrightarrow> grown 2 ip s s' \<and> addr \<noteq> 0
     \<and> (\<forall>c. slot_ok c \<longrightarrow> fslot s' ip c = (if c = sl then addr else fslot s ip c))
     \<and> (fslot s ip sl \<noteq> 0 \<longrightarrow> addr = fslot s ip sl)
     \<and> (\<forall>c. leaf c \<and> slot_ok c \<and> fslot s ip c \<noteq> 0 \<longrightarrow> bview s' (fslot s ip c) = bview s (fslot s ip c))"

lemma sb_size_lt: "fs_tx s \<Longrightarrow> sb_size (fs_sb s) < 2 ^ 32"
  using get_uint_lt [of "bview s 1" 0] by (auto simp: fs_tx_def fs_layout_def decode_sb_def dest: arg_cong [of _ _ sb_size])

lemma data_start_pos [simp]: "0 < data_start sb"
  by (simp add: data_start_def)

lemma fblocks_data:
  assumes "file_ok s ip" "b \<in> fblocks s ip"
  shows "data_start (fs_sb s) \<le> b" "b < sb_size (fs_sb s)" "used (fs_sb s) (bview s) b" "b \<noteq> 0" "length (bview s b) = BSIZE"
    "b < disksize s" "home_block s b" "b \<notin> bitmaps (fs_sb s)" "b \<noteq> 1"
proof -
  obtain sl where "slot_ok sl" "fslot s ip sl \<noteq> 0" "b = fslot s ip sl"
    using assms(2) by (auto simp: fblocks_def tree_blocks_def fslot_def)
  then show a: "data_start (fs_sb s) \<le> b" "b < sb_size (fs_sb s)" "used (fs_sb s) (bview s) b"
    using assms(1) tree_okD(1-3) by (auto simp: file_ok_def fslot_def)
  have l: "fs_layout s" "tx_inv s" using assms(1) by (simp_all add: file_ok_def fs_tx_def)
  note d = data_block [OF l(1) a(1,2)]
  then show "b < disksize s" "home_block s b" "b \<noteq> 1" "b \<notin> bitmaps (fs_sb s)" using a(1) by (simp_all add: bitmaps_def)
  show "b \<noteq> 0" using a(1) data_start_pos [of "fs_sb s"] by linarith
  show "length (bview s b) = BSIZE" using length_bview [OF tx_inv_binv [OF l(2)] d(1)] .
qed

lemma BBLOCK_bitmaps: "n < sb_size sb \<Longrightarrow> BBLOCK n sb \<in> bitmaps sb"
  by (simp add: bitmaps_def BBLOCK_def data_start_def div_le_mono less_Suc_eq_le)

lemma grow_one:
  assumes ok: "file_ok s ip" and ff: "first_free (fs_sb s) (bview s) n" and sl: "slot_ok sl" "fslot s ip sl = 0"
    and same: "file_same ip s s'" and inv: "tx_inv s'" "held s' = {}"
    and st: "slot_stored sl n (i_addrs (inodes s ip)) (bview s) (i_addrs (inodes s' ip)) (bview s')"
    and D: "dirtyb s' \<subseteq> dirtyb s \<union> bitmaps (fs_sb s) \<union> D" "finite D" "card D \<le> 2"
    and fr: "\<forall>m. m \<notin> insert n (fblocks s ip) \<longrightarrow> bview s' m = mark (fs_sb s) n (bview s) m"
  shows "ensured ip sl n s s'"
proof -
  let ?sb = "fs_sb s" and ?v = "bview s" and ?v' = "bview s'" and ?a = "i_addrs (inodes s ip)" and ?a' = "i_addrs (inodes s' ip)"
  have tx: "fs_tx s" "tree_ok ?sb ?a ?v" "i_dev (inodes s ip) = 1" using ok by (simp_all add: file_ok_def)
  note f = first_free_data [OF tx(1) ff] and e = file_sameD [OF same] and b = fblocks_data [OF ok]
  have n: "n \<noteq> 0" "n < 2 ^ 32" using f(1,2) sb_size_lt [OF tx(1)] data_start_pos [of ?sb] by linarith+
  have "\<not> used ?sb ?v n" using ff by (simp add: first_free_def)
  then have nb: "n \<notin> fblocks s ip" using b(3) by blast
  have bb: "m < sb_size ?sb \<Longrightarrow> BBLOCK m ?sb \<notin> insert n (fblocks s ip)" for m
    using BBLOCK_bitmaps [of m ?sb] f(1) b(8) by (auto simp: bitmaps_def)
  have u: "used ?sb ?v' m \<longleftrightarrow> used ?sb ?v m \<or> m = n" if "m < sb_size ?sb" for m
    using fr bb [OF that] used_mark [of ?v n ?sb m, OF f(5)] by (simp add: used_def)
  have len: "\<forall>b \<in> tree_blocks ?a ?v. length (?v b) = BSIZE" using b(5) by (simp add: fblocks_def)
  note args = tx(2) len sl(1) sl(2) [unfolded fslot_def] n nb [unfolded fblocks_def] st
  note at = slot_stored_at [OF args]
  have t: "tree_ok ?sb ?a' ?v'" "fblocks s' ip = insert n (fblocks s ip)"
    using slot_stored_tree [OF args f(1,2)] u f(2) b(2,3) by (simp_all add: fblocks_def)
  have "1 \<notin> insert n (fblocks s ip)" using f(4) b(9) by blast
  then have sb1: "?v' 1 = ?v 1" using fr f(6) by (simp add: mark_def)
  have ds: "data_start ?sb \<le> sb_size ?sb" using tx(1) by (simp add: fs_tx_def fs_layout_def)
  have "fs_tx s'"
    using tx(1) inv sb1 u ds e by (simp add: fs_tx_def fs_layout_def)
  then have ok': "file_ok s' ip" using inv(2) t(1) e(1) file_same_inode(2) [OF same] tx(3) by (simp add: file_ok_def)
  have "fs_spare s \<le> fs_spare s' + card D" by (rule fs_spare_step [OF _ D(1) e(5) e(1) D(2)]) (use tx(1) in \<open>simp add: fs_tx_def\<close>)
  then have sp: "fs_spare s \<le> fs_spare s' + 2" using D(3) by linarith
  have "fs_free s' = fs_free s - {n}" using u e(1) by (auto simp: fs_free_def)
  then have fc: "card (fs_free s) \<le> card (fs_free s') + 2" using card_Diff_singleton_if [of "fs_free s" n] by (simp split: if_splits)
  have "n \<in> fs_free s" using ff by (simp add: fs_free_def first_free_def)
  moreover have "?v' m = ?v m" if "m \<notin> insert n (fblocks s ip) \<union> bitmaps ?sb" for m
    using fr that BBLOCK_bitmaps [OF f(2)] by (auto simp: mark_def)
  ultimately have "grown 2 ip s s'"
    unfolding grown_def t(2) using ok' same u sp fc b(3) by (intro conjI allI impI; blast)
  moreover have "?v' (fslot s ip c) = ?v (fslot s ip c)" if c: "leaf c" "slot_ok c" "fslot s ip c \<noteq> 0" for c
  proof -
    have cb: "fslot s ip c \<in> tree_blocks ?a ?v"
      unfolding tree_blocks_def fslot_def using c(2,3) by (intro imageI) (simp add: fslot_def)
    show ?thesis
    proof (cases "parent sl")
      case (Some p)
      have "fslot s ip c \<noteq> slot_at ?a ?v p"
      proof
        assume eq: "fslot s ip c = slot_at ?a ?v p"
        have "p = c"
          by (rule tree_okD(4) [OF tx(2) c(2)]) (use c(3) eq parent_ok(1) [OF Some sl(1)] in \<open>simp_all add: fslot_def\<close>)
        then show False using c(1) leaf_not_parent [OF Some] by simp
      qed
      then show ?thesis using st Some cb by (simp add: slot_stored_def)
    qed (use st cb in \<open>simp add: slot_stored_def\<close>)
  qed
  ultimately show ?thesis using at n(1) sl(2) by (simp add: ensured_def fslot_def)
qed

section \<open>The block map\<close>

lemma first_free_ex:
  assumes "fs_free s \<noteq> {}"
  obtains n where "first_free (fs_sb s) (bview s) n"
proof -
  let ?P = "\<lambda>n. n < sb_size (fs_sb s) \<and> \<not> used (fs_sb s) (bview s) n"
  define n where "n = (LEAST n. ?P n)"
  have "\<exists>n. ?P n" using assms by (auto simp: fs_free_def)
  then have n: "?P n" unfolding n_def by (rule LeastI_ex)
  have "used (fs_sb s) (bview s) m" if "m < n" for m
    using not_less_Least [of m ?P] that n by (auto simp: n_def)
  then show ?thesis using n that [of n] by (simp add: first_free_def)
qed

lemma tx_same_upd_inode: "tx_same s s' \<Longrightarrow> tx_same (upd_inode ip f s) (upd_inode ip f s')"
  by (cases s; cases s') (simp add: tx_same_iff upd_inode_def)

lemma file_same_tx:
  assumes "tx_same s s'"
  shows "file_same ip s s'"
proof -
  have "upd_inode ip (i_addrs_update (\<lambda>_. i_addrs (inodes s' ip))) s = s"
    using fs_same(2) [OF assms] by (cases s) (simp add: upd_inode_def)
  then show ?thesis using assms by (simp add: file_same_def)
qed

lemma file_same_upd:
  assumes "tx_same s s1"
  shows "file_same ip s (upd_inode ip (i_addrs_update g) s1)"
proof -
  have "upd_inode ip (i_addrs_update (\<lambda>_. g (i_addrs (inodes s1 ip)))) s = upd_inode ip (i_addrs_update g) s"
    using fs_same(2) [OF assms] by (cases "inodes s ip") (simp add: upd_inode_def)
  then show ?thesis using tx_same_upd_inode [OF assms] by (simp add: file_same_def inodes_upd_inode)
qed

lemma grown_quiet:
  assumes "file_ok s ip" "tx_step s s' (bview s) {}"
  shows "grown k ip s s'"
proof -
  note d = tx_stepD [OF assms(2)] and f = fs_same [OF tx_stepD(2) [OF assms(2)]]
  have "file_ok s' ip" using assms(1) fs_tx_same [OF _ assms(2)] d f by (simp add: file_ok_def)
  moreover have "fs_spare s' = fs_spare s" "fs_free s' = fs_free s" "fblocks s' ip = fblocks s ip"
    using d f tx_sameD(2) [OF d(2)] by (simp_all add: fs_spare_def fs_free_def fblocks_def)
  moreover have "used (fs_sb s) (bview s) m" if "m \<in> fblocks s ip" for m using fblocks_data(3) [OF assms(1) that] .
  ultimately show ?thesis using file_same_tx [OF d(2)] d(3) by (auto simp: grown_def)
qed

lemma ensured_quiet:
  assumes "file_ok s ip" "tx_step s s' (bview s) {}" "fslot s ip sl \<noteq> 0"
  shows "ensured ip sl (fslot s ip sl) s s'"
  using grown_quiet [OF assms(1,2)] assms(3) tx_stepD(3) [OF assms(2)] fs_same(2) [OF tx_stepD(2) [OF assms(2)]]
  by (simp add: ensured_def fslot_def)

lemma tx_step_refl: "tx_inv s \<Longrightarrow> tx_step s s (bview s) {}"
  by (simp add: tx_step_def)

lemma bmap_addr_ok:
  assumes ok: "file_ok s ip" and sp: "2 \<le> fs_spare s" and fr: "fs_free s \<noteq> {}" and i: "i < NDIRECT + 2"
  shows "\<exists>addr s'. bmap_addr ip i s = Ok (addr, s') \<and> ensured ip (Addr i) addr s s'"
proof (cases "i_addrs (inodes s ip) ! i = 0")
  case False
  have "tx_inv s" using ok by (simp add: file_ok_def fs_tx_def)
  then show ?thesis using False ensured_quiet [OF ok tx_step_refl, of "Addr i"] by (simp add: bmap_addr_def fslot_def)
next
  case True
  have t: "fs_tx s" "held s = {}" "i_dev (inodes s ip) = 1" using ok by (simp_all add: file_ok_def)
  obtain n where ff: "first_free (fs_sb s) (bview s) n" using first_free_ex [OF fr] .
  note f = first_free_data [OF t(1) ff]
  have "card (held s) + 2 \<le> log_spare s" using sp t(2) fs_spare_log [OF t(1)] by simp
  from balloc_ok [OF t(1) this ff] obtain s1 where b: "balloc 1 s = Ok (n, s1)"
    "tx_step s s1 ((mark (fs_sb s) n (bview s))(n := replicate BSIZE 0)) {BBLOCK n (fs_sb s), n}" by blast
  note d = tx_stepD [OF b(2)]
  let ?s' = "upd_inode ip (i_addrs_update (\<lambda>a. a[i := n])) s1"
  have nb: "n \<notin> fblocks s ip" using fblocks_data(3) [OF ok] ff by (auto simp: first_free_def)
  have st: "slot_stored (Addr i) n (i_addrs (inodes s ip)) (bview s) (i_addrs (inodes ?s' ip)) (bview ?s')"
    using d(3) nb fblocks_data(8) [OF ok] BBLOCK_bitmaps [OF f(2)] fs_same(2) [OF d(2)]
    by (auto simp: slot_stored_def inodes_upd_inode fblocks_def mark_def)
  have "ensured ip (Addr i) n s ?s'"
    by (rule grow_one [OF ok ff _ _ file_same_upd [OF d(2)] _ _ st, where D = "{n}"])
      (use i True d t(2) BBLOCK_bitmaps [OF f(2)] in \<open>auto simp: fslot_def\<close>)
  moreover have "bmap_addr ip i s = Ok (n, ?s')" using True b(1) t(3) by (simp add: bmap_addr_def)
  ultimately show ?thesis by blast
qed

lemma bmap_entry_ok:
  assumes ok: "file_ok s ip" and sp: "3 \<le> fs_spare s" and fr: "fs_free s \<noteq> {}" and sl: "slot_ok sl" "parent sl = Some p"
    and p: "fslot s ip p \<noteq> 0"
  shows "\<exists>addr s'. bmap_entry ip (fslot s ip p) (slot_index sl) s = Ok (addr, s') \<and> ensured ip sl addr s s'"
proof -
  let ?blk = "fslot s ip p" and ?j = "slot_index sl" and ?sb = "fs_sb s"
  have t: "fs_tx s" "held s = {}" "i_dev (inodes s ip) = 1" "tx_inv s" using ok by (simp_all add: file_ok_def fs_tx_def)
  have pk: "slot_ok p" using parent_ok(1) [OF sl(2,1)] .
  then have "?blk \<in> fblocks s ip" using p unfolding fblocks_def tree_blocks_def fslot_def by (intro imageI) simp
  note bd = fblocks_data [OF ok this]
  have at: "fslot s ip sl = get_uint (bview s ?blk) ?j" using slot_at_parent [OF sl(2)] p by (simp add: fslot_def entry_def)
  have h: "?blk \<notin> held s" "card (held s) \<le> log_spare s" using t(2) by simp_all
  show ?thesis
  proof (cases "fslot s ip sl = 0")
    case False
    obtain b s1 s2 where r: "bread 1 ?blk s = Ok (b, s1)" "b_data (bufs s1 b) = bview s ?blk" "tx_same s s1" "brelse b s1 = Ok s2"
      "tx_step s s2 (bview s) {}"
      using peek_data [OF t(4) bd(6) h] by blast
    have "bmap_entry ip ?blk ?j s = Ok (fslot s ip sl, s2)" using r at False t(3) by (simp add: bmap_entry_def)
    then show ?thesis using ensured_quiet [OF ok r(5) False] by blast
  next
    case True
    obtain b s1 where r: "bread 1 ?blk s = Ok (b, s1)" "tx_inv s1" "bquiet s s1" "tx_same s s1" "log_spare s1 = log_spare s"
      "bview s1 = bview s" "bat s1 b ?blk" "held s1 = insert ?blk (held s)"
      using tx.take_block [OF t(4) bd(6) h] by blast
    note q1 = fs_same [OF r(4)]
    have t1: "fs_tx s1" using t(1,2) r q1 bd by (simp add: fs_tx_def fs_layout_def)
    obtain n where ff: "first_free ?sb (bview s) n" using first_free_ex [OF fr] .
    note f = first_free_data [OF t(1) ff]
    have ff1: "first_free (fs_sb s1) (bview s1) n" using ff q1 r(6) by simp
    have "card (held s1) + 2 \<le> log_spare s1" using r(5,8) t(2) fs_spare_log [OF t(1)] sp by simp
    from balloc_ok [OF t1 this ff1] obtain s2 where b: "balloc 1 s1 = Ok (n, s2)"
      "tx_step s1 s2 ((mark ?sb n (bview s))(n := replicate BSIZE 0)) {BBLOCK n ?sb, n}" using q1 r(6) by auto
    note d = tx_stepD [OF b(2)]
    have nb: "n \<notin> fblocks s ip" using fblocks_data(3) [OF ok] ff by (auto simp: first_free_def)
    have ne: "?blk \<noteq> n" "?blk \<noteq> BBLOCK n ?sb" using nb bd(8) \<open>?blk \<in> fblocks s ip\<close> BBLOCK_bitmaps [OF f(2)] by auto
    have at2: "bat s2 b ?blk" using d(6) r(7) .
    have data: "b_data (bufs s2 b) = bview s ?blk" "b_data (bufs s1 b) = bview s ?blk"
      using bview_bat [OF tx_inv_binv [OF d(1)] at2] bview_bat [OF tx_inv_binv [OF r(2)] r(7)] d(3) ne r(6) by (simp_all add: mark_def)
    let ?x = "put_uint ?j n (bview s ?blk)"
    have len: "length ?x = BSIZE" using bd(5) parent_ok(2) [OF sl(2,1)] by (simp add: layout_simps)
    have "2 \<le> card {BBLOCK n ?sb, n} \<Longrightarrow> card {BBLOCK n ?sb, n} = 2" by (simp add: card_insert_if split: if_splits)
    then have "card {BBLOCK n ?sb, n} \<le> 2" by linarith
    then have sp2: "0 < log_spare s2" using tx_step_spare [OF r(2) b(2)] r(5) fs_spare_log [OF t(1)] sp by simp
    have s02: "tx_same s s2" by (rule tx_same_trans [OF r(4) d(2)])
    have "home_block s2 ?blk" using bd(7) tx_same_home [OF s02] by simp
    from put_release [OF d(1) at2 len this sp2] obtain s3 s4 where w: "put_block b ?x s2 = Ok s3" "brelse b s3 = Ok s4" "tx_inv s4"
      "tx_same s2 s4" "bview s4 = (bview s2)(?blk := ?x)" "held s4 = held s2 - {?blk}" "dirtyb s4 = insert ?blk (dirtyb s2)" by blast
    have s04: "tx_same s s4" by (rule tx_same_trans [OF s02 w(4)])
    have v4: "bview s4 = ((mark ?sb n (bview s))(n := replicate BSIZE 0))(?blk := ?x)" using w(5) d(3) by simp
    have st: "slot_stored sl n (i_addrs (inodes s ip)) (bview s) (i_addrs (inodes s4 ip)) (bview s4)"
      unfolding slot_stored_def v4 using sl(2) p ne nb fblocks_data(8) [OF ok] BBLOCK_bitmaps [OF f(2)] fs_same(2) [OF s04]
      by (auto simp: fslot_def fblocks_def mark_def)
    have "ensured ip sl n s s4"
    proof (rule grow_one [OF ok ff sl(1) True file_same_tx [OF s04] w(3) _ st, where D = "{n, ?blk}"])
      show "held s4 = {}" using w(6) d(4) r(8) t(2) by simp
      show "dirtyb s4 \<subseteq> dirtyb s \<union> bitmaps ?sb \<union> {n, ?blk}"
        using w(7) d(5) bquietD(6) [OF r(3)] BBLOCK_bitmaps [OF f(2)] by auto
      show "\<forall>m. m \<notin> insert n (fblocks s ip) \<longrightarrow> bview s4 m = mark ?sb n (bview s) m"
        unfolding v4 using \<open>?blk \<in> fblocks s ip\<close> by auto
    qed (simp_all add: card_insert_if)
    moreover have "bmap_entry ip ?blk ?j s = Ok (n, s4)"
      using r(1) b(1) w(1,2) data at True t(3) q1(2) by (simp add: bmap_entry_def)
    ultimately show ?thesis by blast
  qed
qed

text \<open>The blocks of the file's contents keep their place and their bytes; only the slots \<open>X\<close> may have been filled.\<close>

definition leaves_kept :: "nat \<Rightarrow> slot set \<Rightarrow> 'a fstate_scheme \<Rightarrow> 'a fstate_scheme \<Rightarrow> bool" where
  "leaves_kept ip X s s' \<longleftrightarrow> (\<forall>c. slot_ok c \<and> leaf c \<and> (c \<notin> X \<or> fslot s ip c \<noteq> 0) \<longrightarrow>
     fslot s' ip c = fslot s ip c \<and> (fslot s ip c \<noteq> 0 \<longrightarrow> bview s' (fslot s ip c) = bview s (fslot s ip c)))"

lemma leaves_keptD:
  assumes "leaves_kept ip X s s'" "slot_ok c" "leaf c" "c \<notin> X \<or> fslot s ip c \<noteq> 0"
  shows "fslot s' ip c = fslot s ip c" "fslot s ip c \<noteq> 0 \<Longrightarrow> bview s' (fslot s ip c) = bview s (fslot s ip c)"
  using assms by (auto simp: leaves_kept_def)

lemma leaves_kept_trans:
  assumes "leaves_kept ip X s t" "leaves_kept ip Y t u"
  shows "leaves_kept ip (X \<union> Y) s u"
  unfolding leaves_kept_def
proof (intro allI impI)
  fix c assume c: "slot_ok c \<and> leaf c \<and> (c \<notin> X \<union> Y \<or> fslot s ip c \<noteq> 0)"
  then have "fslot t ip c = fslot s ip c" "fslot s ip c \<noteq> 0 \<Longrightarrow> bview t (fslot s ip c) = bview s (fslot s ip c)"
    using leaves_keptD [OF assms(1), of c] by blast+
  moreover have "fslot u ip c = fslot t ip c" "fslot t ip c \<noteq> 0 \<Longrightarrow> bview u (fslot t ip c) = bview t (fslot t ip c)"
    using leaves_keptD [OF assms(2), of c] c calculation(1) by auto
  ultimately show "fslot u ip c = fslot s ip c \<and> (fslot s ip c \<noteq> 0 \<longrightarrow> bview u (fslot s ip c) = bview s (fslot s ip c))"
    by simp
qed

lemma ensuredD:
  assumes "ensured ip sl addr s s'"
  shows "grown 2 ip s s'" "addr \<noteq> 0" "slot_ok c \<Longrightarrow> fslot s' ip c = (if c = sl then addr else fslot s ip c)"
    "fslot s ip sl \<noteq> 0 \<Longrightarrow> addr = fslot s ip sl" "leaves_kept ip {sl} s s'" "\<not> leaf sl \<Longrightarrow> leaves_kept ip {} s s'"
    "file_ok s' ip" "fs_spare s \<le> fs_spare s' + 2" "card (fs_free s) \<le> card (fs_free s') + 2"
  using assms grownD(1,7,8) [of 2 ip s s'] by (auto simp: ensured_def leaves_kept_def)

lemma bmap_ok:
  assumes ok: "file_ok s ip" and sp: "7 \<le> fs_spare s" and fr: "5 \<le> card (fs_free s)" and bn: "bn < MAXFILE"
  shows "\<exists>addr s'. bmap ip bn s = Ok (addr, s') \<and> grown 6 ip s s' \<and> addr \<noteq> 0 \<and> fslot s' ip (slot_of bn) = addr
    \<and> leaves_kept ip {slot_of bn} s s'"
proof -
  have ne: "fs_free t \<noteq> {}" if "0 < card (fs_free t)" for t :: "'a fstate_scheme" using that by auto
  have mono: "grown 6 ip t u" if "grown k ip t u" "k \<le> 6" for t u :: "'a fstate_scheme" and k using that by (auto simp: grown_def)
  consider "bn < NDIRECT" | "NDIRECT \<le> bn" "bn < NDIRECT + NINDIRECT" | "NDIRECT + NINDIRECT \<le> bn" by linarith
  then show ?thesis
  proof cases
    case 1
    then obtain addr s' where r: "bmap_addr ip bn s = Ok (addr, s')" "ensured ip (Addr bn) addr s s'"
      using bmap_addr_ok [OF ok _ ne, of bn] sp fr by auto
    note e = ensuredD [OF r(2)]
    show ?thesis using 1 r(1) e(2,3,5) mono [OF e(1)] by (simp add: bmap_def slot_of_def)
  next
    case 2
    obtain a1 s1 where r1: "bmap_addr ip NDIRECT s = Ok (a1, s1)" "ensured ip (Addr NDIRECT) a1 s s1"
      using bmap_addr_ok [OF ok _ ne, of NDIRECT] sp fr by auto
    note e1 = ensuredD [OF r1(2)]
    let ?sl = "Ent1 (bn - NDIRECT)"
    have sl: "slot_ok ?sl" "fslot s1 ip (Addr NDIRECT) = a1" using 2 e1(3) by auto
    obtain a2 s2 where r2: "bmap_entry ip a1 (bn - NDIRECT) s1 = Ok (a2, s2)" "ensured ip ?sl a2 s1 s2"
      using bmap_entry_ok [OF e1(7) _ ne sl(1), of "Addr NDIRECT"] sl(2) e1(2,8,9) sp fr by auto
    note e2 = ensuredD [OF r2(2)]
    have "leaves_kept ip ({} \<union> {?sl}) s s2" by (rule leaves_kept_trans [OF e1(6) e2(5)]) simp
    moreover have "slot_of bn = ?sl" using 2 by (simp add: slot_of_def)
    ultimately show ?thesis
      using 2 r1(1) r2(1) sl(1) e2(2,3) mono [OF grown_trans [OF e1(1) e2(1)]] by (simp add: bmap_def)
  next
    case 3
    let ?m = "bn - NDIRECT - NINDIRECT"
    have m: "?m < NBDE" "\<not> bn - NDIRECT < NINDIRECT" "\<not> bn < NDIRECT" using 3 bn by (simp_all add: layout_simps)
    obtain a1 s1 where r1: "bmap_addr ip (NDIRECT + 1) s = Ok (a1, s1)" "ensured ip (Addr (NDIRECT + 1)) a1 s s1"
      using bmap_addr_ok [OF ok _ ne, of "NDIRECT + 1"] sp fr by auto
    note e1 = ensuredD [OF r1(2)]
    let ?d = "Ent2 (?m div NINDIRECT)" and ?sl = "Ent22 (?m div NINDIRECT) (?m mod NINDIRECT)"
    have "?m div NINDIRECT < NINDIRECT" using m(1) by (simp add: layout_simps)
    then have sl: "slot_ok ?d" "slot_ok ?sl" "fslot s1 ip (Addr (NDIRECT + 1)) = a1" using e1(3) by auto
    obtain a2 s2 where r2: "bmap_entry ip a1 (?m div NINDIRECT) s1 = Ok (a2, s2)" "ensured ip ?d a2 s1 s2"
      using bmap_entry_ok [OF e1(7) _ ne sl(1), of "Addr (NDIRECT + 1)"] sl(3) e1(2,8,9) sp fr by auto
    note e2 = ensuredD [OF r2(2)]
    have "fslot s2 ip ?d = a2" using e2(3) sl(1) by simp
    then obtain a3 s3 where r3: "bmap_entry ip a2 (?m mod NINDIRECT) s2 = Ok (a3, s3)" "ensured ip ?sl a3 s2 s3"
      using bmap_entry_ok [OF e2(7) _ ne sl(2), of ?d] e2(2,8,9) e1(8,9) sp fr by auto
    note e3 = ensuredD [OF r3(2)]
    have "leaves_kept ip ({} \<union> {} \<union> {?sl}) s s3"
      by (rule leaves_kept_trans [OF leaves_kept_trans [OF e1(6) e2(6)] e3(5)]) simp_all
    moreover have "slot_of bn = ?sl" using 3 by (simp add: slot_of_def)
    ultimately show ?thesis
      using m r1(1) r2(1) r3(1) sl(2) e3(2,3) mono [OF grown_trans [OF grown_trans [OF e1(1) e2(1)] e3(1)]] by (simp add: bmap_def)
  qed
qed

text \<open>A block that is there is found without a change.\<close>

lemma bmap_entry_mapped:
  assumes ok: "file_ok s ip" and sl: "slot_ok sl" "parent sl = Some p" "fslot s ip sl \<noteq> 0"
  shows "\<exists>s'. bmap_entry ip (fslot s ip p) (slot_index sl) s = Ok (fslot s ip sl, s') \<and> tx_step s s' (bview s) {}"
proof -
  have t: "held s = {}" "i_dev (inodes s ip) = 1" "tx_inv s" using ok by (simp_all add: file_ok_def fs_tx_def)
  have p: "fslot s ip p \<noteq> 0" "fslot s ip sl = get_uint (bview s (fslot s ip p)) (slot_index sl)"
    using slot_at_parent [OF sl(2)] sl(3) by (auto simp: fslot_def entry_def split: if_splits)
  have "fslot s ip p \<in> fblocks s ip"
    using p(1) parent_ok(1) [OF sl(2,1)] unfolding fblocks_def tree_blocks_def fslot_def by (intro imageI) simp
  note bd = fblocks_data [OF ok this]
  obtain b s1 s2 where "bread 1 (fslot s ip p) s = Ok (b, s1)" "b_data (bufs s1 b) = bview s (fslot s ip p)" "brelse b s1 = Ok s2"
      "tx_step s s2 (bview s) {}"
      using peek_data [OF t(3) bd(6)] t(1) by auto
  then show ?thesis using p sl(3) t(2) by (auto simp: bmap_entry_def)
qed

lemma file_ok_quiet: "file_ok s ip \<Longrightarrow> tx_step s s' (bview s) {} \<Longrightarrow> file_ok s' ip \<and> fslot s' ip = fslot s ip"
  using grownD(1) [OF grown_quiet] tx_stepD(3) [of s s'] fs_same(2) [OF tx_stepD(2), of s s'] by (auto simp: fslot_def)

lemma bmap_mapped:
  assumes ok: "file_ok s ip" and bn: "bn < MAXFILE" and m: "fslot s ip (slot_of bn) \<noteq> 0"
  shows "\<exists>s'. bmap ip bn s = Ok (fslot s ip (slot_of bn), s') \<and> tx_step s s' (bview s) {}"
proof -
  have inv: "tx_inv s" using ok by (simp add: file_ok_def fs_tx_def)
  have ad: "bmap_addr ip i s = Ok (fslot s ip (Addr i), s)" if "fslot s ip (Addr i) \<noteq> 0" for i
    using that by (simp add: bmap_addr_def fslot_def)
  consider "bn < NDIRECT" | "NDIRECT \<le> bn" "bn < NDIRECT + NINDIRECT" | "NDIRECT + NINDIRECT \<le> bn" by linarith
  then show ?thesis
  proof cases
    case 1
    then show ?thesis using ad [of bn] m tx_step_refl [OF inv] by (auto simp: bmap_def slot_of_def)
  next
    case 2
    let ?sl = "Ent1 (bn - NDIRECT)"
    have sl: "slot_of bn = ?sl" "slot_ok ?sl" using 2 by (auto simp: slot_of_def)
    then have "fslot s ip (Addr NDIRECT) \<noteq> 0" using m by (auto simp: fslot_def entry_def split: if_splits)
    moreover have "bn - NDIRECT < NINDIRECT" "\<not> bn < NDIRECT" using 2 by auto
    ultimately show ?thesis using ad [of NDIRECT] bmap_entry_mapped [OF ok sl(2), of "Addr NDIRECT"] m sl(1) by (simp add: bmap_def)
  next
    case 3
    let ?m = "bn - NDIRECT - NINDIRECT"
    let ?d = "Ent2 (?m div NINDIRECT)" and ?sl = "Ent22 (?m div NINDIRECT) (?m mod NINDIRECT)"
    have k: "?m < NBDE" "\<not> bn - NDIRECT < NINDIRECT" "\<not> bn < NDIRECT" using 3 bn by (simp_all add: layout_simps)
    then have "?m div NINDIRECT < NINDIRECT" by (simp add: layout_simps)
    then have sl: "slot_ok ?d" "slot_ok ?sl" "slot_of bn = ?sl" using 3 by (auto simp: slot_of_def)
    have d: "fslot s ip ?d \<noteq> 0" "fslot s ip (Addr (NDIRECT + 1)) \<noteq> 0"
      using m sl(3) by (auto simp: fslot_def entry_def split: if_splits)
    obtain s1 where r1: "bmap_entry ip (fslot s ip (Addr (NDIRECT + 1))) (?m div NINDIRECT) s = Ok (fslot s ip ?d, s1)"
      "tx_step s s1 (bview s) {}" using bmap_entry_mapped [OF ok sl(1) _ d(1), of "Addr (NDIRECT + 1)"] by auto
    note q = file_ok_quiet [OF ok r1(2)]
    obtain s2 where r2: "bmap_entry ip (fslot s ip ?d) (?m mod NINDIRECT) s1 = Ok (fslot s ip ?sl, s2)" "tx_step s1 s2 (bview s1) {}"
      using bmap_entry_mapped [of s1 ip ?sl ?d] q sl(2,3) m by auto
    have "tx_step s s2 (bview s) ({} \<union> {})" using tx_step_trans [OF r1(2) r2(2)] tx_stepD(3) [OF r1(2)] by simp
    then show ?thesis using k ad [OF d(2)] r1(1) r2(1) sl(3) by (simp add: bmap_def Let_def)
  qed
qed

end
