(* ===== verification/Inode_Data.thy ===== *)
theory Inode_Data
  imports Inode_Map
begin

text \<open>
  The contents of a file as a list of bytes: \<open>readi\<close> returns a slice of it,
  \<open>writei\<close> replaces one, and \<open>iupdate\<close> stores an inode so that \<open>ilock\<close> loads
  it again.
\<close>

section \<open>Reading and writing the contents\<close>

definition fbyte :: "'a fstate_scheme \<Rightarrow> nat \<Rightarrow> nat \<Rightarrow> byte" where
  "fbyte s ip x = bview s (fslot s ip (slot_of (x div BSIZE))) ! (x mod BSIZE)"

text \<open>The number of passes of the loops of \<open>readi\<close> and \<open>writei\<close>.\<close>

fun passes :: "nat \<Rightarrow> nat \<Rightarrow> nat" where
  "passes off n = (if n = 0 then 0 else let m = min n (BSIZE - off mod BSIZE) in Suc (passes (off + m) (n - m)))"

declare passes.simps [simp del] readi_loop.simps [simp del] writei_loop.simps [simp del]

lemma chunk_block:
  assumes "m \<le> BSIZE - off mod BSIZE" "i < m"
  shows "(off + i) div BSIZE = off div BSIZE" "(off + i) mod BSIZE = off mod BSIZE + i"
proof -
  have "off + i = off div BSIZE * BSIZE + (off mod BSIZE + i)" by (simp add: div_mult_mod_eq)
  moreover have lt: "off mod BSIZE + i < BSIZE" using assms by linarith
  ultimately show "(off + i) div BSIZE = off div BSIZE" "(off + i) mod BSIZE = off mod BSIZE + i"
    by (metis div_mult_self3 div_less add.right_neutral less_nat_zero_code layout_pos(1), metis mod_mult_self3 mod_less)
qed

lemma chunk_positions:
  assumes "m \<le> BSIZE - off mod BSIZE"
  shows "x div BSIZE = off div BSIZE \<and> off mod BSIZE \<le> x mod BSIZE \<and> x mod BSIZE < off mod BSIZE + m \<longleftrightarrow> off \<le> x \<and> x < off + m"
proof
  assume a: "x div BSIZE = off div BSIZE \<and> off mod BSIZE \<le> x mod BSIZE \<and> x mod BSIZE < off mod BSIZE + m"
  have "x = off div BSIZE * BSIZE + x mod BSIZE" "off = off div BSIZE * BSIZE + off mod BSIZE" using a by (metis div_mult_mod_eq)+
  then show "off \<le> x \<and> x < off + m" using a by linarith
next
  assume "off \<le> x \<and> x < off + m"
  then show "x div BSIZE = off div BSIZE \<and> off mod BSIZE \<le> x mod BSIZE \<and> x mod BSIZE < off mod BSIZE + m"
    using chunk_block [OF assms, of "x - off"] by auto
qed

lemma fslot_in_fblocks: "slot_ok sl \<Longrightarrow> fslot s ip sl \<noteq> 0 \<Longrightarrow> fslot s ip sl \<in> fblocks s ip"
  unfolding fblocks_def tree_blocks_def fslot_def by (intro imageI) simp

lemma readi_loop_ok:
  assumes "file_ok s ip" "off + n \<le> MAXFILE * BSIZE" "\<forall>x. off \<le> x \<and> x < off + n \<longrightarrow> fslot s ip (slot_of (x div BSIZE)) \<noteq> 0"
  shows "\<exists>s'. readi_loop ip off n s = Ok (map (fbyte s ip) [off..<off + n], s') \<and> tx_step s s' (bview s) {}"
  using assms
proof (induction n arbitrary: off s rule: less_induct)
  case (less n)
  have inv: "tx_inv s" "held s = {}" "i_dev (inodes s ip) = 1" using less(2) by (simp_all add: file_ok_def fs_tx_def)
  show ?case
  proof (cases "n = 0")
    case True
    then show ?thesis using tx_step_refl [OF inv(1)] by (simp add: readi_loop.simps)
  next
    case False
    define m where "m = min n (BSIZE - off mod BSIZE)"
    have m: "m \<le> n" "0 < m" "m \<le> BSIZE - off mod BSIZE" using False by (simp_all add: m_def layout_simps)
    have bn: "off div BSIZE < MAXFILE" using less(3) False by (simp add: less_mult_imp_div_less)
    let ?sl = "slot_of (off div BSIZE)"
    have sl: "fslot s ip ?sl \<noteq> 0" "slot_ok ?sl" using less(4) False slot_of_ok [OF bn] by auto
    obtain s1 where b: "bmap ip (off div BSIZE) s = Ok (fslot s ip ?sl, s1)" "tx_step s s1 (bview s) {}"
      using bmap_mapped [OF less(2) bn sl(1)] by blast
    note d1 = tx_stepD [OF b(2)] and q1 = file_ok_quiet [OF less(2) b(2)]
    note bd = fblocks_data [OF less(2) fslot_in_fblocks [OF sl(2,1)]]
    have ds: "fslot s ip ?sl < disksize s1" using bd(6) fs_same(4) [OF d1(2)] by simp
    obtain c s2 s3 where r: "bread 1 (fslot s ip ?sl) s1 = Ok (c, s2)" "b_data (bufs s2 c) = bview s1 (fslot s ip ?sl)" "tx_same s1 s2"
      "brelse c s2 = Ok s3" "tx_step s1 s3 (bview s1) {}"
      using peek_data [OF d1(1) ds] d1(4) inv(2) by auto
    note q3 = file_ok_quiet [OF _ r(5)]
    have t3: "tx_step s s3 (bview s) {}" using tx_step_trans [OF b(2) r(5)] d1(3) by simp
    have e3: "fbyte s3 ip = fbyte s ip" using q3 q1 tx_stepD(3) [OF t3] by (auto simp: fbyte_def fun_eq_iff)
    have "\<exists>s'. readi_loop ip (off + m) (n - m) s3 = Ok (map (fbyte s3 ip) [off + m..<off + m + (n - m)], s') \<and> tx_step s3 s' (bview s3) {}"
      using less(3,4) m q1 q3 by (intro less(1)) auto
    then obtain s4 where l: "readi_loop ip (off + m) (n - m) s3 = Ok (map (fbyte s ip) [off + m..<off + n], s4)" "tx_step s3 s4 (bview s3) {}"
      using e3 m by auto
    have "slice (off mod BSIZE) m (bview s (fslot s ip ?sl)) = map (fbyte s ip) [off..<off + m]"
      using m(2,3) bd(5) chunk_block [OF m(3)] by (intro nth_equalityI) (auto simp: fbyte_def nth_slice)
    then have "readi_loop ip off n s = Ok (map (fbyte s ip) [off..<off + m] @ map (fbyte s ip) [off + m..<off + n], s4)"
      using False b(1) r l(1) d1(3) fs_same(2) [OF d1(2)] inv(3) by (subst readi_loop.simps) (simp add: m_def [symmetric])
    moreover have "[off..<off + m] @ [off + m..<off + n] = [off..<off + n]" using m by (metis upt_add_eq_append le_add1 le_add_diff_inverse add.assoc)
    ultimately have "readi_loop ip off n s = Ok (map (fbyte s ip) [off..<off + n], s4)" by (metis map_append)
    moreover have "tx_step s s4 (bview s) {}" using tx_step_trans [OF t3 l(2)] tx_stepD(3) [OF t3] by simp
    ultimately show ?thesis by blast
  qed
qed

lemma slot_at_leaf:
  assumes "tree_ok sb a v" "slot_ok c" "leaf c" "slot_at a v c \<noteq> 0" "slot_ok sl"
  shows "slot_at a (v(slot_at a v c := x)) sl = slot_at a v sl"
proof -
  let ?v = "v(slot_at a v c := x)"
  have e: "entry ?v (slot_at a v p) j = entry v (slot_at a v p) j" if "slot_ok p" "\<not> leaf p" for p j
    using tree_okD(4) [OF assms(1,2,4) that(1)] that(2) assms(3) by (auto simp: entry_def)
  show ?thesis
  proof (cases sl)
    case (Ent22 j k)
    then show ?thesis using assms(5) e [of "Addr (NDIRECT + 1)" j] e [of "Ent2 j" k] by simp
  qed (use e [of "Addr NDIRECT"] e [of "Addr (NDIRECT + 1)"] in simp_all)
qed

lemma grown_leaf:
  assumes ok: "file_ok s ip" and c: "slot_ok c" "leaf c" "fslot s ip c \<noteq> 0" and st: "tx_step s s' ((bview s)(fslot s ip c := d)) {fslot s ip c}"
  shows "grown 1 ip s s'" "slot_ok sl \<Longrightarrow> fslot s' ip sl = fslot s ip sl"
proof -
  let ?b = "fslot s ip c" and ?sb = "fs_sb s"
  note td = tx_stepD [OF st] and f = fs_same [OF tx_stepD(2) [OF st]]
  note bd = fblocks_data [OF ok fslot_in_fblocks [OF c(1,3)]]
  have t: "fs_tx s" "tree_ok ?sb (i_addrs (inodes s ip)) (bview s)" "held s = {}" using ok by (simp_all add: file_ok_def)
  show e: "fslot s' ip sl = fslot s ip sl" if "slot_ok sl" for sl
    using slot_at_leaf [OF t(2) c(1,2) c(3) [unfolded fslot_def] that] td(3) f(2) by (simp add: fslot_def)
  have u: "used ?sb (bview s') m = used ?sb (bview s) m" if "m < sb_size ?sb" for m
    unfolding td(3) by (rule used_update_data) (use bd(1) that in auto)
  have ds: "data_start ?sb \<le> sb_size ?sb" using t(1) by (simp add: fs_tx_def fs_layout_def)
  have tx': "fs_tx s'"
    by (rule fs_tx_step [OF t(1) st]) (use t bd(9) u ds td(3) in \<open>auto simp: fs_tx_def fs_layout_def\<close>)
  have s: "{sl. slot_ok sl \<and> fslot s' ip sl \<noteq> 0} = {sl. slot_ok sl \<and> fslot s ip sl \<noteq> 0}" using e by auto
  have fb: "fblocks s' ip = fblocks s ip"
    using s e unfolding fblocks_def tree_blocks_def fslot_def [symmetric] by (intro image_cong) auto
  have "tree_ok ?sb (i_addrs (inodes s' ip)) (bview s')"
    using t(2) s e u inj_on_cong [of "{sl. slot_ok sl \<and> fslot s ip sl \<noteq> 0}" "fslot s' ip" "fslot s ip"] f(2)
    unfolding tree_ok_def fslot_def [symmetric] by (auto simp: fslot_def)
  then have ok': "file_ok s' ip" using tx' ok td(4) f by (simp add: file_ok_def)
  have "fs_spare s \<le> fs_spare s' + card {?b}"
    by (rule fs_spare_step) (use t(1) td(5) tx_sameD(2) [OF td(2)] f(1) in \<open>auto simp: fs_tx_def\<close>)
  moreover have "fs_free s' = fs_free s" using u f(1) by (auto simp: fs_free_def)
  moreover have "used ?sb (bview s) m" if "m \<in> fblocks s ip" for m using fblocks_data(3) [OF ok that] .
  moreover have "bview s' m = bview s m" if "m \<notin> fblocks s ip" for m
    using td(3) that fslot_in_fblocks [OF c(1,3)] by auto
  ultimately show "grown 1 ip s s'" unfolding grown_def fb using ok' file_same_tx [OF td(2)] u by auto
qed

definition mapped :: "'a fstate_scheme \<Rightarrow> nat \<Rightarrow> nat \<Rightarrow> bool" where
  "mapped s ip x \<longleftrightarrow> fslot s ip (slot_of (x div BSIZE)) \<noteq> 0"

lemma write_pass:
  assumes ok: "file_ok s ip" and sp: "7 \<le> fs_spare s" and fr: "5 \<le> card (fs_free s)" and bn: "bn < MAXFILE"
    and o: "o' + length ys \<le> BSIZE"
  shows "\<exists>addr s1 b s2 s3 s4. bmap ip bn s = Ok (addr, s1) \<and> i_dev (inodes s1 ip) = 1 \<and> bread 1 addr s1 = Ok (b, s2)
    \<and> put_block b (splice o' ys (b_data (bufs s2 b))) s2 = Ok s3 \<and> brelse b s3 = Ok s4 \<and> grown 7 ip s s4
    \<and> (\<forall>x. x div BSIZE = bn \<longrightarrow> mapped s4 ip x \<and> (o' \<le> x mod BSIZE \<and> x mod BSIZE < o' + length ys \<longrightarrow> fbyte s4 ip x = ys ! (x mod BSIZE - o')))
    \<and> (\<forall>x. x div BSIZE < MAXFILE \<and> mapped s ip x \<and> \<not> (x div BSIZE = bn \<and> o' \<le> x mod BSIZE \<and> x mod BSIZE < o' + length ys)
         \<longrightarrow> mapped s4 ip x \<and> fbyte s4 ip x = fbyte s ip x)"
proof -
  let ?c = "slot_of bn"
  obtain addr s1 where m: "bmap ip bn s = Ok (addr, s1)" "grown 6 ip s s1" "addr \<noteq> 0" "fslot s1 ip ?c = addr"
    "leaves_kept ip {?c} s s1"
    using bmap_ok [OF ok sp fr bn] by blast
  note g = grownD [OF m(2)]
  have t1: "tx_inv s1" "held s1 = {}" "i_dev (inodes s1 ip) = 1" using g(1) by (simp_all add: file_ok_def fs_tx_def)
  have c: "slot_ok ?c" "leaf ?c" "fslot s1 ip ?c \<noteq> 0" using slot_of_ok [OF bn] m(3,4) by simp_all
  note bd = fblocks_data [OF g(1) fslot_in_fblocks [OF c(1,3)], unfolded m(4)]
  have fs1: "fs_tx s1" using g(1) by (simp add: file_ok_def)
  have sp1: "0 < log_spare s1" "card (held s1) \<le> log_spare s1" using g(7) sp fs_spare_log [OF fs1] t1(2) by auto
  let ?d = "splice o' ys (bview s1 addr)"
  have len: "length ?d = BSIZE" using o bd(5) by simp
  have "addr \<notin> held s1" using t1(2) by simp
  from poke_data [OF t1(1) bd(6) this sp1(2,1) bd(7) len] obtain b s2 s3 s4 where r: "bread 1 addr s1 = Ok (b, s2)"
    "b_data (bufs s2 b) = bview s1 addr" "put_block b ?d s2 = Ok s3" "brelse b s3 = Ok s4" "tx_step s1 s4 ((bview s1)(addr := ?d)) {addr}"
    by blast
  note gl = grown_leaf [OF g(1) c, unfolded m(4), OF r(5)]
  have g4: "grown 7 ip s s4" using grown_trans [OF m(2) gl(1)] by simp
  have v4: "bview s4 = (bview s1)(addr := ?d)" using tx_stepD(3) [OF r(5)] .
  have at: "fslot s4 ip ?c = addr" using gl(2) [OF c(1)] m(4) by simp
  have new: "mapped s4 ip x \<and> (o' \<le> x mod BSIZE \<and> x mod BSIZE < o' + length ys \<longrightarrow> fbyte s4 ip x = ys ! (x mod BSIZE - o'))"
    if "x div BSIZE = bn" for x
    using that at m(3) v4 nth_splice [of o' ys "bview s1 addr" "x mod BSIZE"] o bd(5) by (auto simp: mapped_def fbyte_def)
  have old: "mapped s4 ip x \<and> fbyte s4 ip x = fbyte s ip x"
    if x: "x div BSIZE < MAXFILE" "mapped s ip x" "\<not> (x div BSIZE = bn \<and> o' \<le> x mod BSIZE \<and> x mod BSIZE < o' + length ys)" for x
  proof -
    let ?sl = "slot_of (x div BSIZE)"
    have sl: "slot_ok ?sl" "fslot s ip ?sl \<noteq> 0" using slot_of_ok [OF x(1)] x(2) by (simp_all add: mapped_def)
    have k: "fslot s1 ip ?sl = fslot s ip ?sl" "bview s1 (fslot s ip ?sl) = bview s (fslot s ip ?sl)"
      using leaves_keptD [OF m(5) sl(1) leaf_slot_of] sl(2) by simp_all
    have f4: "fslot s4 ip ?sl = fslot s ip ?sl" using gl(2) [OF sl(1)] k(1) by simp
    show ?thesis
    proof (cases "x div BSIZE = bn")
      case True
      then show ?thesis
        using x(3) f4 k sl(2) at v4 nth_splice [of o' ys "bview s1 addr" "x mod BSIZE"] o bd(5) by (auto simp: mapped_def fbyte_def)
    next
      case False
      have "?sl \<noteq> ?c" using False slot_of_inj by blast
      then have "fslot s ip ?sl \<noteq> addr"
        using tree_okD(4) [of "fs_sb s1" "i_addrs (inodes s1 ip)" "bview s1" ?c ?sl] g(1) c sl k(1) m(4)
        by (auto simp: file_ok_def fslot_def)
      then show ?thesis using f4 k sl(2) v4 by (simp add: mapped_def fbyte_def)
    qed
  qed
  have "put_block b (splice o' ys (b_data (bufs s2 b))) s2 = Ok s3" using r(2,3) by simp
  then show ?thesis using m(1) t1(3) r(1,4) g4 new old by blast
qed

lemma writei_loop_ok:
  assumes "file_ok s ip" "off + n \<le> MAXFILE * BSIZE" "7 * passes off n \<le> fs_spare s" "7 * passes off n \<le> card (fs_free s)" "n \<le> length src"
  shows "\<exists>s'. writei_loop ip src off n s = Ok s' \<and> grown (7 * passes off n) ip s s'
    \<and> (\<forall>x. off \<le> x \<and> x < off + n \<longrightarrow> mapped s' ip x \<and> fbyte s' ip x = src ! (x - off))
    \<and> (\<forall>x. x < MAXFILE * BSIZE \<and> mapped s ip x \<and> \<not> (off \<le> x \<and> x < off + n) \<longrightarrow> mapped s' ip x \<and> fbyte s' ip x = fbyte s ip x)"
  using assms
proof (induction n arbitrary: off src s rule: less_induct)
  case (less n)
  have inv: "tx_inv s" using less(2) by (simp_all add: file_ok_def fs_tx_def)
  show ?case
  proof (cases "n = 0")
    case True
    then show ?thesis using grown_quiet [OF less(2) tx_step_refl [OF inv]] by (auto simp: writei_loop.simps)
  next
    case False
    define m where "m = min n (BSIZE - off mod BSIZE)"
    have m: "m \<le> n" "0 < m" "m \<le> BSIZE - off mod BSIZE" using False by (simp_all add: m_def layout_simps)
    have bn: "off div BSIZE < MAXFILE" using less(3) False by (simp add: less_mult_imp_div_less)
    have ps: "passes off n = Suc (passes (off + m) (n - m))" using False by (subst passes.simps) (simp add: m_def Let_def)
    have o: "off mod BSIZE + length (take m src) \<le> BSIZE" using m by simp
    have l: "length (take m src) = m" using m less(6) by simp
    have c: "7 \<le> fs_spare s" "5 \<le> card (fs_free s)" using less(4,5) ps by simp_all
    obtain addr s1 b s2 s3 s4 where p: "bmap ip (off div BSIZE) s = Ok (addr, s1)" "i_dev (inodes s1 ip) = 1" "bread 1 addr s1 = Ok (b, s2)"
      "put_block b (splice (off mod BSIZE) (take m src) (b_data (bufs s2 b))) s2 = Ok s3" "brelse b s3 = Ok s4" "grown 7 ip s s4"
      "\<forall>x. x div BSIZE = off div BSIZE \<longrightarrow> mapped s4 ip x \<and> (off mod BSIZE \<le> x mod BSIZE \<and> x mod BSIZE < off mod BSIZE + m
         \<longrightarrow> fbyte s4 ip x = take m src ! (x mod BSIZE - off mod BSIZE))"
      "\<forall>x. x div BSIZE < MAXFILE \<and> mapped s ip x \<and> \<not> (x div BSIZE = off div BSIZE \<and> off mod BSIZE \<le> x mod BSIZE \<and> x mod BSIZE < off mod BSIZE + m)
         \<longrightarrow> mapped s4 ip x \<and> fbyte s4 ip x = fbyte s ip x"
      using write_pass [OF less(2) c bn o] unfolding l by blast
    note g = grownD [OF p(6)]
    have "\<exists>s'. writei_loop ip (drop m src) (off + m) (n - m) s4 = Ok s' \<and> grown (7 * passes (off + m) (n - m)) ip s4 s'
      \<and> (\<forall>x. off + m \<le> x \<and> x < off + m + (n - m) \<longrightarrow> mapped s' ip x \<and> fbyte s' ip x = drop m src ! (x - (off + m)))
      \<and> (\<forall>x. x < MAXFILE * BSIZE \<and> mapped s4 ip x \<and> \<not> (off + m \<le> x \<and> x < off + m + (n - m)) \<longrightarrow> mapped s' ip x \<and> fbyte s' ip x = fbyte s4 ip x)"
      using less(3-6) m g ps by (intro less(1)) auto
    then obtain s5 where q: "writei_loop ip (drop m src) (off + m) (n - m) s4 = Ok s5" "grown (7 * passes (off + m) (n - m)) ip s4 s5"
      "\<And>x. off + m \<le> x \<Longrightarrow> x < off + n \<Longrightarrow> mapped s5 ip x \<and> fbyte s5 ip x = src ! (x - off)"
      "\<And>x. x < MAXFILE * BSIZE \<Longrightarrow> mapped s4 ip x \<Longrightarrow> \<not> (off + m \<le> x \<and> x < off + n) \<Longrightarrow> mapped s5 ip x \<and> fbyte s5 ip x = fbyte s4 ip x"
      using m less(6) by auto
    have run: "writei_loop ip src off n s = Ok s5"
      using False p(1-5) q(1) by (subst writei_loop.simps) (simp add: m_def [symmetric])
    have gr: "grown (7 * passes off n) ip s s5" using grown_trans [OF p(6) q(2)] ps by simp
    have pos: "x div BSIZE = off div BSIZE \<and> off mod BSIZE \<le> x mod BSIZE \<and> x mod BSIZE < off mod BSIZE + m \<longleftrightarrow> off \<le> x \<and> x < off + m" for x
      by (rule chunk_positions [OF m(3)])
    have new: "mapped s5 ip x \<and> fbyte s5 ip x = src ! (x - off)" if x: "off \<le> x" "x < off + n" for x
    proof (cases "x < off + m")
      case True
      then have e: "x div BSIZE = off div BSIZE" "off mod BSIZE \<le> x mod BSIZE" "x mod BSIZE < off mod BSIZE + m" using pos x by blast+
      have "x - off = x mod BSIZE - off mod BSIZE" using e x(1) by (metis div_mult_mod_eq diff_cancel)
      then have "mapped s4 ip x" "fbyte s4 ip x = src ! (x - off)" using p(7) e True x(1) by auto
      then show ?thesis using q(4) True x(2) less(3) by auto
    qed (use q(3) x in auto)
    have old: "mapped s5 ip x \<and> fbyte s5 ip x = fbyte s ip x" if x: "x < MAXFILE * BSIZE" "mapped s ip x" "\<not> (off \<le> x \<and> x < off + n)" for x
    proof -
      have "x div BSIZE < MAXFILE" using x(1) by (simp add: less_mult_imp_div_less)
      moreover have "\<not> (x div BSIZE = off div BSIZE \<and> off mod BSIZE \<le> x mod BSIZE \<and> x mod BSIZE < off mod BSIZE + m)"
        unfolding pos using x(3) m(1) by auto
      ultimately have "mapped s4 ip x \<and> fbyte s4 ip x = fbyte s ip x" using p(8) x(2) by blast
      then show ?thesis using q(4) x m(1) by auto
    qed
    show ?thesis using run gr new old by blast
  qed
qed

section \<open>Inodes on disk\<close>

lemma IBLOCK_range:
  assumes "fs_layout s" "inum < sb_ninodes (fs_sb s)"
  shows "IBLOCK inum (fs_sb s) < sb_bmapstart (fs_sb s)" "IBLOCK inum (fs_sb s) < disksize s" "home_block s (IBLOCK inum (fs_sb s))"
    "IBLOCK inum (fs_sb s) \<noteq> 1" "IBLOCK inum (fs_sb s) < data_start (fs_sb s)"
proof -
  have "inum div IPB \<le> sb_ninodes (fs_sb s) div IPB" using assms(2) by (simp add: div_le_mono)
  then show a: "IBLOCK inum (fs_sb s) < sb_bmapstart (fs_sb s)" using assms(1) by (simp add: IBLOCK_def fs_layout_def)
  have "sb_inodestart (fs_sb s) \<le> IBLOCK inum (fs_sb s)" by (simp add: IBLOCK_def)
  then show "IBLOCK inum (fs_sb s) < disksize s" "home_block s (IBLOCK inum (fs_sb s))" "IBLOCK inum (fs_sb s) \<noteq> 1"
    "IBLOCK inum (fs_sb s) < data_start (fs_sb s)"
    using a assms(1) by (auto simp: fs_layout_def home_block_def data_start_def)
qed

lemma length_concat_le: "length (concat (map (le_bytes 4) xs)) = 4 * length xs"
  by (induction xs) simp_all

lemma length_dinode_bytes: "length (i_addrs i) = NDIRECT + 2 \<Longrightarrow> length (dinode_bytes i) = 64"
  by (simp add: dinode_bytes_def length_concat_le layout_simps)

lemma dinode_off_le: "dinode_off inum + 64 \<le> BSIZE"
proof -
  have "inum mod IPB < 8" by (simp add: layout_simps)
  then show ?thesis by (simp add: dinode_off_def layout_simps)
qed

lemma iupdate_ok:
  assumes t: "fs_tx s" "held s = {}" and i: "i_dev (inodes s ip) = 1" "i_inum (inodes s ip) < sb_ninodes (fs_sb s)"
    "length (i_addrs (inodes s ip)) = NDIRECT + 2" and sp: "0 < fs_spare s"
  shows "\<exists>s'. iupdate ip s = Ok s' \<and> tx_step s s' ((bview s)(IBLOCK (i_inum (inodes s ip)) (fs_sb s) :=
      splice (dinode_off (i_inum (inodes s ip))) (dinode_bytes (inodes s ip)) (bview s (IBLOCK (i_inum (inodes s ip)) (fs_sb s)))))
      {IBLOCK (i_inum (inodes s ip)) (fs_sb s)}"
proof -
  let ?n = "IBLOCK (i_inum (inodes s ip)) (fs_sb s)" and ?o = "dinode_off (i_inum (inodes s ip))"
  have l: "fs_layout s" "tx_inv s" using t(1) by (simp_all add: fs_tx_def)
  note r = IBLOCK_range [OF l(1) i(2)]
  have len: "length (bview s ?n) = BSIZE" using length_bview [OF tx_inv_binv [OF l(2)] r(2)] .
  then have len': "length (splice ?o (dinode_bytes (inodes s ip)) (bview s ?n)) = BSIZE"
    using dinode_off_le length_dinode_bytes [OF i(3)] by simp
  have h: "?n \<notin> held s" "card (held s) \<le> log_spare s" "0 < log_spare s" using t(2) sp fs_spare_log [OF t(1)] by simp_all
  obtain b s1 s2 s3 where p: "bread 1 ?n s = Ok (b, s1)" "b_data (bufs s1 b) = bview s ?n" "tx_same s s1"
    "put_block b (splice ?o (dinode_bytes (inodes s ip)) (bview s ?n)) s1 = Ok s2" "brelse b s2 = Ok s3"
    "tx_step s s3 ((bview s)(?n := splice ?o (dinode_bytes (inodes s ip)) (bview s ?n))) {?n}"
    using poke_data [OF l(2) r(2) h r(3) len'] by blast
  then show ?thesis using i(1) fs_same(2) [OF p(3)] by (intro exI [of _ s3]) (simp add: iupdate_def)
qed

text \<open>What \<open>iupdate\<close> stores is what \<open>ilock\<close> loads.\<close>

lemma load_dinode_bytes:
  assumes len: "length (i_addrs i) = NDIRECT + 2" "off + 64 \<le> length d"
    and r: "\<forall>v \<in> {i_type i, i_major i, i_minor i, i_nlink i}. - (2 ^ 15) \<le> v \<and> v < 2 ^ 15" "i_size i < 2 ^ 32" "\<forall>a \<in> set (i_addrs i). a < 2 ^ 32"
  shows "load_dinode (splice off (dinode_bytes i) d) off j =
    j\<lparr>i_type := i_type i, i_major := i_major i, i_minor := i_minor i, i_nlink := i_nlink i, i_size := i_size i, i_addrs := i_addrs i\<rparr>"
proof -
  let ?b = "dinode_bytes i" and ?d = "splice off (dinode_bytes i) d"
  note lb = length_dinode_bytes [OF len(1)]
  have sl: "slice (off + k) m ?d = slice k m ?b" if "k + m \<le> 64" for k m
    using that len(2) lb by (intro nth_equalityI) (auto simp: nth_slice nth_splice)
  have sh: "slice 0 2 ?b = short_bytes (i_type i)" "slice 2 2 ?b = short_bytes (i_major i)" "slice 4 2 ?b = short_bytes (i_minor i)"
    "slice 6 2 ?b = short_bytes (i_nlink i)" "slice 8 4 ?b = le_bytes 4 (i_size i)"
    by (simp_all add: slice_def dinode_bytes_def)
  have ad: "slice (12 + 4 * k) 4 ?b = le_bytes 4 (i_addrs i ! k)" if "k < length (i_addrs i)" for k
  proof -
    have c: "take 4 (drop (4 * k) (concat (map (le_bytes 4) xs))) = le_bytes 4 (xs ! k)" if "k < length xs" for k xs
      using that
    proof (induction xs arbitrary: k)
      case (Cons x xs)
      then show ?case by (cases k) simp_all
    qed simp
    show ?thesis using c [OF that] by (simp add: slice_def dinode_bytes_def)
  qed
  have "load16 ?d off = i_type i" "load16 ?d (off + 2) = i_major i" "load16 ?d (off + 4) = i_minor i" "load16 ?d (off + 6) = i_nlink i"
    using r(1) sh sl [of 0 2] sl [of 2 2] sl [of 4 2] sl [of 6 2] by (auto intro!: load16_short_bytes)
  moreover have "load32 ?d (off + 8) = i_size i"
    using r(2) sh(5) sl [of 8 4] by (simp add: load32_def le_nat_le_bytes)
  moreover have "map (\<lambda>k. load32 ?d (off + 12 + 4 * k)) [0..<NDIRECT + 2] = i_addrs i"
  proof (rule nth_eq_imp_map [symmetric, OF len(1)])
    fix k assume "k < NDIRECT + 2"
    then have "12 + 4 * k + 4 \<le> 64" "k < length (i_addrs i)" using len(1) by (simp_all add: layout_simps)
    then show "i_addrs i ! k = load32 ?d (off + 12 + 4 * k)"
      using sl [of "12 + 4 * k" 4] ad [of k] r(3) by (simp add: load32_def le_nat_le_bytes add.assoc)
  qed
  ultimately show ?thesis by (simp add: load_dinode_def)
qed

section \<open>The file as a list of bytes\<close>

definition fcontents :: "'a fstate_scheme \<Rightarrow> nat \<Rightarrow> byte list" where
  "fcontents s ip = map (fbyte s ip) [0..<i_size (inodes s ip)]"

text \<open>A file that can be read and written: no holes, and its inode has a place on disk.\<close>

definition file_full :: "'a fstate_scheme \<Rightarrow> nat \<Rightarrow> bool" where
  "file_full s ip \<longleftrightarrow> file_ok s ip \<and> i_type (inodes s ip) \<noteq> T_DEV \<and> i_inum (inodes s ip) < sb_ninodes (fs_sb s)
     \<and> i_size (inodes s ip) \<le> MAXFILE * BSIZE \<and> (\<forall>x < i_size (inodes s ip). mapped s ip x)"

lemma fcontents_quiet:
  assumes "file_full s ip" "tx_step s s' (bview s) {}"
  shows "file_full s' ip" "fcontents s' ip = fcontents s ip"
proof -
  have ok: "file_ok s ip" using assms(1) by (simp add: file_full_def)
  note q = file_ok_quiet [OF ok assms(2)] and f = fs_same [OF tx_stepD(2) [OF assms(2)]]
  show "file_full s' ip" "fcontents s' ip = fcontents s ip"
    using assms(1) q f tx_stepD(3) [OF assms(2)] by (simp_all add: file_full_def mapped_def fcontents_def fbyte_def fun_eq_iff)
qed

lemma readi_ok:
  assumes ff: "file_full s ip" and off: "off \<le> i_size (inodes s ip)" and n: "off + n < 2 ^ 32"
  shows "\<exists>s'. readi dv ip off n s = Ok ((int (length (slice off n (fcontents s ip))), slice off n (fcontents s ip)), s')
    \<and> tx_step s s' (bview s) {}"
proof -
  let ?sz = "i_size (inodes s ip)"
  define k where "k = (if off + n > ?sz then ?sz - off else n)"
  have k: "off + k \<le> ?sz" "k \<le> n" using off by (auto simp: k_def)
  have f: "file_ok s ip" "i_type (inodes s ip) \<noteq> T_DEV" "?sz \<le> MAXFILE * BSIZE" "\<forall>x < ?sz. mapped s ip x"
    using ff by (simp_all add: file_full_def)
  obtain s' where r: "readi_loop ip off k s = Ok (map (fbyte s ip) [off..<off + k], s')" "tx_step s s' (bview s) {}"
    using readi_loop_ok [OF f(1), of off k] f(3,4) k(1) by (auto simp: mapped_def)
  have sl: "slice off n (fcontents s ip) = map (fbyte s ip) [off..<off + k]"
    unfolding slice_def fcontents_def drop_map take_map using k off by (auto simp: k_def)
  have "k < 2 ^ 31" using k(1) f(3) by (simp add: layout_simps)
  then have "int_of_uint k = int (length (slice off n (fcontents s ip)))" by (simp add: sl int_of_uint_small)
  moreover have "\<not> (off > ?sz \<or> (off + n) mod 2 ^ 32 < off)" using off n by simp
  ultimately have "readi dv ip off n s = Ok ((int (length (slice off n (fcontents s ip))), slice off n (fcontents s ip)), s')"
    using f(2) r(1) unfolding readi_def Let_def k_def [symmetric] sl by simp
  then show ?thesis using r(2) by blast
qed

text \<open>A logged change below the bitmap, as \<open>iupdate\<close> makes it, leaves the file's blocks alone.\<close>

lemma file_ok_meta:
  assumes ok: "file_ok s ip" and st: "tx_step s s' ((bview s)(m := d)) {m}" and m: "m < sb_bmapstart (fs_sb s)" "m \<noteq> 1"
  shows "file_ok s' ip" "slot_ok sl \<Longrightarrow> fslot s' ip sl = fslot s ip sl" "b \<in> fblocks s ip \<Longrightarrow> bview s' b = bview s b"
proof -
  let ?sb = "fs_sb s" and ?a = "i_addrs (inodes s ip)"
  note td = tx_stepD [OF st] and f = fs_same [OF tx_stepD(2) [OF st]]
  have t: "fs_tx s" "tree_ok ?sb ?a (bview s)" using ok by (simp_all add: file_ok_def)
  have ds: "data_start ?sb \<le> sb_size ?sb" using t(1) by (simp add: fs_tx_def fs_layout_def)
  have lt: "m < data_start ?sb" using m(1) by (simp add: data_start_def)
  have u: "used ?sb (bview s') k = used ?sb (bview s) k" if "k < sb_size ?sb" for k
    unfolding td(3) by (rule used_update_data) (use m(1) that in auto)
  show v: "bview s' b = bview s b" if "b \<in> fblocks s ip" for b
    using td(3) fblocks_data(1) [OF ok that] lt by auto
  have "fs_tx s'"
    by (rule fs_tx_step [OF t(1) st]) (use t ok m(2) u ds td(3) in \<open>auto simp: fs_tx_def fs_layout_def file_ok_def\<close>)
  moreover have "tree_ok ?sb ?a (bview s')"
    by (rule tree_ok_cong(1) [OF t(2)]) (use v u fblocks_data(2,3) [OF ok] in \<open>auto simp: fblocks_def\<close>)
  ultimately show "file_ok s' ip" using ok td(4) f by (simp add: file_ok_def)
  show "fslot s' ip sl = fslot s ip sl" if "slot_ok sl"
    unfolding fslot_def f(2) by (rule slot_at_cong [OF _ that]) (use v in \<open>simp add: fblocks_def\<close>)
qed

lemma fbyte_meta:
  assumes "file_ok s ip" "tx_step s s' ((bview s)(m := d)) {m}" "m < sb_bmapstart (fs_sb s)" "m \<noteq> 1" "x < MAXFILE * BSIZE" "mapped s ip x"
  shows "mapped s' ip x" "fbyte s' ip x = fbyte s ip x"
proof -
  have sl: "slot_ok (slot_of (x div BSIZE))" using assms(5) by (intro slot_of_ok) (simp add: less_mult_imp_div_less)
  note f = file_ok_meta [OF assms(1-4)]
  show "mapped s' ip x" "fbyte s' ip x = fbyte s ip x"
    using f(2) [OF sl] f(3) [OF fslot_in_fblocks [OF sl]] assms(6) by (simp_all add: mapped_def fbyte_def)
qed

lemma overwrite_eq:
  assumes "length xs = max (length c) (off + length src)" "off \<le> length c"
    "\<And>x. x < length xs \<Longrightarrow> xs ! x = (if off \<le> x \<and> x < off + length src then src ! (x - off) else c ! x)"
  shows "xs = take off c @ src @ drop (off + length src) c"
proof (rule nth_equalityI)
  show "length xs = length (take off c @ src @ drop (off + length src) c)" using assms(1,2) by auto
  fix x assume x: "x < length xs"
  consider "x < off" | "off \<le> x" "x < off + length src" | "off + length src \<le> x" by linarith
  then show "xs ! x = (take off c @ src @ drop (off + length src) c) ! x"
  proof cases
    case 3
    then have "off + length src < length c" "x < length c" using x assms(1) by auto
    then show ?thesis using 3 assms(3) [OF x] by (auto simp: nth_append)
  qed (use assms(2) assms(3) [OF x] in \<open>auto simp: nth_append\<close>)
qed

lemma writei_ok:
  assumes ff: "file_full s ip" and off: "off \<le> i_size (inodes s ip)" and lim: "off + length src \<le> MAXFILE * BSIZE"
    and sp: "7 * passes off (length src) < fs_spare s" and fr: "7 * passes off (length src) \<le> card (fs_free s)"
  shows "\<exists>s'. writei dv ip src off (length src) s = Ok (int (length src), s') \<and> file_full s' ip
    \<and> fcontents s' ip = take off (fcontents s ip) @ src @ drop (off + length src) (fcontents s ip)"
proof -
  let ?n = "length src" and ?sz = "i_size (inodes s ip)"
  have f: "file_ok s ip" "i_type (inodes s ip) \<noteq> T_DEV" "i_inum (inodes s ip) < sb_ninodes (fs_sb s)" "?sz \<le> MAXFILE * BSIZE"
    "\<And>x. x < ?sz \<Longrightarrow> mapped s ip x" using ff by (simp_all add: file_full_def)
  from sp have "7 * passes off ?n \<le> fs_spare s" by simp
  from writei_loop_ok [OF f(1) lim this fr order_refl] obtain s1
    where w: "writei_loop ip src off ?n s = Ok s1" "grown (7 * passes off ?n) ip s s1"
      "\<And>x. off \<le> x \<Longrightarrow> x < off + ?n \<Longrightarrow> mapped s1 ip x \<and> fbyte s1 ip x = src ! (x - off)"
      "\<And>x. x < MAXFILE * BSIZE \<Longrightarrow> mapped s ip x \<Longrightarrow> \<not> (off \<le> x \<and> x < off + ?n) \<Longrightarrow> mapped s1 ip x \<and> fbyte s1 ip x = fbyte s ip x"
    by blast
  note g = grownD [OF w(2)]
  note i1 = file_same_inode [OF g(2)]
  define sz' where "sz' = max ?sz (off + ?n)"
  have b1: "mapped s1 ip x" "fbyte s1 ip x = (if off \<le> x \<and> x < off + ?n then src ! (x - off) else fbyte s ip x)" if "x < sz'" for x
  proof -
    have x: "off \<le> x \<and> x < off + ?n \<or> x < ?sz \<and> x < MAXFILE * BSIZE" using that off f(4) by (auto simp: sz'_def)
    then show "mapped s1 ip x" "fbyte s1 ip x = (if off \<le> x \<and> x < off + ?n then src ! (x - off) else fbyte s ip x)"
      using w(3,4) [of x] f(5) [of x] by auto
  qed
  have guard: "\<not> (off > ?sz \<or> (off + ?n) mod 2 ^ 32 < off)" "\<not> off + ?n > MAXFILE * BSIZE" "int_of_uint ?n = int ?n"
    using off lim by (simp_all add: layout_simps int_of_uint_small)
  have fin: ?thesis if ok': "file_ok s' ip" and r: "writei dv ip src off ?n s = Ok (int ?n, s')"
    and i': "i_size (inodes s' ip) = sz'" "i_type (inodes s' ip) = i_type (inodes s ip)" "i_inum (inodes s' ip) = i_inum (inodes s ip)" "fs_sb s' = fs_sb s"
    and b': "\<And>x. x < sz' \<Longrightarrow> mapped s' ip x \<and> fbyte s' ip x = fbyte s1 ip x" for s'
  proof -
    have "file_full s' ip" using ok' i' f(2-4) b' lim by (simp add: file_full_def sz'_def)
    moreover have "fcontents s' ip = take off (fcontents s ip) @ src @ drop (off + ?n) (fcontents s ip)"
      by (rule overwrite_eq) (use i'(1) b' b1 off in \<open>auto simp: fcontents_def sz'_def\<close>)
    ultimately show ?thesis using r by blast
  qed
  show ?thesis
  proof (cases "?n > 0 \<and> off + ?n > ?sz")
    case False
    then have "sz' = ?sz" using off by (auto simp: sz'_def)
    moreover have "writei dv ip src off ?n s = Ok (int ?n, s1)"
      using f(2) guard w(1) False i1(11) unfolding writei_def Let_def by auto
    ultimately show ?thesis using g(1,9) i1 b1(1) by (intro fin [of s1]) auto
  next
    case True
    then have sz: "sz' = off + ?n" by (simp add: sz'_def)
    let ?s2 = "upd_inode ip (i_size_update (\<lambda>_. off + ?n)) s1"
    have i2: "inodes ?s2 ip = (inodes s1 ip)\<lparr>i_size := off + ?n\<rparr>" by (simp add: inodes_upd_inode)
    have ok2: "file_ok ?s2 ip" using g(1) by (simp add: file_ok_def i2)
    have b2: "mapped ?s2 ip x = mapped s1 ip x" "fbyte ?s2 ip x = fbyte s1 ip x" for x by (simp_all add: mapped_def fbyte_def fslot_def i2)
    have t2: "fs_tx ?s2" "held ?s2 = {}" "i_dev (inodes ?s2 ip) = 1" "length (i_addrs (inodes ?s2 ip)) = NDIRECT + 2"
      using ok2 by (simp_all add: file_ok_def tree_ok_def)
    have inum: "i_inum (inodes ?s2 ip) < sb_ninodes (fs_sb ?s2)" using f(3) i1(3) g(9) by (simp add: i2)
    have "fs_spare ?s2 = fs_spare s1" by (simp add: fs_spare_def)
    then have "0 < fs_spare ?s2" using g(7) sp by linarith
    from iupdate_ok [OF t2(1-3) inum t2(4) this] obtain s3 m d where u: "iupdate ip ?s2 = Ok s3"
      "tx_step ?s2 s3 ((bview ?s2)(m := d)) {m}" "m = IBLOCK (i_inum (inodes ?s2 ip)) (fs_sb ?s2)" by blast
    have "fs_layout ?s2" using t2(1) by (simp add: fs_tx_def)
    note ib = IBLOCK_range [OF this inum, folded u(3)]
    note f3 = fs_same [OF tx_stepD(2) [OF u(2)]]
    have "writei dv ip src off ?n s = Ok (int ?n, s3)"
      using f(2) guard w(1) True i1(11) u(1) unfolding writei_def Let_def by simp
    then show ?thesis
    proof (rule fin [rotated])
      show "file_ok s3 ip" by (rule file_ok_meta(1) [OF ok2 u(2) ib(1,4)])
      show "mapped s3 ip x \<and> fbyte s3 ip x = fbyte s1 ip x" if "x < sz'" for x
        using fbyte_meta [OF ok2 u(2) ib(1,4)] b1(1) [OF that] b2 that sz lim by auto
    qed (use f3 i1 i2 sz g(9) in simp_all)
  qed
qed

text \<open>An empty file in slot 0 of the inode cache of the example file system.\<close>

definition demo_file :: fstate where
  "demo_file = upd_inode 0 (\<lambda>i. i\<lparr>i_dev := 1, i_inum := 2, i_ref := 1, i_lock := \<lparr>sl_locked = True, sl_pid = 1\<rparr>, i_valid := True,
     i_type := T_FILE, i_nlink := 1\<rparr>) (demo_fs 35 (\<lambda>_. replicate BSIZE 0))"

lemma tree_ok_empty: "tree_ok sb (replicate (NDIRECT + 2) 0) v" "slot_ok sl \<Longrightarrow> slot_at (replicate (NDIRECT + 2) 0) v sl = 0"
proof -
  have e: "slot_at (replicate (NDIRECT + 2) 0) v sl = 0" if "slot_ok sl" for sl
    using that by (cases sl) (simp_all add: entry_def nth_Cons' del: replicate.simps)
  then show "slot_ok sl \<Longrightarrow> slot_at (replicate (NDIRECT + 2) 0) v sl = 0" by blast
  have "{sl. slot_ok sl \<and> slot_at (replicate (NDIRECT + 2) 0) v sl \<noteq> 0} = {}" by (simp only: e simp_thms empty_def [symmetric] cong: conj_cong)
  then show "tree_ok sb (replicate (NDIRECT + 2) 0) v"
    unfolding tree_ok_def using e by (metis (no_types, lifting) inj_on_empty length_replicate)
qed

lemma demo_file:
  "file_full demo_file 0" "i_size (inodes demo_file 0) = 0" "fs_spare demo_file = 28" "card (fs_free demo_file) = 25"
proof -
  note d = demo_fs [of "\<lambda>_. replicate BSIZE 0" 35, simplified]
  have a: "i_addrs (inodes demo_file 0) = replicate (NDIRECT + 2) 0"
    by (simp add: demo_file_def inodes_upd_inode d(6) zero_inode_def) (simp add: layout_simps numeral_eq_Suc)
  show z: "i_size (inodes demo_file 0) = 0" by (simp add: demo_file_def inodes_upd_inode d zero_inode_def)
  have "file_ok demo_file 0"
    unfolding file_ok_def a using tree_ok_empty(1) by (simp add: demo_file_def d inodes_upd_inode)
  then show "file_full demo_file 0"
    using z by (simp add: file_full_def demo_file_def d inodes_upd_inode) (simp add: layout_simps demo_sb_def)
  have i: "tx_inv (demo_fs 35 (\<lambda>_. replicate BSIZE 0))" using d(1) by (simp add: fs_tx_def)
  have ds: "data_start demo_sb = 35" by (simp add: data_start_def demo_sb_def layout_simps)
  have "bitmaps demo_sb = {34}" unfolding bitmaps_def ds by (auto simp: demo_sb_def)
  then show "fs_spare demo_file = 28" by (simp add: fs_spare_def demo_file_def d)
  have "fs_free demo_file = {35..<60}"
    using demo_used by (auto simp: fs_free_def demo_file_def d) (auto simp: demo_sb_def not_less)
  then show "card (fs_free demo_file) = 25" by simp
qed

text \<open>
  C2. Files are byte arrays.  For a file without holes whose blocks form a
  well-formed tree, and with log slots and free blocks for the passes of its
  loop, \<open>writei\<close> returns the number of bytes, leaves a file of the same kind
  whose contents are the old ones with the new bytes in place, and \<open>readi\<close> at
  any position then returns exactly the bytes of the new contents there, through
  the direct, indirect and doubly indirect blocks alike.
\<close>

theorem writei_readi:
  assumes "file_full s ip" "off \<le> i_size (inodes s ip)" "off + length src \<le> MAXFILE * BSIZE"
    "7 * passes off (length src) < fs_spare s" "7 * passes off (length src) \<le> card (fs_free s)"
  shows "\<exists>s'. writei dv ip src off (length src) s = Ok (int (length src), s') \<and> file_full s' ip
    \<and> fcontents s' ip = take off (fcontents s ip) @ src @ drop (off + length src) (fcontents s ip)
    \<and> (\<forall>p k. p \<le> length (fcontents s' ip) \<and> p + k < 2 ^ 32 \<longrightarrow>
         (\<exists>s''. readi dv ip p k s' = Ok ((int (length (slice p k (fcontents s' ip))), slice p k (fcontents s' ip)), s'')
            \<and> fcontents s'' ip = fcontents s' ip))
    \<and> (\<exists>s''. readi dv ip off (length src) s' = Ok ((int (length src), src), s''))"
proof -
  obtain s' where s': "writei dv ip src off (length src) s = Ok (int (length src), s')" "file_full s' ip"
    "fcontents s' ip = take off (fcontents s ip) @ src @ drop (off + length src) (fcontents s ip)"
    using writei_ok [OF assms] by blast
  have len: "length (fcontents s' ip) = i_size (inodes s' ip)" "length (fcontents s ip) = i_size (inodes s ip)" by (simp_all add: fcontents_def)
  have rd: "\<exists>s''. readi dv ip p k s' = Ok ((int (length (slice p k (fcontents s' ip))), slice p k (fcontents s' ip)), s'')
    \<and> fcontents s'' ip = fcontents s' ip" if "p \<le> length (fcontents s' ip)" "p + k < 2 ^ 32" for p k
    using readi_ok [OF s'(2), of p k dv] that len fcontents_quiet(2) [OF s'(2)] by auto
  have "off \<le> length (fcontents s' ip)" "off + length src < 2 ^ 32"
    using assms(2,3) s'(3) len(2) by (simp_all add: layout_simps)
  moreover have "slice off (length src) (fcontents s' ip) = src"
    unfolding s'(3) slice_def using assms(2) len(2) by simp
  ultimately have "\<exists>s''. readi dv ip off (length src) s' = Ok ((int (length src), src), s'')" using rd by metis
  then show ?thesis using s' rd by blast
qed

theorem writei_readi_witness:
  "\<exists>s'. writei (\<lambda>_. Device None None) 0 [1, 2, 3] 0 3 demo_file = Ok (3, s') \<and> fcontents s' 0 = [1, 2, 3]
     \<and> (\<exists>s''. readi (\<lambda>_. Device None None) 0 1 5 s' = Ok ((2, [2, 3]), s''))"
proof -
  have "passes 0 (length [1, 2, 3 :: byte]) = 1" by (simp add: passes.simps layout_simps)
  then have "\<exists>s'. writei (\<lambda>_. Device None None) 0 [1, 2, 3] 0 (length [1, 2, 3 :: byte]) demo_file = Ok (int (length [1, 2, 3 :: byte]), s')
      \<and> file_full s' 0 \<and> fcontents s' 0 = take 0 (fcontents demo_file 0) @ [1, 2, 3] @ drop (0 + length [1, 2, 3 :: byte]) (fcontents demo_file 0)
    \<and> (\<forall>p k. p \<le> length (fcontents s' 0) \<and> p + k < 2 ^ 32 \<longrightarrow>
         (\<exists>s''. readi (\<lambda>_. Device None None) 0 p k s' = Ok ((int (length (slice p k (fcontents s' 0))), slice p k (fcontents s' 0)), s'')
            \<and> fcontents s'' 0 = fcontents s' 0))
    \<and> (\<exists>s''. readi (\<lambda>_. Device None None) 0 0 (length [1, 2, 3 :: byte]) s' = Ok ((int (length [1, 2, 3 :: byte]), [1, 2, 3]), s''))"
    using demo_file by (intro writei_readi) (simp_all only: layout_simps, simp_all)
  moreover have "fcontents demo_file 0 = []" using demo_file(2) by (simp add: fcontents_def)
  ultimately obtain s' where s': "writei (\<lambda>_. Device None None) 0 [1, 2, 3] 0 3 demo_file = Ok (3, s')" "fcontents s' 0 = [1, 2, 3]"
    "\<forall>p k. p \<le> length (fcontents s' 0) \<and> p + k < 2 ^ 32 \<longrightarrow>
         (\<exists>s''. readi (\<lambda>_. Device None None) 0 p k s' = Ok ((int (length (slice p k (fcontents s' 0))), slice p k (fcontents s' 0)), s'')
            \<and> fcontents s'' 0 = fcontents s' 0)"
    by (auto simp: numeral_3_eq_3)
  have "\<exists>s''. readi (\<lambda>_. Device None None) 0 1 5 s' = Ok ((2, [2, 3]), s'')"
    using s'(3) [rule_format, of 1 5] s'(2) by (auto simp: slice_def)
  then show ?thesis using s' by blast
qed

end
