(* ===== verification/CString.thy ===== *)
theory CString
  imports Prelude
begin

text \<open>
  The kernel's memory and string functions (src/xv6/string.c) over a memory of
  bytes, with the two \<open>rep stos\<close> instructions of src/xv6/x86.h they use.  An
  address is a natural number; a pointer result that only repeats an argument
  is left out.  The loops that end at a NUL byte are partial functions, so that
  a string without one is the value \<open>None\<close>.
\<close>

type_synonym mem = "nat \<Rightarrow> byte"

section \<open>Operations\<close>

text \<open>\<open>rep stosb\<close> stores the low byte of \<open>data\<close>, \<open>rep stosl\<close> the four bytes of \<open>data\<close>, lowest first.\<close>

fun stosb :: "nat \<Rightarrow> 32 word \<Rightarrow> nat \<Rightarrow> mem \<Rightarrow> mem" where
  "stosb addr data 0 m = m"
| "stosb addr data (Suc cnt) m = stosb (addr + 1) data cnt (m(addr := ucast data))"

fun stosl :: "nat \<Rightarrow> 32 word \<Rightarrow> nat \<Rightarrow> mem \<Rightarrow> mem" where
  "stosl addr data 0 m = m"
| "stosl addr data (Suc cnt) m =
     stosl (addr + 4) data cnt
       (m(addr := ucast data, addr + 1 := ucast (drop_bit 8 data), addr + 2 := ucast (drop_bit 16 data),
          addr + 3 := ucast (drop_bit 24 data)))"

unbundle bit_operations_syntax

definition memset :: "nat \<Rightarrow> 32 word \<Rightarrow> nat \<Rightarrow> mem \<Rightarrow> mem" where
  "memset dst c n m =
     (if dst mod 4 = 0 \<and> n mod 4 = 0 then
        let c = c AND 0xFF in
        stosl dst (push_bit 24 c OR push_bit 16 c OR push_bit 8 c OR c) (n div 4) m
      else stosb dst c n m)"

fun memcmp :: "nat \<Rightarrow> nat \<Rightarrow> nat \<Rightarrow> mem \<Rightarrow> int" where
  "memcmp s1 s2 0 m = 0"
| "memcmp s1 s2 (Suc n) m =
     (if m s1 \<noteq> m s2 then int (unat (m s1)) - int (unat (m s2)) else memcmp (s1 + 1) (s2 + 1) n m)"

fun copy_up :: "nat \<Rightarrow> nat \<Rightarrow> nat \<Rightarrow> mem \<Rightarrow> mem" where
  "copy_up d s 0 m = m"
| "copy_up d s (Suc n) m = copy_up (d + 1) (s + 1) n (m(d := m s))"

text \<open>The loop that runs down: \<open>d\<close> and \<open>s\<close> are the ends of what is still to be copied.\<close>

fun copy_down :: "nat \<Rightarrow> nat \<Rightarrow> nat \<Rightarrow> mem \<Rightarrow> mem" where
  "copy_down d s 0 m = m"
| "copy_down d s (Suc n) m = copy_down (d - 1) (s - 1) n (m(d - 1 := m (s - 1)))"

definition memmove :: "nat \<Rightarrow> nat \<Rightarrow> nat \<Rightarrow> mem \<Rightarrow> mem" where
  "memmove dst src n m =
     (if src < dst \<and> src + n > dst then copy_down (dst + n) (src + n) n m else copy_up dst src n m)"

definition memcpy :: "nat \<Rightarrow> nat \<Rightarrow> nat \<Rightarrow> mem \<Rightarrow> mem" where
  "memcpy dst src n m = memmove dst src n m"

fun strncmp :: "nat \<Rightarrow> nat \<Rightarrow> nat \<Rightarrow> mem \<Rightarrow> int" where
  "strncmp p q 0 m = 0"
| "strncmp p q (Suc n) m =
     (if m p \<noteq> 0 \<and> m p = m q then strncmp (p + 1) (q + 1) n m else int (unat (m p)) - int (unat (m q)))"

fun strncpy_pad :: "nat \<Rightarrow> nat \<Rightarrow> mem \<Rightarrow> mem" where
  "strncpy_pad s 0 m = m"
| "strncpy_pad s (Suc n) m = strncpy_pad (s + 1) n (m(s := 0))"

fun strncpy_loop :: "nat \<Rightarrow> nat \<Rightarrow> nat \<Rightarrow> mem \<Rightarrow> mem" where
  "strncpy_loop s t 0 m = m"
| "strncpy_loop s t (Suc n) m =
     (if m t \<noteq> 0 then strncpy_loop (s + 1) (t + 1) n (m(s := m t)) else strncpy_pad (s + 1) n (m(s := m t)))"

definition strncpy :: "nat \<Rightarrow> nat \<Rightarrow> int \<Rightarrow> mem \<Rightarrow> mem" where
  "strncpy s t n m = strncpy_loop s t (nat n) m"

fun safestrcpy_loop :: "nat \<Rightarrow> nat \<Rightarrow> nat \<Rightarrow> mem \<Rightarrow> mem" where
  "safestrcpy_loop s t 0 m = m(s := 0)"
| "safestrcpy_loop s t (Suc n) m =
     (if m t \<noteq> 0 then safestrcpy_loop (s + 1) (t + 1) n (m(s := m t)) else (m(s := m t))(s + 1 := 0))"

definition safestrcpy :: "nat \<Rightarrow> nat \<Rightarrow> int \<Rightarrow> mem \<Rightarrow> mem" where
  "safestrcpy s t n m = (if n \<le> 0 then m else safestrcpy_loop s t (nat (n - 1)) m)"

partial_function (option) strlen_loop :: "nat \<Rightarrow> mem \<Rightarrow> nat \<Rightarrow> nat option" where
  "strlen_loop s m n = (if m (s + n) = 0 then Some n else strlen_loop s m (n + 1))"

definition strlen :: "nat \<Rightarrow> mem \<Rightarrow> nat option" where
  "strlen s m = strlen_loop s m 0"

section \<open>Stores and copies as updates of a range\<close>

definition range_upd :: "nat \<Rightarrow> nat \<Rightarrow> (nat \<Rightarrow> byte) \<Rightarrow> mem \<Rightarrow> mem" where
  "range_upd d n f m = (\<lambda>x. if d \<le> x \<and> x < d + n then f (x - d) else m x)"

lemma range_upd_0 [simp]: "range_upd d 0 f m = m"
  by (rule ext) (auto simp: range_upd_def)

lemma stosb_eq: "stosb a c n m = range_upd a n (\<lambda>_. ucast c) m"
proof (induction a c n m rule: stosb.induct)
  case (2 a c n m)
  show ?case unfolding stosb.simps 2 by (rule ext) (auto simp: range_upd_def)
qed simp

lemma stosl_eq:
  assumes "ucast w = b" "ucast (drop_bit 8 w) = b" "ucast (drop_bit 16 w) = b" "ucast (drop_bit 24 w) = b"
  shows "stosl a w n m = range_upd a (4 * n) (\<lambda>_. b) m"
  using assms
proof (induction a w n m rule: stosl.induct)
  case (2 a w n m)
  have "x = a \<or> x = a + 1 \<or> x = a + 2 \<or> x = a + 3" if "a \<le> x" "x < a + 4" for x using that by linarith
  moreover have "stosl a w (Suc n) m = range_upd (a + 4) (4 * n) (\<lambda>_. b) (m(a := b, a + 1 := b, a + 2 := b, a + 3 := b))"
    using 2(1) [OF 2(2-5)] by (simp only: stosl.simps 2(2-5))
  ultimately show ?case by (simp only:) (intro ext, force simp: range_upd_def)
qed simp

lemma memset_word:
  fixes c :: "32 word"
  assumes "w = push_bit 24 (c AND 0xFF) OR push_bit 16 (c AND 0xFF) OR push_bit 8 (c AND 0xFF) OR (c AND 0xFF)"
  shows "(ucast w :: byte) = ucast c" "(ucast (drop_bit 8 w) :: byte) = ucast c" "(ucast (drop_bit 16 w) :: byte) = ucast c"
    "(ucast (drop_bit 24 w) :: byte) = ucast c"
proof -
  define c8 where "c8 = c AND 0xFF"
  have ff: "(0xFF :: 32 word) = mask 8" by (simp add: mask_eq_exp_minus_1)
  have m: "bit c8 n \<longleftrightarrow> n < 8 \<and> bit c n" for n
    unfolding c8_def ff by (auto simp: bit_and_iff bit_mask_iff possible_bit_word)
  have b: "bit w n \<longleftrightarrow> n < 32 \<and> bit c (n mod 8)" for n
  proof (cases "n < 32")
    case True
    then consider "n < 8" | "8 \<le> n" "n < 16" | "16 \<le> n" "n < 24" | "24 \<le> n" "n < 32" by linarith
    then show ?thesis
      by cases (auto simp: assms [folded c8_def] bit_simps m le_mod_geq)
  qed (use bit_imp_le_length [of w n] in auto)
  show "(ucast w :: byte) = ucast c" "(ucast (drop_bit 8 w) :: byte) = ucast c" "(ucast (drop_bit 16 w) :: byte) = ucast c"
    "(ucast (drop_bit 24 w) :: byte) = ucast c"
    by (rule bit_word_eqI; simp add: bit_simps b mod_add_eq [symmetric])+
qed

lemma copy_up_eq:
  assumes "d \<le> s \<or> s + n \<le> d"
  shows "copy_up d s n m = range_upd d n (\<lambda>i. m (s + i)) m"
  using assms
proof (induction d s n m rule: copy_up.induct)
  case (2 d s n m)
  show ?case
  proof (cases "d = s")
    case True
    have e: "m(s := m s) = m" by simp
    have "copy_up (s + 1) (s + 1) n m = range_upd (s + 1) n (\<lambda>i. m (s + 1 + i)) m" using 2(1) True by simp
    then show ?thesis unfolding True copy_up.simps e by (simp add: range_upd_def) (rule ext, auto)
  next
    case False
    then have c: "d + 1 \<le> s + 1 \<or> s + 1 + n \<le> d + 1" using 2(2) by auto
    show ?thesis unfolding copy_up.simps 2(1) [OF c]
      using False 2(2) by (intro ext) (auto simp: range_upd_def Suc_diff_Suc)
  qed
qed simp

lemma copy_down_eq: "s \<le> d \<Longrightarrow> copy_down (d + n) (s + n) n m = range_upd d n (\<lambda>i. m (s + i)) m"
proof (induction n arbitrary: m)
  case (Suc n)
  have e: "copy_down (d + Suc n) (s + Suc n) (Suc n) m = copy_down (d + n) (s + n) n (m(d + n := m (s + n)))" by simp
  show ?case unfolding e Suc.IH [OF Suc.prems] using Suc.prems by (intro ext) (auto simp: range_upd_def)
qed simp

lemma memmove_eq: "memmove dst src n m = range_upd dst n (\<lambda>i. m (src + i)) m"
  using copy_down_eq [of src dst n m] copy_up_eq [of dst src n m] by (auto simp: memmove_def)

lemma memset_eq: "memset dst c n m = range_upd dst n (\<lambda>_. ucast c) m"
  unfolding memset_def Let_def using stosl_eq [OF memset_word [OF refl]] stosb_eq by auto

text \<open>
  C19. The kernel's block operations are their specifications: \<open>memmove\<close> copies
  the bytes the source had before the call whatever the overlap of the two
  ranges, \<open>memset\<close> stores the low byte of its argument in exactly the given
  range although it works in words on aligned ranges.
\<close>

theorem memmove_memset_spec:
  "memmove dst src n m = (\<lambda>x. if dst \<le> x \<and> x < dst + n then m (src + (x - dst)) else m x)
   \<and> memset dst c n m = (\<lambda>x. if dst \<le> x \<and> x < dst + n then ucast c else m x)"
  by (simp add: memmove_eq memset_eq range_upd_def)

section \<open>Strings\<close>

text \<open>The bytes \<open>xs\<close>, none of them NUL, followed by a NUL byte.\<close>

definition cstr :: "mem \<Rightarrow> nat \<Rightarrow> byte list \<Rightarrow> bool" where
  "cstr m s xs \<longleftrightarrow> (\<forall>i < length xs. m (s + i) = xs ! i) \<and> 0 \<notin> set xs \<and> m (s + length xs) = 0"

lemma cstr_Nil: "cstr m s [] \<longleftrightarrow> m s = 0"
  by (simp add: cstr_def)

lemma cstr_Cons: "cstr m s (x # xs) \<longleftrightarrow> m s = x \<and> x \<noteq> 0 \<and> cstr m (s + 1) xs"
  by (auto simp: cstr_def less_Suc_eq_0_disj nth_Cons split: nat.splits)

lemma strlen_loop_ok: "\<forall>i < k. m (s + n + i) \<noteq> 0 \<Longrightarrow> m (s + n + k) = 0 \<Longrightarrow> strlen_loop s m n = Some (n + k)"
proof (induction k arbitrary: n)
  case (Suc k)
  have "m (s + n) \<noteq> 0" using Suc.prems(1) by (metis add.right_neutral zero_less_Suc)
  moreover have "strlen_loop s m (n + 1) = Some (n + 1 + k)"
    using Suc.prems by (intro Suc.IH) (auto simp: add.assoc dest: spec [where x = "Suc _"])
  ultimately show ?case by (subst strlen_loop.simps) simp
qed (simp add: strlen_loop.simps)

lemma strlen_ok: "cstr m s xs \<Longrightarrow> strlen s m = Some (length xs)"
  using strlen_loop_ok [of "length xs" m s 0] by (auto simp: strlen_def cstr_def in_set_conv_nth)

lemma strncmp_0:
  assumes "cstr m p xs" "cstr m q ys"
  shows "strncmp p q n m = 0 \<longleftrightarrow> take n xs = take n ys"
  using assms
proof (induction n arbitrary: p q xs ys)
  case (Suc n)
  show ?case
  proof (cases xs; cases ys)
    fix x xs' y ys' assume "xs = x # xs'" "ys = y # ys'"
    then show ?thesis using Suc.prems Suc.IH [of "p + 1" xs' "q + 1" ys'] by (auto simp: cstr_Cons) (simp_all add: word_uint_eq_iff)
  qed (use Suc.prems in \<open>auto simp: cstr_Nil cstr_Cons word_uint_eq_iff\<close>)
qed simp

lemma safestrcpy_loop_ok:
  assumes "cstr m t xs" "s + n < t \<or> t + length xs < s"
  shows "\<exists>f. safestrcpy_loop s t n m = range_upd s (Suc n) f m \<and> cstr (safestrcpy_loop s t n m) s (take n xs)"
  using assms
proof (induction n arbitrary: s t xs m)
  case 0
  have "m(s := 0) = range_upd s (Suc 0) (\<lambda>_. 0) m" by (rule ext) (auto simp: range_upd_def)
  then show ?case by (auto simp: cstr_Nil range_upd_def)
next
  case (Suc n)
  show ?case
  proof (cases xs)
    case Nil
    then have z: "m t = 0" using Suc.prems by (simp add: cstr_Nil)
    let ?m = "(m(s := 0))(s + 1 := 0)"
    have "?m = range_upd s (Suc (Suc n)) (\<lambda>i. ?m (s + i)) m" by (rule ext) (auto simp: range_upd_def)
    moreover have "cstr ?m s []" by (simp add: cstr_Nil)
    ultimately show ?thesis using z Nil by (metis safestrcpy_loop.simps(2) take_Nil)
  next
    case (Cons x xs')
    let ?m = "m(s := x)"
    have x: "m t = x" "x \<noteq> 0" "cstr m (t + 1) xs'" using Suc.prems Cons by (simp_all add: cstr_Cons)
    have "cstr ?m (t + 1) xs'" using x(3) Suc.prems(2) Cons by (auto simp: cstr_def)
    moreover have "s + 1 + n < t + 1 \<or> t + 1 + length xs' < s + 1" using Suc.prems(2) Cons by auto
    ultimately obtain f where f: "safestrcpy_loop (s + 1) (t + 1) n ?m = range_upd (s + 1) (Suc n) f ?m"
      "cstr (safestrcpy_loop (s + 1) (t + 1) n ?m) (s + 1) (take n xs')"
      using Suc.IH by blast
    have "range_upd (s + 1) (Suc n) f ?m = range_upd s (Suc (Suc n)) (\<lambda>i. if i = 0 then x else f (i - 1)) m"
      by (rule ext) (auto simp: range_upd_def)
    moreover have "range_upd (s + 1) (Suc n) f ?m s = x" by (simp add: range_upd_def)
    ultimately show ?thesis using f x Cons by (auto simp: cstr_Cons)
  qed
qed

text \<open>
  C20. \<open>safestrcpy\<close> always leaves a NUL-terminated string within the \<open>n\<close> bytes of
  the destination: the longest prefix of the source that fits, and it stores
  nowhere else; \<open>strlen\<close> of the result and \<open>strncmp\<close> against the source agree.
\<close>

theorem safestrcpy_spec:
  assumes "cstr m t xs" "0 < n" "s + nat n \<le> t \<or> t + length xs < s"
  shows "cstr (safestrcpy s t n m) s (take (nat n - 1) xs)
    \<and> (\<forall>x. x < s \<or> s + nat n \<le> x \<longrightarrow> safestrcpy s t n m x = m x)
    \<and> strlen s (safestrcpy s t n m) = Some (min (nat n - 1) (length xs))
    \<and> strncmp s t (nat n - 1) (safestrcpy s t n m) = 0"
proof (intro conjI allI impI)
  have sep: "s + (nat n - 1) < t \<or> t + length xs < s" using assms(2,3) by auto
  have e: "safestrcpy s t n m = safestrcpy_loop s t (nat n - 1) m" using assms(2) by (simp add: safestrcpy_def nat_diff_distrib)
  obtain f where f: "safestrcpy s t n m = range_upd s (Suc (nat n - 1)) f m" "cstr (safestrcpy s t n m) s (take (nat n - 1) xs)"
    using safestrcpy_loop_ok [OF assms(1) sep] e by auto
  show "cstr (safestrcpy s t n m) s (take (nat n - 1) xs)" by (rule f(2))
  show out: "safestrcpy s t n m x = m x" if "x < s \<or> s + nat n \<le> x" for x using that f(1) assms(2) by (auto simp: range_upd_def)
  then have "cstr (safestrcpy s t n m) t xs" using assms by (auto simp: cstr_def)
  then show "strncmp s t (nat n - 1) (safestrcpy s t n m) = 0" using strncmp_0 [OF f(2)] by simp
  show "strlen s (safestrcpy s t n m) = Some (min (nat n - 1) (length xs))" using strlen_ok [OF f(2)] by (simp add: min.commute)
qed

theorem safestrcpy_spec_witness:
  "cstr (safestrcpy 100 0 3 (\<lambda>i. if i < 5 then 97 else 0)) 100 [97, 97]"
proof -
  have "cstr (\<lambda>i. if i < 5 then 97 else 0) 0 [97, 97, 97, 97, 97 :: byte]"
    by (simp add: cstr_Cons cstr_Nil)
  from safestrcpy_spec [OF this, of 3 100] show ?thesis by simp
qed

end
