(* ===== verification/Ulib.thy ===== *)
theory Ulib
  imports CString
begin

text \<open>
  The library of the user programs: src/xv6/ulib.c and src/xv6/printf.c.  The
  system calls are parameters; \<open>printf\<close> is the sequence of bytes it passes to
  \<open>putc\<close>, that is, to one-byte \<open>write\<close> calls.
\<close>

section \<open>Strings and memory\<close>

partial_function (option) strcpy :: "nat \<Rightarrow> nat \<Rightarrow> mem \<Rightarrow> mem option" where
  "strcpy s t m = (if m t = 0 then Some (m(s := m t)) else strcpy (s + 1) (t + 1) (m(s := m t)))"

partial_function (option) strcmp :: "nat \<Rightarrow> nat \<Rightarrow> mem \<Rightarrow> int option" where
  "strcmp p q m =
     (if m p \<noteq> 0 \<and> m p = m q then strcmp (p + 1) (q + 1) m else Some (int (unat (m p)) - int (unat (m q))))"

partial_function (option) ulib_strlen_loop :: "nat \<Rightarrow> mem \<Rightarrow> nat \<Rightarrow> nat option" where
  "ulib_strlen_loop s m n = (if m (s + n) = 0 then Some n else ulib_strlen_loop s m (n + 1))"

definition ulib_strlen :: "nat \<Rightarrow> mem \<Rightarrow> nat option" where
  "ulib_strlen s m = ulib_strlen_loop s m 0"

definition ulib_memset :: "nat \<Rightarrow> 32 word \<Rightarrow> nat \<Rightarrow> mem \<Rightarrow> mem" where
  "ulib_memset dst c n m = stosb dst c n m"

text \<open>The null pointer is the address 0.\<close>

partial_function (option) strchr :: "nat \<Rightarrow> byte \<Rightarrow> mem \<Rightarrow> nat option" where
  "strchr s c m = (if m s = 0 then Some 0 else if m s = c then Some s else strchr (s + 1) c m)"

text \<open>\<open>rd\<close> is \<open>read(0, &c, 1)\<close>: its result and the byte stored.\<close>

fun gets_loop :: "('s \<Rightarrow> (int \<times> byte) \<times> 's) \<Rightarrow> nat \<Rightarrow> nat \<Rightarrow> nat \<Rightarrow> mem \<Rightarrow> 's \<Rightarrow> mem \<times> 's" where
  "gets_loop rd buf i 0 m w = (m(buf + i := 0), w)"
| "gets_loop rd buf i (Suc k) m w =
     (let ((cc, c), w) = rd w in
      if cc < 1 then (m(buf + i := 0), w)
      else
        let m = m(buf + i := c) in
        if c = 10 \<or> c = 13 then (m(buf + (i + 1) := 0), w)
        else gets_loop rd buf (i + 1) k m w)"

definition gets :: "('s \<Rightarrow> (int \<times> byte) \<times> 's) \<Rightarrow> nat \<Rightarrow> int \<Rightarrow> mem \<Rightarrow> 's \<Rightarrow> mem \<times> 's" where
  "gets rd buf mx m w = gets_loop rd buf 0 (nat (mx - 1)) m w"

definition ulib_stat :: "(nat \<Rightarrow> 's \<Rightarrow> int \<times> 's) \<Rightarrow> (int \<Rightarrow> 's \<Rightarrow> (int \<times> 't) \<times> 's) \<Rightarrow> (int \<Rightarrow> 's \<Rightarrow> 's)
    \<Rightarrow> nat \<Rightarrow> 't \<Rightarrow> 's \<Rightarrow> (int \<times> 't) \<times> 's" where
  "ulib_stat sopen sfstat sclose n st w =
     (let (fd, w) = sopen n w in
      if fd < 0 then ((-1, st), w)
      else
        let ((r, st), w) = sfstat fd w in
        ((r, st), sclose fd w))"

text \<open>The arithmetic of \<open>atoi\<close> is that of 32-bit words.\<close>

partial_function (option) atoi_loop :: "nat \<Rightarrow> mem \<Rightarrow> 32 word \<Rightarrow> 32 word option" where
  "atoi_loop s m n = (if 48 \<le> m s \<and> m s \<le> 57 then atoi_loop (s + 1) m (n * 10 + ucast (m s) - 48) else Some n)"

definition atoi :: "nat \<Rightarrow> mem \<Rightarrow> 32 word option" where
  "atoi s m = atoi_loop s m 0"

definition ulib_memmove :: "nat \<Rightarrow> nat \<Rightarrow> int \<Rightarrow> mem \<Rightarrow> mem" where
  "ulib_memmove dst src n m = copy_up dst src (nat n) m"

section \<open>Formatted output\<close>

definition upper_digits :: "byte list" where
  "upper_digits = [48, 49, 50, 51, 52, 53, 54, 55, 56, 57, 65, 66, 67, 68, 69, 70]"

text \<open>The bytes that the \<open>do\<close> loop of \<open>printint\<close> stores in \<open>buf\<close>, from index 0 on.\<close>

partial_function (option) printint_digits :: "byte list \<Rightarrow> nat \<Rightarrow> nat \<Rightarrow> byte list option" where
  "printint_digits digits x base =
     (if x div base = 0 then Some [digits ! (x mod base)]
      else Option.bind (printint_digits digits (x div base) base) (\<lambda>r. Some (digits ! (x mod base) # r)))"

definition printint :: "32 word \<Rightarrow> nat \<Rightarrow> bool \<Rightarrow> byte list option" where
  "printint xx base sg =
     (let neg = (sg \<and> sint xx < 0); x = (if neg then - xx else xx) in
      Option.bind (printint_digits upper_digits (unat x) base) (\<lambda>buf.
        let buf = (if neg then buf @ [45] else buf) in Some (rev buf)))"

text \<open>The bytes of the string at \<open>s\<close>; a null pointer prints as \<open>(null)\<close>.\<close>

definition printf_str :: "mem \<Rightarrow> 32 word \<Rightarrow> byte list option" where
  "printf_str m s =
     (if s = 0 then Some [40, 110, 117, 108, 108, 41]
      else map_option (\<lambda>n. map (\<lambda>i. m (unat s + i)) [0..<n]) (strlen (unat s) m))"

text \<open>
  The loop over the format, a list of bytes without its NUL; \<open>pct\<close> says that \<open>state\<close> is \<open>'%'\<close> and \<open>ap\<close> is the index of
  the next argument.
\<close>

fun printf_loop :: "mem \<Rightarrow> (nat \<Rightarrow> 32 word) \<Rightarrow> byte list \<Rightarrow> bool \<Rightarrow> nat \<Rightarrow> byte list option" where
  "printf_loop m args [] pct ap = Some []"
| "printf_loop m args (c # fmt) False ap =
     (if c = 37 then printf_loop m args fmt True ap
      else map_option ((#) c) (printf_loop m args fmt False ap))"
| "printf_loop m args (c # fmt) True ap =
     (if c = 100 then
        Option.bind (printint (args ap) 10 True) (\<lambda>o1. map_option ((@) o1) (printf_loop m args fmt False (ap + 1)))
      else if c = 120 \<or> c = 112 then
        Option.bind (printint (args ap) 16 False) (\<lambda>o1. map_option ((@) o1) (printf_loop m args fmt False (ap + 1)))
      else if c = 115 then
        Option.bind (printf_str m (args ap)) (\<lambda>o1. map_option ((@) o1) (printf_loop m args fmt False (ap + 1)))
      else if c = 99 then map_option ((#) (ucast (args ap))) (printf_loop m args fmt False (ap + 1))
      else if c = 37 then map_option ((#) c) (printf_loop m args fmt False ap)
      else map_option (\<lambda>r. 37 # c # r) (printf_loop m args fmt False ap))"

definition printf :: "mem \<Rightarrow> (nat \<Rightarrow> 32 word) \<Rightarrow> byte list \<Rightarrow> byte list option" where
  "printf m args fmt = printf_loop m args fmt False 0"

section \<open>Copying upwards\<close>

lemma copy_up_overlap:
  assumes "s < d"
  shows "copy_up d s n m = range_upd d n (\<lambda>i. m (s + i mod (d - s))) m"
  using assms
proof (induction n arbitrary: m)
  case (Suc n)
  have shift: "copy_up d s (Suc n) m = (copy_up d s n m)(d + n := copy_up d s n m (s + n))" for m
  proof (induction n arbitrary: d s m)
    case (Suc n)
    have "copy_up d s (Suc (Suc n)) m = copy_up (d + 1) (s + 1) (Suc n) (m(d := m s))" by simp
    also have "\<dots> = (copy_up (d + 1) (s + 1) n (m(d := m s)))(d + 1 + n := copy_up (d + 1) (s + 1) n (m(d := m s)) (s + 1 + n))"
      by (rule Suc.IH)
    finally show ?case by simp
  qed simp
  have "copy_up d s n m (s + n) = m (s + n mod (d - s))"
  proof (cases "n < d - s")
    case True
    then show ?thesis using Suc by (auto simp: range_upd_def)
  next
    case False
    then have "(s + n - d) mod (d - s) = n mod (d - s)" using Suc.prems
      by (metis add.commute diff_diff_right le_mod_geq less_imp_le_nat not_less)
    then show ?thesis using False Suc by (simp add: range_upd_def)
  qed
  then show ?case unfolding shift using Suc by (intro ext) (auto simp: range_upd_def)
qed simp

text \<open>
  C22. The user library's \<open>memmove\<close> copies correctly only when the destination
  does not start inside the source: with \<open>src < dst < src + n\<close> it repeats the
  first \<open>dst - src\<close> bytes, where the kernel's \<open>memmove\<close> copies all of them.
\<close>

theorem ulib_memmove_spec:
  "ulib_memmove dst src n m =
     (\<lambda>x. if dst \<le> x \<and> x < dst + nat n
          then m (src + (if src < dst \<and> dst < src + nat n then (x - dst) mod (dst - src) else x - dst)) else m x)
   \<and> (src < dst \<and> dst < src + nat n \<and> m (src + (dst - src)) \<noteq> m src \<longrightarrow> ulib_memmove dst src n m \<noteq> memmove dst src (nat n) m)"
proof -
  have spec: "ulib_memmove dst src n m =
     (\<lambda>x. if dst \<le> x \<and> x < dst + nat n
          then m (src + (if src < dst \<and> dst < src + nat n then (x - dst) mod (dst - src) else x - dst)) else m x)"
    using copy_up_overlap [of src dst "nat n" m] copy_up_eq [of dst src "nat n" m]
    by (cases "src < dst \<and> dst < src + nat n") (auto simp: ulib_memmove_def range_upd_def not_less)
  moreover have "ulib_memmove dst src n m \<noteq> memmove dst src (nat n) m"
    if o: "src < dst" "dst < src + nat n" and ne: "m (src + (dst - src)) \<noteq> m src"
  proof
    assume eq: "ulib_memmove dst src n m = memmove dst src (nat n) m"
    obtain k where k: "dst = src + k" "0 < k" "k < nat n" using o by (metis add_less_cancel_left less_imp_add_positive)
    have "ulib_memmove dst src n m (dst + k) = m src" using k spec by simp
    moreover have "memmove dst src (nat n) m (dst + k) = m dst"
      using k copy_down_eq [of src dst "nat n" m] by (simp add: memmove_def range_upd_def)
    ultimately show False using eq k(1) ne by auto
  qed
  ultimately show ?thesis by blast
qed

theorem ulib_memmove_spec_witness:
  "ulib_memmove 1 0 2 (\<lambda>i. of_nat i) = (\<lambda>x. if x = 1 \<or> x = 2 then 0 else of_nat x)
   \<and> ulib_memmove 1 0 2 (\<lambda>i. of_nat i) \<noteq> memmove 1 0 2 (\<lambda>i. of_nat i)"
proof -
  have "ulib_memmove 1 0 2 (\<lambda>i. of_nat i) = (\<lambda>x. if 1 \<le> x \<and> x < 3 then 0 else of_nat x)"
  proof (rule ext)
    show "ulib_memmove 1 0 2 (\<lambda>i. of_nat i) x = (if 1 \<le> x \<and> x < 3 then 0 else of_nat x)" for x
      using ulib_memmove_spec [of 1 0 2 "\<lambda>i. of_nat i", THEN conjunct1, THEN fun_cong, of x] by simp
  qed
  also have "\<dots> = (\<lambda>x. if x = 1 \<or> x = 2 then 0 else of_nat x)" by (rule ext) auto
  finally have eq: "ulib_memmove 1 0 2 (\<lambda>i. of_nat i) = (\<lambda>x. if x = 1 \<or> x = 2 then 0 else of_nat x)" .
  have "ulib_memmove 1 0 2 (\<lambda>i. of_nat i) \<noteq> memmove 1 0 2 (\<lambda>i. of_nat i)"
    using ulib_memmove_spec [of 1 0 2 "\<lambda>i. of_nat i", THEN conjunct2] by simp
  with eq show ?thesis by blast
qed

section \<open>Numbers\<close>

lemma atoi_digits:
  assumes "\<forall>i < length ds. m (s + i) = of_nat (48 + ds ! i) \<and> ds ! i < 10" "\<not> (48 \<le> m (s + length ds) \<and> m (s + length ds) \<le> 57)"
  shows "atoi_loop s m n = Some (foldl (\<lambda>n d. n * 10 + of_nat d) n ds)"
  using assms
proof (induction ds arbitrary: s n)
  case Nil
  then show ?case by (subst atoi_loop.simps) auto
next
  case (Cons d ds)
  have d: "m s = of_nat (48 + d)" "d < 10" using Cons.prems(1) by force+
  have "\<forall>i < length ds. m (s + 1 + i) = of_nat (48 + ds ! i) \<and> ds ! i < 10" using Cons.prems(1) by force
  then have IH: "atoi_loop (s + 1) m k = Some (foldl (\<lambda>n d. n * 10 + of_nat d) k ds)" for k
    using Cons.IH [of "s + 1"] Cons.prems(2) by simp
  have u: "unat (m s) = 48 + d" using d(2) unfolding d(1) by (simp add: unat_of_nat del: of_nat_add)
  then have "48 \<le> m s \<and> m s \<le> 57" using d(2) by (simp add: word_le_nat_alt)
  moreover have "(ucast (m s) :: 32 word) = of_nat (48 + d)" using u by (simp only: ucast_byte_of_nat)
  ultimately show ?case using IH by (subst atoi_loop.simps) simp
qed

text \<open>The decimal digits of a number, lowest first, as the loop of \<open>printint\<close> produces them.\<close>

fun dec_digits :: "nat \<Rightarrow> nat list" where
  "dec_digits x = (if x < 10 then [x] else x mod 10 # dec_digits (x div 10))"

declare dec_digits.simps [simp del]

lemma dec_digits_lt: "d \<in> set (dec_digits x) \<Longrightarrow> d < 10"
proof (induction x rule: dec_digits.induct)
  case (1 x)
  then show ?case by (subst (asm) (2) dec_digits.simps) (auto split: if_splits)
qed

lemma dec_digits_value: "foldr (\<lambda>d n. d + 10 * n) (dec_digits x) 0 = x"
proof (induction x rule: dec_digits.induct)
  case (1 x)
  then show ?case by (subst dec_digits.simps) auto
qed

lemma dec_digits_length: "x < 10 ^ k \<Longrightarrow> 0 < k \<Longrightarrow> length (dec_digits x) \<le> k"
proof (induction k arbitrary: x)
  case (Suc k)
  show ?case
  proof (cases "x < 10")
    case False
    have "k \<noteq> 0" using Suc.prems False by (intro notI) simp
    moreover have "x div 10 < 10 ^ k" using Suc.prems(1) by (simp add: less_mult_imp_div_less mult.commute)
    ultimately show ?thesis using Suc.IH False by (subst dec_digits.simps) simp
  qed (simp add: dec_digits.simps)
qed simp

lemma upper_digits_dec: "d < 10 \<Longrightarrow> upper_digits ! d = of_nat (48 + d)"
  by (auto simp: upper_digits_def less_Suc_eq numeral_eq_Suc)

lemma printint_digits_dec: "printint_digits upper_digits x 10 = Some (map (\<lambda>d. of_nat (48 + d)) (dec_digits x))"
proof (induction x rule: dec_digits.induct)
  case (1 x)
  have d: "upper_digits ! (x mod 10) = of_nat (48 + x mod 10)" by (rule upper_digits_dec) simp
  show ?case
  proof (cases "x < 10")
    case True
    then show ?thesis using d by (subst printint_digits.simps) (simp add: dec_digits.simps)
  next
    case False
    then have "dec_digits x = x mod 10 # dec_digits (x div 10)" by (subst dec_digits.simps) simp
    moreover have "x div 10 \<noteq> 0" using False by (simp add: div_eq_0_iff)
    ultimately show ?thesis using d False 1 by (subst printint_digits.simps) simp
  qed
qed

lemma foldl_digits: "foldl (\<lambda>n d. n * 10 + of_nat d) 0 (rev ds) = (of_nat (foldr (\<lambda>d n. d + 10 * n) ds 0) :: 32 word)"
  by (induction ds) (simp_all add: algebra_simps)

text \<open>
  C21. Printing and reading a number: \<open>%d\<close> prints every 32-bit integer in at most
  the 16 bytes of \<open>printint\<close>'s buffer, with a sign exactly for the negative
  ones, and \<open>atoi\<close> of the printed string of a non-negative number gives the
  number back.
\<close>

theorem printint_atoi:
  fixes n :: "32 word"
  shows "\<exists>out. printint n 10 True = Some out \<and> length out \<le> 16 \<and> (hd out = 45 \<longleftrightarrow> sint n < 0)
    \<and> (0 \<le> sint n \<and> cstr m s out \<longrightarrow> atoi s m = Some n)"
proof -
  define neg where "neg \<longleftrightarrow> sint n < 0"
  define x where "x = unat (if neg then - n else n)"
  let ?ds = "dec_digits x"
  define out where "out = rev (map (\<lambda>d. of_nat (48 + d)) ?ds @ (if neg then [45 :: byte] else []))"
  have r: "printint n 10 True = Some out"
    using printint_digits_dec [of x] by (simp add: printint_def Let_def out_def x_def neg_def)
  have "x < 2 ^ 32" unfolding x_def by (rule order_less_le_trans [OF unsigned_less]) simp
  then have "length ?ds \<le> 10" by (intro dec_digits_length) simp_all
  then have len: "length out \<le> 16" by (simp add: out_def)
  have nz: "d < 10 \<Longrightarrow> (of_nat (48 + d) :: byte) \<noteq> 45" for d
    using word_of_nat_eq_iff [where ?'a = 8, of "48 + d" 45] by (auto simp: take_bit_nat_eq_self simp del: of_nat_add)
  have ne: "?ds \<noteq> []" by (simp add: dec_digits.simps)
  have hd: "hd out = 45 \<longleftrightarrow> neg"
    using nz ne dec_digits_lt [of "last ?ds" x] by (auto simp: out_def hd_rev hd_append hd_map last_map)
  have at: "atoi s m = Some n" if nn: "0 \<le> sint n" and c: "cstr m s out"
  proof -
    have o: "out = map (\<lambda>d. of_nat (48 + d)) (rev ?ds)" "x = unat n" using nn by (simp_all add: out_def neg_def x_def rev_map)
    have "atoi_loop s m 0 = Some (foldl (\<lambda>n d. n * 10 + of_nat d) 0 (rev ?ds))"
      by (rule atoi_digits) (use c o(1) dec_digits_lt [of _ x] nth_mem [of _ "rev ?ds"] in \<open>auto simp: cstr_def\<close>)
    then show ?thesis unfolding foldl_digits dec_digits_value by (simp add: atoi_def o(2))
  qed
  show ?thesis using r len hd at by (intro exI [of _ out]) (simp add: neg_def)
qed

theorem printint_atoi_witness:
  "printint 1234 10 True = Some [49, 50, 51, 52] \<and> atoi 0 (\<lambda>i. if i < 4 then [49, 50, 51, 52] ! i else 0) = Some 1234"
proof -
  have p: "printint 1234 10 True = Some [49, 50, 51, 52]"
    by (simp add: printint_def printint_digits_dec dec_digits.simps)
  have "cstr (\<lambda>i. if i < 4 then [49, 50, 51, 52] ! i else 0) 0 [49, 50, 51, 52 :: byte]"
    by (simp add: cstr_Cons cstr_Nil)
  then show ?thesis using printint_atoi [of 1234 "\<lambda>i. if i < 4 then [49, 50, 51, 52] ! i else 0" 0] p by auto
qed

end
