(* ===== verification/Textutils.thy ===== *)
theory Textutils
  imports Posix_Io Ulib
begin

text \<open>
  The user programs src/xv6/grep.c, src/xv6/wc.c and src/xv6/cat.c.  Strings
  are the lists of their bytes without the NUL; the system calls are
  parameters and the loops that end when the input does carry fuel.
\<close>

text \<open>\<open>printf\<close> writes byte by byte and ignores the results of \<open>write\<close>.\<close>

fun put_bytes :: "'w write_sys \<Rightarrow> int \<Rightarrow> byte list \<Rightarrow> 'w \<Rightarrow> 'w" where
  "put_bytes wr fd [] w = w"
| "put_bytes wr fd (c # cs) w = put_bytes wr fd cs (snd (wr w fd [c]))"

definition bytes :: "string \<Rightarrow> byte list" where
  "bytes s = map (\<lambda>c. of_nat (of_char c)) s"

text \<open>\<open>open\<close> gives a descriptor, \<open>close\<close> a new world.\<close>

type_synonym 'w open_sys = "'w \<Rightarrow> byte list \<Rightarrow> int \<times> 'w"

section \<open>grep: the matcher\<close>

text \<open>The bytes of the operators: \<open>^\<close> is 94, \<open>*\<close> is 42, \<open>$\<close> is 36 and \<open>.\<close> is 46.\<close>

function matchhere :: "byte list \<Rightarrow> byte list \<Rightarrow> bool" and matchstar :: "byte \<Rightarrow> byte list \<Rightarrow> byte list \<Rightarrow> bool" where
  "matchhere re text =
     (case re of
        [] \<Rightarrow> True
      | c # re1 \<Rightarrow>
          (case re1 of
             d # re2 \<Rightarrow>
               if d = 42 then matchstar c re2 text
               else (case text of [] \<Rightarrow> False | x # text1 \<Rightarrow> (c = 46 \<or> c = x) \<and> matchhere re1 text1)
           | [] \<Rightarrow>
               if c = 36 then text = []
               else (case text of [] \<Rightarrow> False | x # text1 \<Rightarrow> (c = 46 \<or> c = x) \<and> matchhere re1 text1)))"
| "matchstar c re text =
     (if matchhere re text then True
      else (case text of [] \<Rightarrow> False | x # text1 \<Rightarrow> (x = c \<or> c = 46) \<and> matchstar c re text1))"
  by pat_completeness auto
termination
  by (relation "measures [\<lambda>x. case x of Inl (re, text) \<Rightarrow> 2 * length re | Inr (c, re, text) \<Rightarrow> 2 * length re + 1,
    \<lambda>x. case x of Inl (re, text) \<Rightarrow> length text | Inr (c, re, text) \<Rightarrow> length text]") auto

declare matchhere.simps [simp del] matchstar.simps [simp del]

fun match_from :: "byte list \<Rightarrow> byte list \<Rightarrow> bool" where
  "match_from re text =
     (if matchhere re text then True else (case text of [] \<Rightarrow> False | x # text1 \<Rightarrow> match_from re text1))"

declare match_from.simps [simp del]

definition re_match :: "byte list \<Rightarrow> byte list \<Rightarrow> bool" where
  "re_match re text = (if re \<noteq> [] \<and> hd re = 94 then matchhere (tl re) text else match_from re text)"

section \<open>grep: the lines\<close>

text \<open>\<open>strchr(p, newline)\<close> on the bytes from \<open>p\<close> to the NUL stored behind them.\<close>

fun find_nl :: "byte list \<Rightarrow> nat option" where
  "find_nl [] = None"
| "find_nl (c # cs) = (if c = 0 then None else if c = 10 then Some 0 else map_option Suc (find_nl cs))"

lemma find_nl_less: "find_nl cs = Some k \<Longrightarrow> k < length cs"
  by (induction cs arbitrary: k) (auto split: if_splits)

function grep_lines :: "'w write_sys \<Rightarrow> byte list \<Rightarrow> byte list \<Rightarrow> 'w \<Rightarrow> byte list \<times> 'w" where
  "grep_lines wr pattern p w =
     (case find_nl p of
        None \<Rightarrow> (p, w)
      | Some q \<Rightarrow>
          let w = (if re_match pattern (take q p) then snd (wr w 1 (take (q + 1) p)) else w) in
          grep_lines wr pattern (drop (q + 1) p) w)"
  by pat_completeness auto
termination
  by (relation "measure (\<lambda>(wr, pattern, p, w). length p)") (auto dest: find_nl_less)

declare grep_lines.simps [simp del]

text \<open>
  The contents of \<open>buf\<close> up to \<open>m\<close> are the list \<open>buf\<close>.  When no line has been completed all of it is dropped, otherwise
  what follows the last line is moved to the front.
\<close>

fun grep :: "'w read_sys \<Rightarrow> 'w write_sys \<Rightarrow> nat \<Rightarrow> byte list \<Rightarrow> int \<Rightarrow> byte list \<Rightarrow> 'w \<Rightarrow> 'w res" where
  "grep rd wr 0 pattern fd buf w = Err NoFuel"
| "grep rd wr (Suc fuel) pattern fd buf w =
     (case rd w fd (1024 - length buf - 1) of (n, bs, w) \<Rightarrow>
        if n > 0 then
          let all = buf @ bs; (rest, w) = grep_lines wr pattern all w in
          grep rd wr fuel pattern fd (if length rest = length all then [] else rest) w
        else Ok w)"

fun grep_files :: "'w read_sys \<Rightarrow> 'w write_sys \<Rightarrow> 'w open_sys \<Rightarrow> ('w \<Rightarrow> int \<Rightarrow> 'w) \<Rightarrow> nat \<Rightarrow> byte list \<Rightarrow> byte list list \<Rightarrow> 'w \<Rightarrow> 'w res" where
  "grep_files rd wr opn cls fuel pattern [] w = Ok w"
| "grep_files rd wr opn cls fuel pattern (f # fs) w =
     (case opn w f of (fd, w) \<Rightarrow>
        if fd < 0 then Ok (put_bytes wr 1 (bytes ''grep: cannot open '' @ f @ [10]) w)
        else bindr (grep rd wr fuel pattern fd [] w) (\<lambda>w. grep_files rd wr opn cls fuel pattern fs (cls w fd)))"

text \<open>Every path of \<open>main\<close> ends in \<open>exit(0)\<close>; the result is the world at that point.\<close>

definition grep_main :: "'w read_sys \<Rightarrow> 'w write_sys \<Rightarrow> 'w open_sys \<Rightarrow> ('w \<Rightarrow> int \<Rightarrow> 'w) \<Rightarrow> nat \<Rightarrow> byte list list \<Rightarrow> 'w \<Rightarrow> 'w res" where
  "grep_main rd wr opn cls fuel argv w =
     (case argv of
        pattern # files \<Rightarrow> if files = [] then grep rd wr fuel pattern 0 [] w else grep_files rd wr opn cls fuel pattern files w
      | [] \<Rightarrow> Ok (put_bytes wr 2 (bytes ''usage: grep pattern [file ...]'' @ [10]) w))"

section \<open>wc\<close>

definition wc_sep :: "byte \<Rightarrow> bool" where
  "wc_sep c \<longleftrightarrow> c \<in> {32, 13, 9, 10, 11}"

text \<open>The counters \<open>l\<close>, \<open>w\<close>, \<open>c\<close> and \<open>inword\<close>.\<close>

definition wc_byte :: "byte \<Rightarrow> int \<times> int \<times> int \<times> bool \<Rightarrow> int \<times> int \<times> int \<times> bool" where
  "wc_byte b = (\<lambda>(l, w, c, inword).
     (if b = 10 then l + 1 else l, if \<not> wc_sep b \<and> \<not> inword then w + 1 else w, c + 1, \<not> wc_sep b))"

fun wc_loop :: "'w read_sys \<Rightarrow> nat \<Rightarrow> int \<Rightarrow> int \<times> int \<times> int \<times> bool \<Rightarrow> 'w \<Rightarrow> (int \<times> (int \<times> int \<times> int \<times> bool) \<times> 'w) res" where
  "wc_loop rd 0 fd st w = Err NoFuel"
| "wc_loop rd (Suc fuel) fd st w =
     (case rd w fd 512 of (n, bs, w) \<Rightarrow>
        if n > 0 then wc_loop rd fuel fd (fold wc_byte bs st) w else Ok (n, st, w))"

definition wc_line :: "int \<Rightarrow> int \<Rightarrow> int \<Rightarrow> byte list \<Rightarrow> byte list" where
  "wc_line l w c name =
     the (printint (of_int l) 10 True) @ [32] @ the (printint (of_int w) 10 True) @ [32] @ the (printint (of_int c) 10 True)
       @ [32] @ name @ [10]"

text \<open>The result says whether \<open>wc\<close> returns or has called \<open>exit\<close>.\<close>

definition wc :: "'w read_sys \<Rightarrow> 'w write_sys \<Rightarrow> nat \<Rightarrow> int \<Rightarrow> byte list \<Rightarrow> 'w \<Rightarrow> (bool \<times> 'w) res" where
  "wc rd wr fuel fd name w =
     bindr (wc_loop rd fuel fd (0, 0, 0, False) w) (\<lambda>(n, (l, wd, c, _), w).
       if n < 0 then Ok (False, put_bytes wr 1 (bytes ''wc: read error'' @ [10]) w)
       else Ok (True, put_bytes wr 1 (wc_line l wd c name) w))"

fun wc_files :: "'w read_sys \<Rightarrow> 'w write_sys \<Rightarrow> 'w open_sys \<Rightarrow> ('w \<Rightarrow> int \<Rightarrow> 'w) \<Rightarrow> nat \<Rightarrow> byte list list \<Rightarrow> 'w \<Rightarrow> 'w res" where
  "wc_files rd wr opn cls fuel [] w = Ok w"
| "wc_files rd wr opn cls fuel (f # fs) w =
     (case opn w f of (fd, w) \<Rightarrow>
        if fd < 0 then Ok (put_bytes wr 1 (bytes ''wc: cannot open '' @ f @ [10]) w)
        else bindr (wc rd wr fuel fd f w) (\<lambda>(ok, w). if ok then wc_files rd wr opn cls fuel fs (cls w fd) else Ok w))"

definition wc_main :: "'w read_sys \<Rightarrow> 'w write_sys \<Rightarrow> 'w open_sys \<Rightarrow> ('w \<Rightarrow> int \<Rightarrow> 'w) \<Rightarrow> nat \<Rightarrow> byte list list \<Rightarrow> 'w \<Rightarrow> 'w res" where
  "wc_main rd wr opn cls fuel files w =
     (if files = [] then bindr (wc rd wr fuel 0 [] w) (\<lambda>(ok, w). Ok w) else wc_files rd wr opn cls fuel files w)"

section \<open>cat\<close>

fun cat :: "'w read_sys \<Rightarrow> 'w write_sys \<Rightarrow> nat \<Rightarrow> int \<Rightarrow> 'w \<Rightarrow> (bool \<times> 'w) res" where
  "cat rd wr 0 fd w = Err NoFuel"
| "cat rd wr (Suc fuel) fd w =
     (case rd w fd 512 of (n, bs, w) \<Rightarrow>
        if n > 0 then
          (case wr w 1 bs of (k, w) \<Rightarrow>
             if k \<noteq> n then Ok (False, put_bytes wr 1 (bytes ''cat: write error'' @ [10]) w) else cat rd wr fuel fd w)
        else if n < 0 then Ok (False, put_bytes wr 1 (bytes ''cat: read error'' @ [10]) w)
        else Ok (True, w))"

fun cat_files :: "'w read_sys \<Rightarrow> 'w write_sys \<Rightarrow> 'w open_sys \<Rightarrow> ('w \<Rightarrow> int \<Rightarrow> 'w) \<Rightarrow> nat \<Rightarrow> byte list list \<Rightarrow> 'w \<Rightarrow> 'w res" where
  "cat_files rd wr opn cls fuel [] w = Ok w"
| "cat_files rd wr opn cls fuel (f # fs) w =
     (case opn w f of (fd, w) \<Rightarrow>
        if fd < 0 then Ok (put_bytes wr 1 (bytes ''cat: cannot open '' @ f @ [10]) w)
        else bindr (cat rd wr fuel fd w) (\<lambda>(ok, w). if ok then cat_files rd wr opn cls fuel fs (cls w fd) else Ok w))"

definition cat_main :: "'w read_sys \<Rightarrow> 'w write_sys \<Rightarrow> 'w open_sys \<Rightarrow> ('w \<Rightarrow> int \<Rightarrow> 'w) \<Rightarrow> nat \<Rightarrow> byte list list \<Rightarrow> 'w \<Rightarrow> 'w res" where
  "cat_main rd wr opn cls fuel files w =
     (if files = [] then bindr (cat rd wr fuel 0 w) (\<lambda>(ok, w). Ok w) else cat_files rd wr opn cls fuel files w)"

section \<open>What the matcher decides\<close>

text \<open>The pattern matches at the beginning of the text, with the repetitions of a starred byte split off at once.\<close>

inductive re_here :: "byte list \<Rightarrow> byte list \<Rightarrow> bool" where
  re_empty: "re_here [] text"
| re_star: "\<forall>x \<in> set u. x = c \<or> c = 46 \<Longrightarrow> re_here re v \<Longrightarrow> re_here (c # 42 # re) (u @ v)"
| re_end: "re_here [36] []"
| re_char: "\<not> (\<exists>re'. re = 42 # re') \<Longrightarrow> \<not> (c = 36 \<and> re = []) \<Longrightarrow> c = 46 \<or> c = x \<Longrightarrow> re_here re text \<Longrightarrow> re_here (c # re) (x # text)"

inductive_cases re_here_starE: "re_here (c # 42 # re) text"
inductive_cases re_here_consE: "re_here (c # re) text"

lemma matchstar_iff:
  assumes "\<And>t. matchhere re t \<longleftrightarrow> re_here re t"
  shows "matchstar c re t \<longleftrightarrow> (\<exists>u v. t = u @ v \<and> (\<forall>x \<in> set u. x = c \<or> c = 46) \<and> re_here re v)"
proof (induction t)
  case Nil
  then show ?case using assms by (subst matchstar.simps) simp
next
  case (Cons x t)
  show ?case
  proof (cases "matchhere re (x # t)")
    case True
    then have "x # t = [] @ (x # t) \<and> (\<forall>y \<in> set []. y = c \<or> c = 46) \<and> re_here re (x # t)" using assms by simp
    moreover have "matchstar c re (x # t)" using True by (subst matchstar.simps) simp
    ultimately show ?thesis by blast
  next
    case False
    then have n: "\<not> re_here re (x # t)" using assms by simp
    have "matchstar c re (x # t) \<longleftrightarrow> (x = c \<or> c = 46) \<and> matchstar c re t"
      using False by (subst matchstar.simps) simp
    also have "\<dots> \<longleftrightarrow> (\<exists>u v. x # t = u @ v \<and> (\<forall>x \<in> set u. x = c \<or> c = 46) \<and> re_here re v)"
    proof
      assume "(x = c \<or> c = 46) \<and> matchstar c re t"
      then obtain u v where "t = u @ v" "\<forall>x \<in> set u. x = c \<or> c = 46" "re_here re v" "x = c \<or> c = 46" using Cons by blast
      then show "\<exists>u v. x # t = u @ v \<and> (\<forall>x \<in> set u. x = c \<or> c = 46) \<and> re_here re v"
        by (intro exI [of _ "x # u"] exI [of _ v]) auto
    next
      assume "\<exists>u v. x # t = u @ v \<and> (\<forall>x \<in> set u. x = c \<or> c = 46) \<and> re_here re v"
      then obtain u v where uv: "x # t = u @ v" "\<forall>x \<in> set u. x = c \<or> c = 46" "re_here re v" by blast
      then obtain u' where "u = x # u'" using n by (cases u) auto
      then show "(x = c \<or> c = 46) \<and> matchstar c re t" using uv Cons by auto
    qed
    finally show ?thesis .
  qed
qed

lemma re_here_star: "re_here (c # 42 # re) t \<longleftrightarrow> (\<exists>u v. t = u @ v \<and> (\<forall>x \<in> set u. x = c \<or> c = 46) \<and> re_here re v)"
proof
  assume "re_here (c # 42 # re) t"
  then show "\<exists>u v. t = u @ v \<and> (\<forall>x \<in> set u. x = c \<or> c = 46) \<and> re_here re v" by (rule re_here_starE) blast+
qed (blast intro: re_here.intros)

lemma re_here_char:
  assumes "\<not> (\<exists>re'. re = 42 # re')" "\<not> (c = 36 \<and> re = [])"
  shows "re_here (c # re) t \<longleftrightarrow> (\<exists>x t'. t = x # t' \<and> (c = 46 \<or> c = x) \<and> re_here re t')"
  using assms by (auto elim: re_here_consE intro: re_here.intros)

lemma re_here_end: "re_here [36] t \<longleftrightarrow> t = []"
  by (auto elim: re_here_consE intro: re_here.intros)

lemma matchhere_iff: "matchhere re t \<longleftrightarrow> re_here re t"
proof (induction "length re" arbitrary: re t rule: less_induct)
  case less
  show ?case
  proof (cases re)
    case Nil
    then show ?thesis by (subst matchhere.simps) (simp add: re_here.intros)
  next
    case (Cons c re1)
    note c = Cons
    show ?thesis
    proof (cases "\<exists>re2. re1 = 42 # re2")
      case True
      then obtain re2 where r: "re1 = 42 # re2" by blast
      have "matchstar c re2 t \<longleftrightarrow> re_here (c # 42 # re2) t"
        unfolding re_here_star by (rule matchstar_iff) (use less c r in simp)
      then show ?thesis unfolding c r by (subst matchhere.simps) simp
    next
      case False
      have IH: "matchhere re1 t' \<longleftrightarrow> re_here re1 t'" for t' using less c by simp
      show ?thesis
      proof (cases "c = 36 \<and> re1 = []")
        case True
        then show ?thesis unfolding c by (subst matchhere.simps) (simp add: re_here_end)
      next
        case n: False
        then have "matchhere (c # re1) t \<longleftrightarrow> (\<exists>x t'. t = x # t' \<and> (c = 46 \<or> c = x) \<and> matchhere re1 t')"
          using False by (subst matchhere.simps) (auto split: list.splits)
        then show ?thesis unfolding c re_here_char [OF False n] IH .
      qed
    qed
  qed
qed

lemma match_from_iff: "match_from re t \<longleftrightarrow> (\<exists>u v. t = u @ v \<and> re_here re v)"
proof (induction t)
  case Nil
  then show ?case by (subst match_from.simps) (simp add: matchhere_iff)
next
  case (Cons x t)
  then show ?case by (subst match_from.simps) (auto simp: matchhere_iff Cons_eq_append_conv)
qed

text \<open>
  C23. The regular expression matcher of grep decides its declarative meaning:
  the pattern matches at some position of the text, or at its beginning when it
  starts with a caret, where \<open>c*\<close> stands for any number of bytes \<open>c\<close>, \<open>.\<close> for
  any byte and a final \<open>$\<close> for the end of the text.  The recursion of \<open>matchhere\<close>
  and \<open>matchstar\<close> terminates on every pattern and text.
\<close>

theorem re_match_spec:
  "re_match re t \<longleftrightarrow>
     (case re of [] \<Rightarrow> True | c # re' \<Rightarrow> if c = 94 then re_here re' t else \<exists>u v. t = u @ v \<and> re_here re v)"
proof (cases re)
  case Nil
  then show ?thesis by (auto simp: re_match_def match_from_iff intro: re_here.intros)
next
  case (Cons c re')
  then show ?thesis by (simp add: re_match_def matchhere_iff match_from_iff)
qed

section \<open>Lines\<close>

text \<open>The complete lines of a list of bytes, each with its newline.\<close>

fun lines :: "byte list \<Rightarrow> byte list list" where
  "lines [] = []"
| "lines (c # cs) = (if c = 10 then [10] # lines cs else case lines cs of [] \<Rightarrow> [] | l # ls \<Rightarrow> (c # l) # ls)"

definition last_part :: "byte list \<Rightarrow> byte list" where
  "last_part cs = rev (takeWhile (\<lambda>c. c \<noteq> 10) (rev cs))"

lemma lines_no_nl: "10 \<notin> set cs \<Longrightarrow> lines cs = []"
  by (induction cs) auto

lemma lines_nl: "10 \<notin> set cs \<Longrightarrow> lines (cs @ 10 # ds) = (cs @ [10]) # lines ds"
  by (induction cs) auto

lemma last_part_nl: "last_part (cs @ 10 # ds) = last_part ds"
  by (simp add: last_part_def takeWhile_append2 takeWhile_tail)

lemma find_nl_None: "0 \<notin> set cs \<Longrightarrow> find_nl cs = None \<longleftrightarrow> 10 \<notin> set cs"
  by (induction cs) auto

lemma find_nl_Some: "find_nl cs = Some k \<Longrightarrow> cs = take k cs @ 10 # drop (k + 1) cs \<and> 10 \<notin> set (take k cs)"
  by (induction cs arbitrary: k) (auto split: if_splits)

lemma lines_append: "lines (xs @ ys) = lines xs @ lines (last_part xs @ ys)"
proof (induction "length xs" arbitrary: xs rule: less_induct)
  case less
  show ?case
  proof (cases "10 \<in> set xs")
    case False
    then have tw: "takeWhile (\<lambda>c. c \<noteq> 10) (rev xs) = rev xs" by (subst takeWhile_eq_all_conv) auto
    have "last_part xs = xs" unfolding last_part_def tw by simp
    then show ?thesis using lines_no_nl [OF False] by simp
  next
    case True
    then obtain us vs where x: "xs = us @ 10 # vs" "10 \<notin> set us" by (metis split_list_first)
    then have "lines (vs @ ys) = lines vs @ lines (last_part vs @ ys)" by (intro less) simp
    then show ?thesis using x by (simp add: lines_nl last_part_nl)
  qed
qed

lemma last_part_all: "10 \<notin> set xs \<Longrightarrow> last_part xs = xs"
proof -
  assume "10 \<notin> set xs"
  then have tw: "takeWhile (\<lambda>c. c \<noteq> 10) (rev xs) = rev xs" by (subst takeWhile_eq_all_conv) auto
  show ?thesis unfolding last_part_def tw by simp
qed

lemma last_part_no_nl: "10 \<notin> set (last_part xs)"
  unfolding last_part_def set_rev by (metis (mono_tags, lifting) set_takeWhileD)

lemma last_part_length: "length (last_part xs) \<le> length xs"
  unfolding last_part_def by (metis length_rev length_takeWhile_le)

lemma last_part_set: "set (last_part xs) \<subseteq> set xs"
  unfolding last_part_def by (auto dest: set_takeWhileD)

lemma last_part_same: "length (last_part xs) = length xs \<longleftrightarrow> 10 \<notin> set xs"
proof
  assume l: "length (last_part xs) = length xs"
  then have "takeWhile (\<lambda>c. c \<noteq> 10) (rev xs) = rev xs"
    unfolding last_part_def by (metis length_rev takeWhile_eq_take take_all_iff order_refl)
  then show "10 \<notin> set xs" by (metis set_rev set_takeWhileD)
next
  assume "10 \<notin> set xs"
  then have tw: "takeWhile (\<lambda>c. c \<noteq> 10) (rev xs) = rev xs" by (subst takeWhile_eq_all_conv) auto
  show "length (last_part xs) = length xs" unfolding last_part_def tw by simp
qed

lemma last_part_less: "10 \<in> set xs \<Longrightarrow> length (last_part xs) < length xs"
  using last_part_same [of xs] last_part_length [of xs] by linarith

lemma lines_no_nl_long: "10 \<notin> set xs \<Longrightarrow> \<forall>l \<in> set (lines (xs @ ys)). length l \<le> length xs \<Longrightarrow> 10 \<notin> set ys"
proof (cases "10 \<in> set ys")
  case True
  assume a: "10 \<notin> set xs" "\<forall>l \<in> set (lines (xs @ ys)). length l \<le> length xs"
  from True obtain us vs where "ys = us @ 10 # vs" "10 \<notin> set us" by (metis split_list_first)
  then show ?thesis using a lines_nl [of "xs @ us" vs] by auto
qed simp

text \<open>A \<open>write\<close> that takes all the bytes it is given, up to the sizes of the buffers of the programs.\<close>

definition full_write :: "'w write_sys \<Rightarrow> bool" where
  "full_write wr \<longleftrightarrow> (\<forall>w fd bs. bs \<noteq> [] \<and> length bs \<le> 1024 \<longrightarrow> fst (wr w fd bs) = int (length bs))"

text \<open>A \<open>read\<close> that gives as many bytes as it is asked for or there are.\<close>

definition full_read :: "'w read_sys \<Rightarrow> ('w \<Rightarrow> int \<Rightarrow> byte list) \<Rightarrow> bool" where
  "full_read rd inp \<longleftrightarrow> (\<forall>w fd n. n \<le> 1024 \<longrightarrow> fst (rd w fd n) = int (min n (length (inp w fd))))"

context posix_io
begin

lemma write_full:
  assumes "full_write wr" "bs \<noteq> []" "length bs \<le> 1024"
  shows "outp (snd (wr w fd bs)) = (outp w)(fd := outp w fd @ bs)" "inp (snd (wr w fd bs)) = inp w"
  using wr_ok [of w fd bs "fst (wr w fd bs)" "snd (wr w fd bs)"] assms by (auto simp: full_write_def)

lemma put_bytes_ok: "outp (put_bytes wr fd bs w) = (outp w)(fd := outp w fd @ bs) \<and> inp (put_bytes wr fd bs w) = inp w"
proof (induction bs arbitrary: w)
  case (Cons b bs)
  have "outp (snd (wr w fd [b])) = (outp w)(fd := outp w fd @ [b])" "inp (snd (wr w fd [b])) = inp w"
    using wr_ok [of w fd "[b]" "fst (wr w fd [b])" "snd (wr w fd [b])"] by auto
  then show ?case using Cons by (simp add: fun_eq_iff)
qed (simp add: fun_eq_iff)

lemma grep_lines_ok:
  assumes "full_write wr" "0 \<notin> set p" "length p \<le> 1024"
  shows "\<exists>w'. grep_lines wr pat p w = (last_part p, w') \<and> inp w' = inp w
    \<and> outp w' = (outp w)(1 := outp w 1 @ concat (filter (\<lambda>l. re_match pat (butlast l)) (lines p)))"
  using assms(2,3)
proof (induction "length p" arbitrary: p w rule: less_induct)
  case less
  show ?case
  proof (cases "find_nl p")
    case None
    then have n: "10 \<notin> set p" using less.prems by (simp add: find_nl_None)
    then have tw: "takeWhile (\<lambda>c. c \<noteq> 10) (rev p) = rev p" by (subst takeWhile_eq_all_conv) auto
    have "last_part p = p" unfolding last_part_def tw by simp
    moreover have "grep_lines wr pat p w = (p, w)" using None by (subst grep_lines.simps) simp
    ultimately show ?thesis using lines_no_nl [OF n] by (intro exI [of _ w]) simp
  next
    case (Some k)
    let ?l = "take k p" and ?r = "drop (k + 1) p"
    note f = find_nl_Some [OF Some] and k = find_nl_less [OF Some]
    define w1 where "w1 = (if re_match pat ?l then snd (wr w 1 (take (k + 1) p)) else w)"
    have "p ! k = 10" using f k by (metis length_take min.absorb4 nth_append_length)
    then have tk: "take (k + 1) p = ?l @ [10]" using k by (simp add: take_Suc_conv_app_nth)
    have w1: "outp w1 = (outp w)(1 := outp w 1 @ (if re_match pat ?l then ?l @ [10] else []))" "inp w1 = inp w"
      using write_full [OF assms(1), of "?l @ [10]" w 1] less.prems(2) k unfolding w1_def tk by auto
    have "\<exists>w'. grep_lines wr pat ?r w1 = (last_part ?r, w') \<and> inp w' = inp w1
      \<and> outp w' = (outp w1)(1 := outp w1 1 @ concat (filter (\<lambda>l. re_match pat (butlast l)) (lines ?r)))"
      using k less.prems by (intro less.hyps) (auto dest: in_set_dropD)
    moreover have "grep_lines wr pat p w = grep_lines wr pat ?r w1"
      using Some by (subst grep_lines.simps) (simp add: w1_def)
    moreover have "lines p = (?l @ [10]) # lines ?r" "last_part p = last_part ?r"
      using lines_nl [of ?l ?r] last_part_nl [of ?l ?r] f by auto
    ultimately show ?thesis using w1 by (auto simp: fun_eq_iff)
  qed
qed

lemma grep_ok:
  assumes "full_write wr" "full_read rd inp" "0 \<notin> set (buf @ inp w fd)" "10 \<notin> set buf" "length buf < 1023"
    "\<forall>l \<in> set (lines (buf @ inp w fd)). length l \<le> 1023" "length (inp w fd) < fuel"
  shows "\<exists>w'. grep rd wr fuel pat fd buf w = Ok w' \<and> inp w' = (inp w)(fd := [])
    \<and> outp w' = (outp w)(1 := outp w 1 @ concat (filter (\<lambda>l. re_match pat (butlast l)) (lines (buf @ inp w fd))))"
  using assms(3-)
proof (induction fuel arbitrary: buf w)
  case (Suc fuel)
  let ?n = "1024 - length buf - 1" and ?i = "inp w fd"
  have n: "0 < ?n" using Suc.prems by simp
  obtain k bs w1 where r: "rd w fd ?n = (k, bs, w1)" by (cases "rd w fd ?n") auto
  note f = rd_ok [OF r n]
  have k: "k = int (min ?n (length ?i))" using assms(2) r unfolding full_read_def
    by (metis diff_le_self fst_conv le_trans)
  show ?case
  proof (cases "?i = []")
    case True
    then have "lines (buf @ ?i) = []" using Suc.prems by (simp add: lines_no_nl)
    then show ?thesis using r k f True by (intro exI [of _ w1]) (simp add: fun_eq_iff)
  next
    case False
    let ?all = "buf @ bs" and ?ms = "\<lambda>xs. concat (filter (\<lambda>l. re_match pat (butlast l)) (lines xs))"
    have b: "bs = take ?n ?i" "?i = bs @ inp w1 fd" using f k by (auto simp: min_def)
    have i1: "inp w1 fd = drop ?n ?i" using f k by (auto simp: min_def)
    have al: "length ?all \<le> 1023" using b(1) Suc.prems(3) by simp
    have eq: "(buf @ bs) @ inp w1 fd = buf @ ?i" using b(2) by simp
    have kp: "0 < k" using k n False by simp
    obtain w2 where g: "grep_lines wr pat ?all w1 = (last_part ?all, w2)" "inp w2 = inp w1"
      "outp w2 = (outp w1)(1 := outp w1 1 @ ?ms ?all)"
      using grep_lines_ok [OF assms(1), of ?all pat w1] Suc.prems(1) al unfolding eq [symmetric] by auto
    define buf1 where "buf1 = (if length (last_part ?all) = length ?all then [] else last_part ?all)"
    have b1: "buf1 = (if 10 \<in> set ?all then last_part ?all else [])" unfolding buf1_def last_part_same by simp
    have l1: "lines (last_part ?all @ inp w1 fd) = lines (buf1 @ inp w1 fd)"
    proof (cases "10 \<in> set ?all")
      case True
      then show ?thesis unfolding b1 by simp
    next
      case nl: False
      have "10 \<notin> set (inp w1 fd)"
      proof (cases "length ?i < ?n")
        case False
        then have "length ?all = 1023" using b(1) n by simp
        then show ?thesis using Suc.prems(4) eq by (intro lines_no_nl_long [OF nl]) simp
      qed (simp add: i1)
      then show ?thesis using nl unfolding last_part_all [OF nl] by (simp add: b1 lines_no_nl)
    qed
    then have ll: "lines (buf @ ?i) = lines ?all @ lines (buf1 @ inp w1 fd)"
      using lines_append [of ?all "inp w1 fd"] b(2) by simp
    have "set buf1 \<subseteq> set ?all" and buf1: "10 \<notin> set buf1" "length buf1 < 1023"
      using last_part_set [of ?all] last_part_no_nl [of ?all] last_part_less [of ?all] al
      unfolding b1 by (cases "10 \<in> set ?all", simp_all)+
    then have "0 \<notin> set (buf1 @ inp w1 fd)" using Suc.prems(1) unfolding eq [symmetric] by auto
    moreover have "\<forall>l \<in> set (lines (buf1 @ inp w1 fd)). length l \<le> 1023" using Suc.prems(4) unfolding ll by auto
    moreover have "length (inp w1 fd) < fuel"
      using Suc.prems(5) n False unfolding i1 length_drop by (cases ?i) auto
    ultimately have "\<exists>w'. grep rd wr fuel pat fd buf1 w2 = Ok w' \<and> inp w' = (inp w2)(fd := [])
        \<and> outp w' = (outp w2)(1 := outp w2 1 @ ?ms (buf1 @ inp w2 fd))"
      using buf1 by (intro Suc.IH) (simp_all add: g(2))
    then obtain w' where w': "grep rd wr fuel pat fd buf1 w2 = Ok w'" "inp w' = (inp w2)(fd := [])"
      "outp w' = (outp w2)(1 := outp w2 1 @ ?ms (buf1 @ inp w2 fd))" by blast
    have "grep rd wr (Suc fuel) pat fd buf w = Ok w'"
      using r kp g(1) w'(1) by (simp add: buf1_def Let_def)
    moreover have "inp w' = (inp w)(fd := [])" using w'(2) g(2) f by simp
    moreover have "outp w' = (outp w)(1 := outp w 1 @ ?ms (buf @ ?i))" unfolding w'(3) g(2,3) ll using f by simp
    ultimately show ?thesis by blast
  qed
qed simp

lemma wc_loop_ok:
  "length (inp w fd) < fuel \<Longrightarrow> \<exists>w'. wc_loop rd fuel fd st w = Ok (0, fold wc_byte (inp w fd) st, w')
     \<and> inp w' = (inp w)(fd := []) \<and> outp w' = outp w"
proof (induction fuel arbitrary: st w)
  case (Suc fuel)
  obtain k bs w1 where r: "rd w fd 512 = (k, bs, w1)" by (cases "rd w fd 512") auto
  note f = rd_ok [OF r]
  show ?case
  proof (cases "0 < k")
    case False
    then show ?thesis using r f by (auto simp: fun_eq_iff)
  next
    case True
    have i: "inp w fd = bs @ inp w1 fd" and i1: "(inp w1)(fd := []) = (inp w)(fd := [])" "outp w1 = outp w" using f by simp_all
    have "length (inp w1 fd) < fuel" using Suc.prems f True by auto
    then obtain w' where "wc_loop rd fuel fd (fold wc_byte bs st) w1 = Ok (0, fold wc_byte (inp w1 fd) (fold wc_byte bs st), w')"
      "inp w' = (inp w1)(fd := [])" "outp w' = outp w1" using Suc.IH by blast
    moreover have "fold wc_byte (inp w fd) st = fold wc_byte (inp w1 fd) (fold wc_byte bs st)" unfolding i by simp
    ultimately show ?thesis using r True i1 by (intro exI [of _ w']) simp
  qed
qed simp

lemma cat_ok:
  assumes "full_write wr"
  shows "length (inp w fd) < fuel \<Longrightarrow> \<exists>w'. cat rd wr fuel fd w = Ok (True, w')
     \<and> inp w' = (inp w)(fd := []) \<and> outp w' = (outp w)(1 := outp w 1 @ inp w fd)"
proof (induction fuel arbitrary: w)
  case (Suc fuel)
  obtain k bs w1 where r: "rd w fd 512 = (k, bs, w1)" by (cases "rd w fd 512") auto
  note f = rd_ok [OF r]
  show ?case
  proof (cases "0 < k")
    case False
    then show ?thesis using r f by (auto simp: fun_eq_iff)
  next
    case True
    have i: "inp w fd = bs @ inp w1 fd" and i1: "(inp w1)(fd := []) = (inp w)(fd := [])" "outp w1 = outp w" using f by simp_all
    have b512: "length bs \<le> 1024" using f by auto
    have bs: "bs \<noteq> []" "k = int (length bs)" using f True by auto
    obtain w2 where w2: "wr w1 1 bs = (k, w2)" using assms bs b512 unfolding full_write_def by (metis prod.collapse)
    note g = write_full [OF assms bs(1) b512, of w1 1]
    have "length (inp w2 fd) < fuel" using Suc.prems f True g(2) w2 by auto
    then obtain w' where "cat rd wr fuel fd w2 = Ok (True, w')"
      "inp w' = (inp w2)(fd := [])" "outp w' = (outp w2)(1 := outp w2 1 @ inp w2 fd)" using Suc.IH by blast
    moreover have "outp w2 = (outp w)(1 := outp w 1 @ bs)" "inp w2 = inp w1" using g w2 i1 by simp_all
    moreover have "(outp w)(1 := outp w 1 @ inp w fd) = (outp w)(1 := (outp w 1 @ bs) @ inp w1 fd)" unfolding i by simp
    ultimately show ?thesis using r True w2 i1 by (intro exI [of _ w']) simp
  qed
qed simp

end

section \<open>Words\<close>

text \<open>The words of a list of bytes: the maximal runs of bytes that are no separators.\<close>

fun words :: "byte list \<Rightarrow> byte list list" where
  "words [] = []"
| "words (c # cs) =
     (if wc_sep c then words cs
      else if cs = [] \<or> wc_sep (hd cs) then [c] # words cs
      else case words cs of [] \<Rightarrow> [] | u # us \<Rightarrow> (c # u) # us)"

lemma words_nonempty: "cs \<noteq> [] \<Longrightarrow> \<not> wc_sep (hd cs) \<Longrightarrow> words cs \<noteq> []"
proof (induction cs)
  case (Cons c cs)
  then show ?case by (cases "words cs") auto
qed simp

lemma words_length:
  "length (words (c # cs)) = length (words cs) + (if \<not> wc_sep c \<and> (cs = [] \<or> wc_sep (hd cs)) then 1 else 0)"
  using words_nonempty [of cs] by (cases "words cs") auto

lemma wc_fold:
  "fold wc_byte cs (l, w, c, inword) =
     (l + int (count_list cs 10),
      w + int (length (words cs)) - (if inword \<and> cs \<noteq> [] \<and> \<not> wc_sep (hd cs) then 1 else 0),
      c + int (length cs), if cs = [] then inword else \<not> wc_sep (last cs))"
proof (induction cs arbitrary: l w c inword)
  case (Cons x cs)
  have "fold wc_byte (x # cs) (l, w, c, inword) = fold wc_byte cs (wc_byte x (l, w, c, inword))" by simp
  also have "\<dots> = (l + int (count_list (x # cs) 10),
      w + int (length (words (x # cs))) - (if inword \<and> \<not> wc_sep x then 1 else 0),
      c + int (length (x # cs)), \<not> wc_sep (last (x # cs)))"
    unfolding wc_byte_def prod.case Cons words_length by (cases "cs = []") auto
  finally show ?case by simp
qed simp

section \<open>What the programs print\<close>

text \<open>
  C24. When the reads are not short, the input holds no NUL and no line is
  longer than the buffer of 1023 bytes, grep writes exactly the complete lines
  of its input that match the pattern, in their order and each in one piece
  with its newline, and one pass more than the input has bytes is fuel enough.
\<close>

theorem grep_spec:
  assumes "posix_io rd wr inp outp" "full_write wr" "full_read rd inp" "0 \<notin> set (inp w fd)"
    "\<forall>l \<in> set (lines (inp w fd)). length l \<le> 1023" "length (inp w fd) < fuel"
  shows "\<exists>w'. grep rd wr fuel pat fd [] w = Ok w' \<and> inp w' = (inp w)(fd := [])
    \<and> outp w' = (outp w)(1 := outp w 1 @ concat (filter (\<lambda>l. re_match pat (butlast l)) (lines (inp w fd))))"
  using posix_io.grep_ok [OF assms(1-3), of "[]" w fd fuel pat] assms(4-) by simp

lemma sim_full: "full_write (sim_write 1023)" "full_read (sim_read 1023) sim_in"
  by (auto simp: full_write_def full_read_def sim_write_def sim_read_def Let_def min_def)

text \<open>The input of two lines and a rest, with the pattern \<open>b$\<close>.\<close>

theorem grep_spec_witness:
  "\<exists>w'. grep (sim_read 1023) (sim_write 1023) 9 [98, 36] 0 [] \<lparr>sim_in = (\<lambda>_. [97, 98, 10, 98, 97, 10, 98]), sim_out = (\<lambda>_. [])\<rparr> = Ok w'
     \<and> sim_out w' 1 = [97, 98, 10]"
  using grep_spec [OF sim.posix_io_axioms sim_full, of "\<lparr>sim_in = (\<lambda>_. [97, 98, 10, 98, 97, 10, 98]), sim_out = (\<lambda>_. [])\<rparr>" 0 9 "[98, 36]"]
  by (auto simp: re_match_def match_from.simps matchhere.simps)



text \<open>
  C25. Whatever the sizes of the reads, wc reports the number of newlines, of
  maximal runs of bytes that are no separators, and of bytes of its input.
\<close>

theorem wc_spec:
  assumes "posix_io rd wr inp outp" "length (inp w fd) < fuel"
  shows "\<exists>w'. wc rd wr fuel fd name w = Ok (True, w') \<and> inp w' = (inp w)(fd := [])
    \<and> outp w' = (outp w)(1 := outp w 1 @
        wc_line (int (count_list (inp w fd) 10)) (int (length (words (inp w fd)))) (int (length (inp w fd))) name)"
  using posix_io.wc_loop_ok [OF assms, of "(0, 0, 0, False)"] posix_io.put_bytes_ok [OF assms(1)]
  by (auto simp: wc_def wc_fold)

theorem wc_spec_witness:
  "\<exists>w'. wc (sim_read 0) (sim_write 0) 9 0 [120] \<lparr>sim_in = (\<lambda>_. [97, 98, 32, 98, 10]), sim_out = (\<lambda>_. [])\<rparr> = Ok (True, w')
     \<and> sim_out w' 1 = wc_line 1 2 5 [120]"
  using wc_spec [OF sim.posix_io_axioms [of 0], of "\<lparr>sim_in = (\<lambda>_. [97, 98, 32, 98, 10]), sim_out = (\<lambda>_. [])\<rparr>" 0 9 "[120]"]
  by (auto simp: wc_sep_def)

text \<open>
  C26. When the writes are not short, cat copies its input, whatever the sizes of
  the reads; a write that takes fewer bytes than were read ends it with the
  message, and what was read and not written is lost.
\<close>

theorem cat_spec:
  assumes "posix_io rd wr inp outp"
  shows "(full_write wr \<and> length (inp w fd) < fuel \<longrightarrow>
      (\<exists>w'. cat rd wr fuel fd w = Ok (True, w') \<and> inp w' = (inp w)(fd := []) \<and> outp w' = (outp w)(1 := outp w 1 @ inp w fd)))
    \<and> (\<forall>n bs w1 k w2. rd w fd 512 = (n, bs, w1) \<and> 0 < n \<and> wr w1 1 bs = (k, w2) \<and> k < n \<longrightarrow>
      (\<exists>w'. cat rd wr (Suc fuel) fd w = Ok (False, w') \<and>
        outp w' = (outp w)(1 := outp w 1 @ take (nat k) (inp w fd) @ bytes ''cat: write error'' @ [10])))"
proof -
  have "outp (put_bytes wr 1 (bytes ''cat: write error'' @ [10]) w2) = (outp w)(1 := outp w 1 @ take (nat k) (inp w fd) @ bytes ''cat: write error'' @ [10])"
    if r: "rd w fd 512 = (n, bs, w1)" "0 < n" "wr w1 1 bs = (k, w2)" "k < n" for n bs w1 k w2
  proof -
    have b: "bs = take (nat n) (inp w fd)" "bs \<noteq> []" "outp w1 = outp w" using posix_io.rd_ok [OF assms r(1)] r(2) by auto
    have "outp w2 = (outp w)(1 := outp w 1 @ take (nat k) (inp w fd))"
      using posix_io.wr_ok [OF assms r(3) b(2)] b(1,3) r(4) by (simp add: min_def)
    then show ?thesis using posix_io.put_bytes_ok [OF assms] by simp
  qed
  then show ?thesis using posix_io.cat_ok [OF assms] by auto
qed

theorem cat_spec_witness:
  "\<exists>w'. cat (sim_read 1023) (sim_write 1023) 9 0 \<lparr>sim_in = (\<lambda>_. [97, 98, 32, 98, 10]), sim_out = (\<lambda>_. [])\<rparr> = Ok (True, w')
     \<and> sim_out w' 1 = [97, 98, 32, 98, 10]"
  using cat_spec [OF sim.posix_io_axioms [of 1023], of "\<lparr>sim_in = (\<lambda>_. [97, 98, 32, 98, 10]), sim_out = (\<lambda>_. [])\<rparr>" 0 9] sim_full
  by auto

end
