(* ===== verification/Sh.thy ===== *)
theory Sh
  imports Textutils
begin

text \<open>
  The parser of the shell (src/xv6/sh.c).  The command line is the list of its
  bytes without the NUL; the pointers \<open>s\<close>, \<open>q\<close> and \<open>eq\<close> into it are positions and
  \<open>es\<close> is its length.  A command is a tree; \<open>malloc\<close> is taken to succeed, as the
  code does.  The mutually recursive functions carry fuel, and a message of
  \<open>panic\<close> ends the parse.
\<close>

section \<open>Commands\<close>

text \<open>
  An argument is the pair of its positions in \<open>argv\<close> and \<open>eargv\<close>; a redirection
  has the positions of the file name, the mode and the descriptor.
\<close>

type_synonym span = "nat \<times> nat"

datatype cmd =
    EXEC "span list"
  | REDIR cmd nat nat int int
  | PIPE cmd cmd
  | LIST cmd cmd
  | BACK cmd

text \<open>The constructors; an \<open>execcmd\<close> starts without arguments.\<close>

definition execcmd :: cmd where
  "execcmd = EXEC []"

definition redircmd :: "cmd \<Rightarrow> nat \<Rightarrow> nat \<Rightarrow> int \<Rightarrow> int \<Rightarrow> cmd" where
  "redircmd subcmd q eq mode fd = REDIR subcmd q eq mode fd"

definition pipecmd :: "cmd \<Rightarrow> cmd \<Rightarrow> cmd" where
  "pipecmd left right = PIPE left right"

definition listcmd :: "cmd \<Rightarrow> cmd \<Rightarrow> cmd" where
  "listcmd left right = LIST left right"

definition backcmd :: "cmd \<Rightarrow> cmd" where
  "backcmd subcmd = BACK subcmd"

text \<open>Storing an argument and its end in an \<open>execcmd\<close>.\<close>

fun add_arg :: "cmd \<Rightarrow> nat \<Rightarrow> nat \<Rightarrow> cmd" where
  "add_arg (EXEC argv) q eq = EXEC (argv @ [(q, eq)])"
| "add_arg c q eq = c"

fun argc :: "cmd \<Rightarrow> nat" where
  "argc (EXEC argv) = length argv"
| "argc c = 0"

abbreviation O_RDONLY :: int where "O_RDONLY \<equiv> 0"
abbreviation O_WRONLY :: int where "O_WRONLY \<equiv> 1"
abbreviation O_RDWR :: int where "O_RDWR \<equiv> 2"
abbreviation O_CREATE :: int where "O_CREATE \<equiv> 512"
abbreviation MAXARGS :: nat where "MAXARGS \<equiv> 10"

section \<open>Tokens\<close>

definition whitespace :: "byte list" where
  "whitespace = [32, 9, 13, 10, 11]"

text \<open>The bytes of \<open><|>&;()\<close>.\<close>

definition symbols :: "byte list" where
  "symbols = [60, 124, 62, 38, 59, 40, 41]"

text \<open>The byte at a position, the NUL behind the line included.\<close>

definition at :: "byte list \<Rightarrow> nat \<Rightarrow> byte" where
  "at buf s = (if s < length buf then buf ! s else 0)"

function skip_ws :: "byte list \<Rightarrow> nat \<Rightarrow> nat" where
  "skip_ws buf s = (if s < length buf \<and> at buf s \<in> set whitespace then skip_ws buf (s + 1) else s)"
  by pat_completeness auto
termination
  by (relation "measure (\<lambda>(buf, s). length buf - s)") auto

function skip_word :: "byte list \<Rightarrow> nat \<Rightarrow> nat" where
  "skip_word buf s =
     (if s < length buf \<and> at buf s \<notin> set whitespace \<and> at buf s \<notin> set symbols then skip_word buf (s + 1) else s)"
  by pat_completeness auto
termination
  by (relation "measure (\<lambda>(buf, s). length buf - s)") auto

declare skip_ws.simps [simp del] skip_word.simps [simp del]

text \<open>The \<open>switch\<close> of \<open>gettoken\<close>: the token (97 for a word, 43 for the sign that appends) and its end.\<close>

definition token_at :: "byte list \<Rightarrow> nat \<Rightarrow> byte \<times> nat" where
  "token_at buf q =
     (let c = at buf q in
      if c = 0 then (c, q)
      else if c \<in> {124, 40, 41, 59, 38, 60} then (c, q + 1)
      else if c = 62 then (if at buf (q + 1) = 62 then (43, q + 2) else (c, q + 1))
      else (97, skip_word buf q))"

definition gettoken :: "byte list \<Rightarrow> nat \<Rightarrow> byte \<times> nat \<times> nat \<times> nat" where
  "gettoken buf ps = (let q = skip_ws buf ps; (ret, s) = token_at buf q in (ret, q, s, skip_ws buf s))"

definition peek :: "byte list \<Rightarrow> nat \<Rightarrow> byte list \<Rightarrow> bool \<times> nat" where
  "peek buf ps toks = (let s = skip_ws buf ps in (at buf s \<noteq> 0 \<and> at buf s \<in> set toks, s))"

section \<open>The parser\<close>

text \<open>
  \<open>parseexec\<close> fills in the command that the redirections already wrap; the model
  keeps the redirections in a list, innermost first, and wraps at the end.
\<close>

type_synonym redir = "nat \<times> nat \<times> int \<times> int"

definition wrap :: "cmd \<Rightarrow> redir list \<Rightarrow> cmd" where
  "wrap c rs = foldl (\<lambda>c (q, eq, mode, fd). redircmd c q eq mode fd) c rs"

fun parseredirs :: "nat \<Rightarrow> byte list \<Rightarrow> redir list \<Rightarrow> nat \<Rightarrow> (redir list \<times> nat) res" where
  "parseredirs 0 buf rs s = Err NoFuel"
| "parseredirs (Suc n) buf rs s =
     (case peek buf s [60, 62] of (again, s) \<Rightarrow>
        if again then
          (case gettoken buf s of (tok, _, _, s) \<Rightarrow>
             case gettoken buf s of (t, q, eq, s) \<Rightarrow>
               if t \<noteq> 97 then Err (Panic ''missing file for redirection'')
               else if tok = 60 then parseredirs n buf (rs @ [(q, eq, O_RDONLY, 0)]) s
               else if tok = 62 then parseredirs n buf (rs @ [(q, eq, O_WRONLY + O_CREATE, 1)]) s
               else if tok = 43 then parseredirs n buf (rs @ [(q, eq, O_WRONLY + O_CREATE, 1)]) s
               else parseredirs n buf rs s)
        else Ok (rs, s))"

text \<open>The loop of \<open>parseexec\<close> over the arguments.\<close>

fun parseargs :: "nat \<Rightarrow> byte list \<Rightarrow> cmd \<Rightarrow> redir list \<Rightarrow> nat \<Rightarrow> (cmd \<times> nat) res" where
  "parseargs 0 buf c rs s = Err NoFuel"
| "parseargs (Suc n) buf c rs s =
     (case peek buf s [124, 41, 38, 59] of (stop, s) \<Rightarrow>
        if stop then Ok (wrap c rs, s)
        else
          (case gettoken buf s of (tok, q, eq, s) \<Rightarrow>
             if tok = 0 then Ok (wrap c rs, s)
             else if tok \<noteq> 97 then Err (Panic ''syntax'')
             else
               let c = add_arg c q eq in
               if argc c \<ge> MAXARGS then Err (Panic ''too many args'')
               else bindr (parseredirs n buf rs s) (\<lambda>(rs, s). parseargs n buf c rs s)))"

fun parsebacks :: "nat \<Rightarrow> byte list \<Rightarrow> cmd \<Rightarrow> nat \<Rightarrow> (cmd \<times> nat) res" where
  "parsebacks 0 buf c s = Err NoFuel"
| "parsebacks (Suc n) buf c s =
     (case peek buf s [38] of (again, s) \<Rightarrow>
        if again then (case gettoken buf s of (_, _, _, s) \<Rightarrow> parsebacks n buf (backcmd c) s)
        else Ok (c, s))"

function parseline :: "nat \<Rightarrow> byte list \<Rightarrow> nat \<Rightarrow> (cmd \<times> nat) res"
  and parsepipe :: "nat \<Rightarrow> byte list \<Rightarrow> nat \<Rightarrow> (cmd \<times> nat) res"
  and parseexec :: "nat \<Rightarrow> byte list \<Rightarrow> nat \<Rightarrow> (cmd \<times> nat) res"
  and parseblock :: "nat \<Rightarrow> byte list \<Rightarrow> nat \<Rightarrow> (cmd \<times> nat) res" where
  "parseline fuel buf s =
    (case fuel of 0 \<Rightarrow> Err NoFuel | Suc n \<Rightarrow>
     bindr (parsepipe n buf s) (\<lambda>(c, s).
     bindr (parsebacks n buf c s) (\<lambda>(c, s).
       case peek buf s [59] of (again, s) \<Rightarrow>
         if again then
           (case gettoken buf s of (_, _, _, s) \<Rightarrow>
              bindr (parseline n buf s) (\<lambda>(d, s). Ok (listcmd c d, s)))
         else Ok (c, s))))"
| "parsepipe fuel buf s =
    (case fuel of 0 \<Rightarrow> Err NoFuel | Suc n \<Rightarrow>
     bindr (parseexec n buf s) (\<lambda>(c, s).
       case peek buf s [124] of (again, s) \<Rightarrow>
         if again then
           (case gettoken buf s of (_, _, _, s) \<Rightarrow>
              bindr (parsepipe n buf s) (\<lambda>(d, s). Ok (pipecmd c d, s)))
         else Ok (c, s)))"
| "parseexec fuel buf s =
    (case fuel of 0 \<Rightarrow> Err NoFuel | Suc n \<Rightarrow>
     (case peek buf s [40] of (block, s) \<Rightarrow>
        if block then parseblock n buf s
        else bindr (parseredirs n buf [] s) (\<lambda>(rs, s). parseargs n buf execcmd rs s)))"
| "parseblock fuel buf s =
    (case fuel of 0 \<Rightarrow> Err NoFuel | Suc n \<Rightarrow>
     (case peek buf s [40] of (op, s) \<Rightarrow>
        if \<not> op then Err (Panic ''parseblock'')
        else
          (case gettoken buf s of (_, _, _, s) \<Rightarrow>
             bindr (parseline n buf s) (\<lambda>(c, s).
               case peek buf s [41] of (cl, s) \<Rightarrow>
                 if \<not> cl then Err (Panic ''syntax - missing )'')
                 else
                   (case gettoken buf s of (_, _, _, s) \<Rightarrow>
                      bindr (parseredirs n buf [] s) (\<lambda>(rs, s). Ok (wrap c rs, s)))))))"
  by pat_completeness auto
termination
  by (relation "measure (\<lambda>x. case x of Inl (Inl (n, _)) \<Rightarrow> n | Inl (Inr (n, _)) \<Rightarrow> n | Inr (Inl (n, _)) \<Rightarrow> n | Inr (Inr (n, _)) \<Rightarrow> n)") simp_all

declare parseline.simps [simp del] parsepipe.simps [simp del] parseexec.simps [simp del] parseblock.simps [simp del]

text \<open>
  Terminating the words in place.  The position behind the line already holds
  the NUL, so a store there changes nothing.
\<close>

fun nulterminate :: "cmd \<Rightarrow> byte list \<Rightarrow> byte list" where
  "nulterminate (EXEC argv) buf = foldl (\<lambda>buf (q, eq). buf[eq := 0]) buf argv"
| "nulterminate (REDIR c q eq mode fd) buf = (nulterminate c buf)[eq := 0]"
| "nulterminate (PIPE l r) buf = nulterminate r (nulterminate l buf)"
| "nulterminate (LIST l r) buf = nulterminate r (nulterminate l buf)"
| "nulterminate (BACK c) buf = nulterminate c buf"

text \<open>The bytes printed on descriptor 2 and the result.\<close>

definition parsecmd :: "nat \<Rightarrow> byte list \<Rightarrow> byte list \<times> (cmd \<times> byte list) res" where
  "parsecmd n buf =
     (case parseline n buf 0 of
        Err e \<Rightarrow> ([], Err e)
      | Ok (c, s) \<Rightarrow>
          (case peek buf s [] of (_, s) \<Rightarrow>
             if s \<noteq> length buf then (bytes ''leftovers: '' @ drop s buf @ [10], Err (Panic ''syntax''))
             else ([], Ok (c, nulterminate c buf))))"

section \<open>Positions\<close>

definition special :: "byte \<Rightarrow> bool" where
  "special c \<longleftrightarrow> c \<in> set whitespace \<or> c \<in> set symbols"

lemma skip_ws_bounds: "s \<le> length buf \<Longrightarrow> s \<le> skip_ws buf s \<and> skip_ws buf s \<le> length buf"
proof (induction buf s rule: skip_ws.induct)
  case (1 buf s)
  then show ?case by (subst (1 2) skip_ws.simps) auto
qed

lemma skip_ws_stop: "skip_ws buf s < length buf \<Longrightarrow> at buf (skip_ws buf s) \<notin> set whitespace"
proof (induction buf s rule: skip_ws.induct)
  case (1 buf s)
  show ?case
  proof (cases "s < length buf \<and> at buf s \<in> set whitespace")
    case True
    then have "skip_ws buf s = skip_ws buf (s + 1)" by (subst skip_ws.simps) simp
    then show ?thesis using 1 True by simp
  next
    case False
    then have "skip_ws buf s = s" by (subst skip_ws.simps) auto
    then show ?thesis using 1(2) False by auto
  qed
qed

lemma skip_word_ok:
  "s \<le> length buf \<Longrightarrow> s \<le> skip_word buf s \<and> skip_word buf s \<le> length buf
     \<and> (\<forall>i. s \<le> i \<and> i < skip_word buf s \<longrightarrow> \<not> special (at buf i)) \<and> (skip_word buf s < length buf \<longrightarrow> special (at buf (skip_word buf s)))"
proof (induction buf s rule: skip_word.induct)
  case (1 buf s)
  show ?case
  proof (cases "s < length buf \<and> at buf s \<notin> set whitespace \<and> at buf s \<notin> set symbols")
    case True
    then have e: "skip_word buf s = skip_word buf (s + 1)" by (subst skip_word.simps) simp
    have "\<not> special (at buf s)" using True by (simp add: special_def)
    then show ?thesis using 1(1) True unfolding e by (auto simp: less_eq_Suc_le dest: le_neq_implies_less)
  next
    case False
    then have "skip_word buf s = s" by (subst skip_word.simps) auto
    then show ?thesis using 1(2) False by (auto simp: special_def)
  qed
qed

text \<open>A word: no separator inside it and one behind it.\<close>

definition word_span :: "byte list \<Rightarrow> span \<Rightarrow> bool" where
  "word_span buf = (\<lambda>(q, eq). q < eq \<and> eq \<le> length buf \<and> (\<forall>i. q \<le> i \<and> i < eq \<longrightarrow> \<not> special (at buf i))
     \<and> (eq < length buf \<longrightarrow> special (at buf eq)))"

lemma at_nonzero: "at buf q \<noteq> 0 \<Longrightarrow> q < length buf"
  by (auto simp: at_def split: if_splits)

lemma skip_word_step: "q < length buf \<Longrightarrow> \<not> special (at buf q) \<Longrightarrow> q < skip_word buf q"
  using skip_word_ok [of "q + 1" buf] by (subst skip_word.simps) (auto simp: special_def)

lemma token_at_ok:
  assumes "token_at buf q = (tok, e)" "q \<le> length buf" "q < length buf \<Longrightarrow> at buf q \<notin> set whitespace"
  shows "q \<le> e \<and> e \<le> length buf \<and> (tok \<noteq> 0 \<longrightarrow> q < e) \<and> (tok = 97 \<longrightarrow> word_span buf (q, e)) \<and> (tok = 0 \<longrightarrow> at buf q = 0)"
proof -
  consider "at buf q = 0" | "at buf q \<noteq> 0" "at buf q \<in> {124, 40, 41, 59, 38, 60}" | "at buf q = 62" "at buf (q + 1) = 62"
    | "at buf q = 62" "at buf (q + 1) \<noteq> 62" | "at buf q \<noteq> 0" "at buf q \<notin> {124, 40, 41, 59, 38, 60}" "at buf q \<noteq> 62"
    by blast
  then show ?thesis
  proof cases
    case 1
    then show ?thesis using assms by (simp add: token_at_def)
  next
    case 2
    then have "tok = at buf q" "e = q + 1" "tok \<noteq> 97" using assms(1) by (auto simp: token_at_def Let_def)
    then show ?thesis using at_nonzero [OF 2(1)] 2 by auto
  next
    case 3
    then have "at buf (q + 1) \<noteq> 0" by simp
    from at_nonzero [OF this] show ?thesis using assms(1) 3 by (auto simp: token_at_def)
  next
    case 4
    then have "at buf q \<noteq> 0" by simp
    from at_nonzero [OF this] show ?thesis using assms(1) 4 by (auto simp: token_at_def)
  next
    case 5
    have e: "tok = 97" "e = skip_word buf q" using assms(1) 5 by (auto simp: token_at_def Let_def)
    note q = at_nonzero [OF 5(1)]
    have "\<not> special (at buf q)" using assms(3) [OF q] 5 by (simp add: special_def symbols_def)
    from skip_word_step [OF q this] show ?thesis using skip_word_ok [OF assms(2)] 5(1) unfolding e word_span_def by simp
  qed
qed

lemma gettoken_ok:
  assumes "gettoken buf s = (tok, q, eq, s')" "s \<le> length buf"
  shows "s \<le> s'" "s' \<le> length buf" "tok \<noteq> 0 \<Longrightarrow> s < s'" "tok = 97 \<Longrightarrow> word_span buf (q, eq)"
proof -
  obtain t where t: "token_at buf (skip_ws buf s) = (tok, eq)" "q = skip_ws buf s" "s' = skip_ws buf eq"
    using assms(1) by (auto simp: gettoken_def Let_def split: prod.splits)
  note b = skip_ws_bounds [OF assms(2)]
  note k = token_at_ok [OF t(1) _ skip_ws_stop] and c = skip_ws_bounds [of eq buf]
  show "s \<le> s'" "s' \<le> length buf" "tok \<noteq> 0 \<Longrightarrow> s < s'" "tok = 97 \<Longrightarrow> word_span buf (q, eq)"
    using b k c t by auto
qed

lemma peek_ok:
  assumes "peek buf s toks = (b, s')" "s \<le> length buf"
  shows "s \<le> s'" "s' \<le> length buf" "b \<Longrightarrow> s' < length buf \<and> at buf s' \<noteq> 0 \<and> at buf s' \<in> set toks \<and> at buf s' \<notin> set whitespace"
  using assms skip_ws_bounds [OF assms(2)] skip_ws_stop [of buf s] by (auto simp: peek_def Let_def at_def split: if_splits)

lemma skip_ws_id: "s < length buf \<Longrightarrow> at buf s \<notin> set whitespace \<Longrightarrow> skip_ws buf s = s"
  by (subst skip_ws.simps) simp

text \<open>After a successful \<open>peek\<close> the token is there.\<close>

lemma gettoken_after_peek:
  assumes "peek buf s toks = (True, s1)" "s \<le> length buf" "gettoken buf s1 = (tok, q, eq, s2)"
  shows "s < s2 \<and> s2 \<le> length buf"
proof -
  note p = peek_ok [OF assms(1,2)]
  have "token_at buf s1 = (tok, eq)" using assms(3) p(3) by (auto simp: gettoken_def Let_def skip_ws_id split: prod.splits)
  then have "tok \<noteq> 0" using token_at_ok [of buf s1 tok eq] p by auto
  then show ?thesis using gettoken_ok [OF assms(3)] p by auto
qed

section \<open>What the parser returns\<close>

fun spans :: "cmd \<Rightarrow> span set" where
  "spans (EXEC argv) = set argv"
| "spans (REDIR c q eq mode fd) = insert (q, eq) (spans c)"
| "spans (PIPE l r) = spans l \<union> spans r"
| "spans (LIST l r) = spans l \<union> spans r"
| "spans (BACK c) = spans c"

text \<open>The arrays of an \<open>execcmd\<close> have room for the null pointer behind the last argument.\<close>

fun few_args :: "cmd \<Rightarrow> bool" where
  "few_args (EXEC argv) \<longleftrightarrow> length argv < MAXARGS"
| "few_args (REDIR c q eq mode fd) \<longleftrightarrow> few_args c"
| "few_args (PIPE l r) \<longleftrightarrow> few_args l \<and> few_args r"
| "few_args (LIST l r) \<longleftrightarrow> few_args l \<and> few_args r"
| "few_args (BACK c) \<longleftrightarrow> few_args c"

text \<open>Redirections are of the standard input and output.\<close>

fun std_redirs :: "cmd \<Rightarrow> bool" where
  "std_redirs (EXEC argv) \<longleftrightarrow> True"
| "std_redirs (REDIR c q eq mode fd) \<longleftrightarrow> (fd = 0 \<or> fd = 1) \<and> std_redirs c"
| "std_redirs (PIPE l r) \<longleftrightarrow> std_redirs l \<and> std_redirs r"
| "std_redirs (LIST l r) \<longleftrightarrow> std_redirs l \<and> std_redirs r"
| "std_redirs (BACK c) \<longleftrightarrow> std_redirs c"

definition cmd_ok :: "byte list \<Rightarrow> cmd \<Rightarrow> bool" where
  "cmd_ok buf c \<longleftrightarrow> (\<forall>w \<in> spans c. word_span buf w) \<and> few_args c \<and> std_redirs c"

definition redirs_ok :: "byte list \<Rightarrow> redir list \<Rightarrow> bool" where
  "redirs_ok buf rs \<longleftrightarrow> (\<forall>(q, eq, _, fd) \<in> set rs. word_span buf (q, eq) \<and> (fd = 0 \<or> fd = 1))"

definition parsed :: "('a \<Rightarrow> bool) \<Rightarrow> byte list \<Rightarrow> nat \<Rightarrow> ('a \<times> nat) res \<Rightarrow> bool" where
  "parsed P buf s x \<longleftrightarrow> (case x of Ok (y, s') \<Rightarrow> s \<le> s' \<and> s' \<le> length buf \<and> P y | Err e \<Rightarrow> \<exists>m. e = Panic m)"

lemma parsed_Ok [simp]: "parsed P buf s (Ok (y, s')) \<longleftrightarrow> s \<le> s' \<and> s' \<le> length buf \<and> P y"
  by (simp add: parsed_def)

lemma parsed_Panic [simp]: "parsed P buf s (Err (Panic m))"
  by (simp add: parsed_def)

lemma parsed_le: "parsed P buf s' x \<Longrightarrow> s \<le> s' \<Longrightarrow> parsed P buf s x"
  by (auto simp: parsed_def split: res.splits)

lemma parsed_bind:
  assumes "parsed P buf s x" "\<And>y s'. s \<le> s' \<Longrightarrow> s' \<le> length buf \<Longrightarrow> P y \<Longrightarrow> parsed Q buf s' (f (y, s'))"
  shows "parsed Q buf s (bindr x f)"
proof (cases x)
  case (Ok z)
  then obtain y s' where "x = Ok (y, s')" by (cases z) auto
  then show ?thesis using assms by (auto intro: parsed_le)
qed (use assms in \<open>simp add: parsed_def\<close>)

lemma wrap_ok: "cmd_ok buf c \<Longrightarrow> redirs_ok buf rs \<Longrightarrow> cmd_ok buf (wrap c rs)"
proof (induction rs arbitrary: c)
  case (Cons r rs)
  obtain q e m f where r: "r = (q, e, m, f)" by (rule prod_cases4)
  have "cmd_ok buf (REDIR c q e m f)" "redirs_ok buf rs" using Cons.prems r by (simp_all add: cmd_ok_def redirs_ok_def)
  from Cons.IH [OF this] show ?case by (simp add: wrap_def r redircmd_def)
qed (simp add: wrap_def)

lemma parseredirs_ok:
  "s \<le> length buf \<Longrightarrow> length buf - s < n \<Longrightarrow> redirs_ok buf rs \<Longrightarrow> parsed (redirs_ok buf) buf s (parseredirs n buf rs s)"
proof (induction n arbitrary: rs s)
  case (Suc n)
  obtain b s1 where p: "peek buf s [60, 62] = (b, s1)" by (rule prod.exhaust)
  note pk = peek_ok [OF p Suc.prems(1)]
  show ?case
  proof (cases b)
    case False
    then show ?thesis using p pk Suc.prems by simp
  next
    case True
    obtain tok q1 e1 s2 where g1: "gettoken buf s1 = (tok, q1, e1, s2)" by (rule prod_cases4)
    obtain t q eq s3 where g2: "gettoken buf s2 = (t, q, eq, s3)" by (rule prod_cases4)
    have s2: "s < s2" "s2 \<le> length buf" using gettoken_after_peek [OF _ Suc.prems(1) g1, of "[60, 62]"] True p by auto
    note k2 = gettoken_ok [OF g2 s2(2)]
    show ?thesis
    proof (cases "t = 97")
      case False
      then show ?thesis using p True g1 g2 by simp
    next
      case t: True
      have lt: "length buf - s3 < n" "s \<le> s3" using k2(1,2) s2 Suc.prems(2) by linarith+
      have "parsed (redirs_ok buf) buf s (parseredirs n buf rs' s3)" if "redirs_ok buf rs'" for rs'
        by (rule parsed_le [OF Suc.IH [OF k2(2) lt(1) that] lt(2)])
      moreover have "redirs_ok buf (rs @ [(q, eq, m, fd)])" if "fd = 0 \<or> fd = 1" for m fd using that Suc.prems(3) k2(4) [OF t] by (auto simp: redirs_ok_def)
      ultimately show ?thesis using p True g1 g2 t Suc.prems(3) by simp
    qed
  qed
qed simp

lemma parseargs_ok:
  "s \<le> length buf \<Longrightarrow> length buf - s < n \<Longrightarrow> redirs_ok buf rs \<Longrightarrow> cmd_ok buf (EXEC argv) \<Longrightarrow>
   parsed (cmd_ok buf) buf s (parseargs n buf (EXEC argv) rs s)"
proof (induction n arbitrary: argv rs s)
  case (Suc n)
  obtain b s1 where p: "peek buf s [124, 41, 38, 59] = (b, s1)" by (rule prod.exhaust)
  note pk = peek_ok [OF p Suc.prems(1)]
  obtain tok q eq s2 where g: "gettoken buf s1 = (tok, q, eq, s2)" by (rule prod_cases4)
  note k = gettoken_ok [OF g pk(2)]
  show ?case
  proof (cases "b \<or> tok = 0 \<or> tok \<noteq> 97 \<or> MAXARGS \<le> Suc (length argv)")
    case True
    then show ?thesis using p pk g k wrap_ok [OF Suc.prems(4,3)] by auto
  next
    case False
    then have s2: "s < s2" and sp: "word_span buf (q, eq)" using k pk(1) by auto
    have lt: "length buf - s2 < n" using s2 k(2) Suc.prems(2) by linarith
    have c: "cmd_ok buf (EXEC (argv @ [(q, eq)]))" using Suc.prems(4) sp False by (auto simp: cmd_ok_def)
    have "parsed (cmd_ok buf) buf s2 (bindr (parseredirs n buf rs s2) (\<lambda>(rs, s). parseargs n buf (EXEC (argv @ [(q, eq)])) rs s))"
    proof (rule parsed_bind)
      show "parsed (redirs_ok buf) buf s2 (parseredirs n buf rs s2)" by (rule parseredirs_ok [OF k(2) lt Suc.prems(3)])
      show "parsed (cmd_ok buf) buf s' (case (rs', s') of (rs, s) \<Rightarrow> parseargs n buf (EXEC (argv @ [(q, eq)])) rs s)"
        if "s2 \<le> s'" "s' \<le> length buf" "redirs_ok buf rs'" for rs' s'
        using Suc.IH [OF that(2) _ that(3) c] that(1) lt by simp
    qed
    from parsed_le [OF this less_imp_le [OF s2]] show ?thesis using p g False by (simp add: Let_def)
  qed
qed simp

lemma parsebacks_ok:
  "s \<le> length buf \<Longrightarrow> length buf - s < n \<Longrightarrow> cmd_ok buf c \<Longrightarrow> parsed (cmd_ok buf) buf s (parsebacks n buf c s)"
proof (induction n arbitrary: c s)
  case (Suc n)
  obtain b s1 where p: "peek buf s [38] = (b, s1)" by (rule prod.exhaust)
  note pk = peek_ok [OF p Suc.prems(1)]
  obtain tok q eq s2 where g: "gettoken buf s1 = (tok, q, eq, s2)" by (rule prod_cases4)
  show ?case
  proof (cases b)
    case False
    then show ?thesis using p pk Suc.prems by simp
  next
    case True
    have s2: "s < s2" "s2 \<le> length buf" using gettoken_after_peek [OF _ Suc.prems(1) g, of "[38]"] True p by auto
    have "cmd_ok buf (backcmd c)" using Suc.prems(3) by (simp add: cmd_ok_def backcmd_def)
    then have "parsed (cmd_ok buf) buf s2 (parsebacks n buf (backcmd c) s2)" using Suc.IH [OF s2(2)] s2 Suc.prems(2) by simp
    from parsed_le [OF this less_imp_le [OF s2(1)]] show ?thesis using p True g by simp
  qed
qed simp

text \<open>
  Four units of fuel for every byte that is left, and one for each of the
  functions that can be entered without consuming a byte.
\<close>

lemma parsed_peek:
  assumes "s \<le> length buf" "\<And>s1. s \<le> s1 \<Longrightarrow> s1 \<le> length buf \<Longrightarrow> parsed Q buf s1 (G s1)"
    "\<And>s2. s < s2 \<Longrightarrow> s2 \<le> length buf \<Longrightarrow> parsed Q buf s2 (F s2)"
  shows "parsed Q buf s (case peek buf s toks of (again, s) \<Rightarrow>
    if again then (case gettoken buf s of (_, _, _, s) \<Rightarrow> F s) else G s)"
proof -
  obtain b s1 where p: "peek buf s toks = (b, s1)" by (rule prod.exhaust)
  obtain tok q eq s2 where g: "gettoken buf s1 = (tok, q, eq, s2)" by (rule prod_cases4)
  note pk = peek_ok [OF p assms(1)]
  show ?thesis
  proof (cases b)
    case False
    then show ?thesis using p parsed_le [OF assms(2) [OF pk(1,2)] pk(1)] by simp
  next
    case True
    then have s2: "s < s2" "s2 \<le> length buf" using gettoken_after_peek [OF _ assms(1) g] p by auto
    show ?thesis using p g True parsed_le [OF assms(3) [OF s2] less_imp_le [OF s2(1)]] by simp
  qed
qed

lemma parseline_step:
  assumes "\<And>s. s \<le> length buf \<Longrightarrow> 4 * (length buf - s) + 3 \<le> n \<Longrightarrow> parsed (cmd_ok buf) buf s (parsepipe n buf s)"
    "\<And>s. s \<le> length buf \<Longrightarrow> 4 * (length buf - s) + 4 \<le> n \<Longrightarrow> parsed (cmd_ok buf) buf s (parseline n buf s)"
    "s \<le> length buf" "4 * (length buf - s) + 4 \<le> Suc n"
  shows "parsed (cmd_ok buf) buf s (parseline (Suc n) buf s)"
  unfolding parseline.simps [of "Suc n"] nat.case
proof (rule parsed_bind)
  show "parsed (cmd_ok buf) buf s (parsepipe n buf s)" using assms(1) [OF assms(3)] assms(4) by simp
  fix c s1 assume s1: "s \<le> s1" "s1 \<le> length buf" "cmd_ok buf c"
  let ?f = "\<lambda>(c, s). case peek buf s [59] of (again, s) \<Rightarrow> if again then (case gettoken buf s of (_, _, _, s) \<Rightarrow>
      bindr (parseline n buf s) (\<lambda>(d, s). Ok (listcmd c d, s))) else Ok (c, s)"
  have "parsed (cmd_ok buf) buf s1 (bindr (parsebacks n buf c s1) ?f)"
  proof (rule parsed_bind)
    show "parsed (cmd_ok buf) buf s1 (parsebacks n buf c s1)" using s1 assms(4) by (intro parsebacks_ok) auto
    fix c' s2 assume s2: "s1 \<le> s2" "s2 \<le> length buf" "cmd_ok buf c'"
    have "parsed (cmd_ok buf) buf s3 (bindr (parseline n buf s3) (\<lambda>(d, s). Ok (listcmd c' d, s)))"
      if "s2 < s3" "s3 \<le> length buf" for s3
    proof (rule parsed_bind)
      show "parsed (cmd_ok buf) buf s3 (parseline n buf s3)" using assms(2) [OF that(2)] assms(4) s1 s2 that by linarith
    qed (use s2 in \<open>auto simp: cmd_ok_def listcmd_def\<close>)
    then show "parsed (cmd_ok buf) buf s2 (?f (c', s2))" unfolding prod.case using s2 by (intro parsed_peek) auto
  qed
  then show "parsed (cmd_ok buf) buf s1 (case (c, s1) of (c, s) \<Rightarrow> bindr (parsebacks n buf c s) ?f)" by simp
qed

lemma parsepipe_step:
  assumes "\<And>s. s \<le> length buf \<Longrightarrow> 4 * (length buf - s) + 2 \<le> n \<Longrightarrow> parsed (cmd_ok buf) buf s (parseexec n buf s)"
    "\<And>s. s \<le> length buf \<Longrightarrow> 4 * (length buf - s) + 3 \<le> n \<Longrightarrow> parsed (cmd_ok buf) buf s (parsepipe n buf s)"
    "s \<le> length buf" "4 * (length buf - s) + 3 \<le> Suc n"
  shows "parsed (cmd_ok buf) buf s (parsepipe (Suc n) buf s)"
  unfolding parsepipe.simps [of "Suc n"] nat.case
proof (rule parsed_bind)
  show "parsed (cmd_ok buf) buf s (parseexec n buf s)" using assms(1) [OF assms(3)] assms(4) by simp
  fix c s2 assume s2: "s \<le> s2" "s2 \<le> length buf" "cmd_ok buf c"
  have "parsed (cmd_ok buf) buf s3 (bindr (parsepipe n buf s3) (\<lambda>(d, s). Ok (pipecmd c d, s)))"
    if "s2 < s3" "s3 \<le> length buf" for s3
  proof (rule parsed_bind)
    show "parsed (cmd_ok buf) buf s3 (parsepipe n buf s3)" using assms(2) [OF that(2)] assms(4) s2 that by linarith
  qed (use s2 in \<open>auto simp: cmd_ok_def pipecmd_def\<close>)
  then show "parsed (cmd_ok buf) buf s2 (case (c, s2) of (c, s) \<Rightarrow> case peek buf s [124] of (again, s) \<Rightarrow>
      if again then (case gettoken buf s of (_, _, _, s) \<Rightarrow> bindr (parsepipe n buf s) (\<lambda>(d, s). Ok (pipecmd c d, s))) else Ok (c, s))"
    unfolding prod.case using s2 by (intro parsed_peek) auto
qed

lemma parseexec_step:
  assumes "\<And>s. s \<le> length buf \<Longrightarrow> 4 * (length buf - s) + 1 \<le> n \<Longrightarrow> parsed (cmd_ok buf) buf s (parseblock n buf s)"
    "s \<le> length buf" "4 * (length buf - s) + 2 \<le> Suc n"
  shows "parsed (cmd_ok buf) buf s (parseexec (Suc n) buf s)"
proof -
  obtain b s1 where p: "peek buf s [40] = (b, s1)" by (rule prod.exhaust)
  note pk = peek_ok [OF p assms(2)]
  have "parsed (cmd_ok buf) buf s1 (parseblock n buf s1)" using assms(1) [OF pk(2)] pk assms(3) by linarith
  moreover have "parsed (cmd_ok buf) buf s1 (bindr (parseredirs n buf [] s1) (\<lambda>(rs, s). parseargs n buf execcmd rs s))"
  proof (rule parsed_bind)
    show "parsed (redirs_ok buf) buf s1 (parseredirs n buf [] s1)"
      using pk assms(3) by (intro parseredirs_ok) (auto simp: redirs_ok_def)
    show "parsed (cmd_ok buf) buf s' (case (rs, s') of (rs, s) \<Rightarrow> parseargs n buf execcmd rs s)"
      if "s1 \<le> s'" "s' \<le> length buf" "redirs_ok buf rs" for rs s'
      using that pk assms(3) unfolding prod.case execcmd_def by (intro parseargs_ok) (auto simp: cmd_ok_def)
  qed
  ultimately show ?thesis unfolding parseexec.simps [of "Suc n"] nat.case using p pk(1) by (auto intro: parsed_le)
qed

lemma parseblock_step:
  assumes "\<And>s. s \<le> length buf \<Longrightarrow> 4 * (length buf - s) + 4 \<le> n \<Longrightarrow> parsed (cmd_ok buf) buf s (parseline n buf s)"
    "s \<le> length buf" "4 * (length buf - s) + 1 \<le> Suc n"
  shows "parsed (cmd_ok buf) buf s (parseblock (Suc n) buf s)"
proof -
  let ?g = "\<lambda>c s. case gettoken buf s of (_, _, _, s) \<Rightarrow> bindr (parseredirs n buf [] s) (\<lambda>(rs, s). Ok (wrap c rs, s))"
  let ?f = "\<lambda>s. bindr (parseline n buf s) (\<lambda>(c, s). case peek buf s [41] of (cl, s) \<Rightarrow>
    if cl then ?g c s else Err (Panic ''syntax - missing )''))"
  have "parsed (cmd_ok buf) buf s2 (?f s2)" if s2: "s < s2" "s2 \<le> length buf" for s2
  proof (rule parsed_bind)
    show "parsed (cmd_ok buf) buf s2 (parseline n buf s2)" using assms(1) [OF s2(2)] s2 assms(3) by linarith
    fix c s3 assume s3: "s2 \<le> s3" "s3 \<le> length buf" "cmd_ok buf c"
    have "parsed (cmd_ok buf) buf s4 (bindr (parseredirs n buf [] s4) (\<lambda>(rs, s). Ok (wrap c rs, s)))"
      if "s3 < s4" "s4 \<le> length buf" for s4
    proof (rule parsed_bind)
      show "parsed (redirs_ok buf) buf s4 (parseredirs n buf [] s4)"
        using s2 s3 that assms(3) by (intro parseredirs_ok) (auto simp: redirs_ok_def)
    qed (use s3 wrap_ok in auto)
    then show "parsed (cmd_ok buf) buf s3 (case (c, s3) of (c, s) \<Rightarrow> case peek buf s [41] of (cl, s) \<Rightarrow>
        if cl then ?g c s else Err (Panic ''syntax - missing )''))"
      unfolding prod.case using s3 by (intro parsed_peek) auto
  qed
  then have "parsed (cmd_ok buf) buf s (case peek buf s [40] of (op, s) \<Rightarrow>
      if op then (case gettoken buf s of (_, _, _, s) \<Rightarrow> ?f s) else Err (Panic ''parseblock''))"
    using assms(2) by (intro parsed_peek) auto
  moreover have neg: "(if \<not> b then x else y) = (if b then y else x)" for b and x y :: 'r by simp
  ultimately show ?thesis unfolding parseblock.simps [of "Suc n"] nat.case neg by simp
qed

lemma parse_ok:
  "(\<forall>s \<le> length buf. 4 * (length buf - s) + 4 \<le> n \<longrightarrow> parsed (cmd_ok buf) buf s (parseline n buf s))
   \<and> (\<forall>s \<le> length buf. 4 * (length buf - s) + 3 \<le> n \<longrightarrow> parsed (cmd_ok buf) buf s (parsepipe n buf s))
   \<and> (\<forall>s \<le> length buf. 4 * (length buf - s) + 2 \<le> n \<longrightarrow> parsed (cmd_ok buf) buf s (parseexec n buf s))
   \<and> (\<forall>s \<le> length buf. 4 * (length buf - s) + 1 \<le> n \<longrightarrow> parsed (cmd_ok buf) buf s (parseblock n buf s))"
proof (induction n)
  case (Suc n)
  then show ?case
    by (intro conjI allI impI parseline_step parsepipe_step parseexec_step parseblock_step) blast+
qed simp

section \<open>Terminated words\<close>

text \<open>The C string at a position.\<close>

definition str_at :: "byte list \<Rightarrow> nat \<Rightarrow> byte list" where
  "str_at buf q = takeWhile (\<lambda>c. c \<noteq> 0) (drop q buf)"

lemma nul_args:
  "length (foldl (\<lambda>buf (q, eq). buf[eq := 0]) buf argv) = length buf
   \<and> (\<forall>i < length buf. foldl (\<lambda>buf (q, eq). buf[eq := 0]) buf argv ! i = (if i \<in> snd ` set argv then 0 else buf ! i))"
proof (induction argv arbitrary: buf)
  case (Cons w argv)
  obtain q e where w: "w = (q, e)" by (rule prod.exhaust)
  show ?case using Cons.IH [of "buf[e := 0]"] by (auto simp: w nth_list_update)
qed simp

lemma nulterminate_nth:
  "length (nulterminate c buf) = length buf
   \<and> (\<forall>i < length buf. nulterminate c buf ! i = (if i \<in> snd ` spans c then 0 else buf ! i))"
proof (induction c arbitrary: buf)
  case (EXEC argv)
  show ?case using nul_args [of buf argv] by simp
next
  case (REDIR c q e m fd)
  note b = REDIR.IH [of buf]
  have "(nulterminate c buf)[e := 0] ! i = (if i = e \<or> i \<in> snd ` spans c then 0 else buf ! i)" if "i < length buf" for i
    using b that by (cases "e < length buf") (auto simp: nth_list_update list_update_beyond)
  then show ?case using b by simp
next
  case (PIPE c d)
  show ?case using PIPE.IH(1) [of buf] PIPE.IH(2) [of "nulterminate c buf"] by (simp add: image_Un)
next
  case (LIST c d)
  show ?case using LIST.IH(1) [of buf] LIST.IH(2) [of "nulterminate c buf"] by (simp add: image_Un)
qed simp

lemma str_at_eqI:
  assumes "length w = k" "q + k \<le> length b" "\<And>i. i < k \<Longrightarrow> b ! (q + i) = w ! i \<and> w ! i \<noteq> 0"
    "q + k < length b \<Longrightarrow> b ! (q + k) = 0"
  shows "str_at b q = w"
proof -
  have d: "drop q b = w @ drop (q + k) b"
    using assms(1,2,3) by (intro nth_equalityI) (auto simp: nth_append)
  have "takeWhile (\<lambda>c. c \<noteq> 0) (drop (q + k) b) = []"
    using assms(4) by (cases "q + k < length b") (simp_all add: Cons_nth_drop_Suc [symmetric])
  moreover have "\<forall>x \<in> set w. x \<noteq> 0" using assms(1,3) by (auto simp: in_set_conv_nth)
  ultimately show ?thesis unfolding str_at_def d by (simp add: takeWhile_append2)
qed

lemma nulterminate_word:
  assumes "cmd_ok buf c" "(q, e) \<in> spans c" "0 \<notin> set buf"
  shows "str_at (nulterminate c buf) q = take (e - q) (drop q buf)"
proof -
  have w: "word_span buf v" if "v \<in> spans c" for v using assms(1) that by (simp add: cmd_ok_def)
  have qe: "q < e" "e \<le> length buf" using w [OF assms(2)] by (simp_all add: word_span_def)
  have inside: "q + i \<notin> snd ` spans c" if "i < e - q" for i
  proof
    assume "q + i \<in> snd ` spans c"
    then obtain a where "(a, q + i) \<in> spans c" by auto
    from w [OF this] have "special (at buf (q + i))" using that qe by (simp add: word_span_def)
    then show False using w [OF assms(2)] that by (simp add: word_span_def)
  qed
  note nt = nulterminate_nth [of c buf]
  show ?thesis
  proof (rule str_at_eqI [where k = "e - q"])
    show "length (take (e - q) (drop q buf)) = e - q" "q + (e - q) \<le> length (nulterminate c buf)" using qe nt by auto
    show "nulterminate c buf ! (q + i) = take (e - q) (drop q buf) ! i \<and> take (e - q) (drop q buf) ! i \<noteq> 0" if "i < e - q" for i
    proof -
      have "buf ! (q + i) \<in> set buf" using qe that by simp
      then have "buf ! (q + i) \<noteq> 0" using assms(3) by metis
      then show ?thesis using nt inside [OF that] that qe by simp
    qed
    have "e \<in> snd ` spans c" using assms(2) by force
    then show "nulterminate c buf ! (q + (e - q)) = 0" if "q + (e - q) < length (nulterminate c buf)"
      using nt qe that by simp
  qed
qed

lemma parsecmd_cases:
  assumes "4 * length buf + 4 \<le> n"
  obtains out m where "parsecmd n buf = (out, Err (Panic m))"
  | c where "parsecmd n buf = ([], Ok (c, nulterminate c buf))" "cmd_ok buf c"
proof (cases "parseline n buf 0")
  have p: "parsed (cmd_ok buf) buf 0 (parseline n buf 0)" using parse_ok assms by auto
  {
    case (Ok x)
    obtain c s where x: "x = (c, s)" by (rule prod.exhaust)
    have "cmd_ok buf c" using p Ok x by simp
    moreover obtain b s' where "peek buf s [] = (b, s')" by (rule prod.exhaust)
    ultimately show ?thesis using that Ok x by (cases "s' = length buf") (simp_all add: parsecmd_def)
  next
    case (Err e)
    then show ?thesis using that p by (auto simp: parsed_def parsecmd_def)
  }
qed

text \<open>
  C15. With four units of fuel for every byte of the line, the parser of the
  shell always ends, with a tree or with a message of \<open>panic\<close>. In the tree every
  argument and every file name is a nonempty stretch of the line without
  separators, no command has more arguments than its arrays hold, and once the
  line has been cut in place the C string at each of these positions is exactly that word.
\<close>

theorem parsecmd_total:
  assumes "0 \<notin> set buf" "4 * length buf + 4 \<le> n"
  shows "(\<exists>out m. parsecmd n buf = (out, Err (Panic m)))
    \<or> (\<exists>c buf'. parsecmd n buf = ([], Ok (c, buf')) \<and> few_args c \<and> length buf' = length buf
         \<and> (\<forall>(q, e) \<in> spans c. q < e \<and> e \<le> length buf \<and> (\<forall>i. q \<le> i \<and> i < e \<longrightarrow> \<not> special (buf ! i))
              \<and> str_at buf' q = take (e - q) (drop q buf)))"
  using assms(2)
proof (cases rule: parsecmd_cases)
  case (2 c)
  have "\<forall>(q, e) \<in> spans c. q < e \<and> e \<le> length buf \<and> (\<forall>i. q \<le> i \<and> i < e \<longrightarrow> \<not> special (buf ! i))
      \<and> str_at (nulterminate c buf) q = take (e - q) (drop q buf)"
    using 2(2) nulterminate_word [OF 2(2) _ assms(1)] by (fastforce simp: cmd_ok_def word_span_def at_def)
  then show ?thesis using 2 nulterminate_nth [of c buf] by (simp add: cmd_ok_def)
qed simp

theorem parsecmd_total_witness:
  "parsecmd 24 [108, 115, 124, 119, 99] = ([], Ok (PIPE (EXEC [(0, 2)]) (EXEC [(3, 5)]), [108, 115, 0, 119, 99]))
   \<and> str_at [108, 115, 0, 119, 99] 3 = [119, 99]"
proof -
  have e: "parsecmd 24 [108, 115, 124, 119, 99] = ([], Ok (PIPE (EXEC [(0, 2)]) (EXEC [(3, 5)]), [108, 115, 0, 119, 99]))"
    by code_simp
  show ?thesis using parsecmd_total [of "[108, 115, 124, 119, 99]" 24] by (simp add: e)
qed

end
