(* ===== verification/Sh_Run.thy ===== *)
theory Sh_Run
  imports Sh
begin

text \<open>
  The commands of the shell at work (src/xv6/sh.c: \<open>runcmd\<close>, \<open>fork1\<close>, \<open>panic\<close>,
  \<open>getcmd\<close> and \<open>main\<close>).  A process is a program that stops at every system call
  and goes on with its results, so that the same definition gives the parent
  and the child of a \<open>fork\<close>.  Two readings of such a program follow: the
  processes it starts with the descriptors they have, and the dialogue of the
  shell with its input.
\<close>

section \<open>Programs\<close>

datatype call =
    CFork
  | CWait
  | CExec "byte list" "byte list list"
  | COpen "byte list" int
  | CClose int
  | CDup int
  | CPipe
  | CRead int
  | CWrite int byte
  | CChdir "byte list"

text \<open>
  The results are the value of the call and up to two values stored through
  pointers: the descriptors of \<open>pipe\<close>, the status of \<open>wait\<close>, the byte of \<open>read\<close>.
\<close>

datatype prog =
    Exits int
  | OutOfFuel
  | Sys call "int \<times> int \<times> int \<Rightarrow> prog"

text \<open>\<open>printf\<close> writes byte by byte and ignores the results.\<close>

primrec print :: "int \<Rightarrow> byte list \<Rightarrow> prog \<Rightarrow> prog" where
  "print fd [] k = k"
| "print fd (b # bs) k = Sys (CWrite fd b) (\<lambda>_. print fd bs k)"

definition panic :: "string \<Rightarrow> prog" where
  "panic m = print 2 (bytes m @ [10]) (Exits 0)"

definition fork1 :: "(int \<Rightarrow> prog) \<Rightarrow> prog" where
  "fork1 k = Sys CFork (\<lambda>(pid, _, _). if pid = - 1 then panic ''fork'' else k pid)"

text \<open>\<open>buf\<close> is the line after \<open>nulterminate\<close>; the words are the C strings in it.\<close>

primrec runcmd :: "cmd \<Rightarrow> byte list \<Rightarrow> prog" where
  "runcmd (EXEC argv) buf =
     (case argv of
        [] \<Rightarrow> Exits 0
      | (q, _) # _ \<Rightarrow>
          Sys (CExec (str_at buf q) (map (\<lambda>(q, _). str_at buf q) argv)) (\<lambda>_.
          print 2 (bytes ''exec '' @ str_at buf q @ bytes '' failed'' @ [10]) (Exits 0)))"
| "runcmd (REDIR c q eq mode fd) buf =
     Sys (CClose fd) (\<lambda>_.
     Sys (COpen (str_at buf q) mode) (\<lambda>(r, _, _).
       if r < 0 then print 2 (bytes ''open '' @ str_at buf q @ bytes '' failed'' @ [10]) (Exits 0)
       else runcmd c buf))"
| "runcmd (LIST l r) buf =
     fork1 (\<lambda>pid. if pid = 0 then runcmd l buf else Sys CWait (\<lambda>_. runcmd r buf))"
| "runcmd (PIPE l r) buf =
     Sys CPipe (\<lambda>(ok, p0, p1).
       if ok < 0 then panic ''pipe''
       else
         fork1 (\<lambda>pid.
           if pid = 0 then
             Sys (CClose 1) (\<lambda>_. Sys (CDup p1) (\<lambda>_. Sys (CClose p0) (\<lambda>_. Sys (CClose p1) (\<lambda>_. runcmd l buf))))
           else
             fork1 (\<lambda>pid.
               if pid = 0 then
                 Sys (CClose 0) (\<lambda>_. Sys (CDup p0) (\<lambda>_. Sys (CClose p0) (\<lambda>_. Sys (CClose p1) (\<lambda>_. runcmd r buf))))
               else
                 Sys (CClose p0) (\<lambda>_. Sys (CClose p1) (\<lambda>_. Sys CWait (\<lambda>_. Sys CWait (\<lambda>_. Exits 0)))))))"
| "runcmd (BACK c) buf = fork1 (\<lambda>pid. if pid = 0 then runcmd c buf else Exits 0)"

section \<open>The command loop\<close>

text \<open>
  \<open>gets\<close> reads at most \<open>n\<close> bytes, up to and with the end of the line.  As \<open>getcmd\<close>
  has cleared the buffer, its contents are the bytes read up to the first NUL.
\<close>

primrec gets_line :: "nat \<Rightarrow> byte list \<Rightarrow> (byte list \<Rightarrow> prog) \<Rightarrow> prog" where
  "gets_line 0 acc k = k acc"
| "gets_line (Suc n) acc k =
     Sys (CRead 0) (\<lambda>(cc, c, _).
       if cc < 1 then k acc
       else let acc = acc @ [of_int c] in
         if of_int c = (10 :: byte) \<or> of_int c = (13 :: byte) then k acc else gets_line n acc k)"

definition getcmd :: "nat \<Rightarrow> (byte list option \<Rightarrow> prog) \<Rightarrow> prog" where
  "getcmd nbuf k =
     print 2 (bytes ''$ '')
       (gets_line (nbuf - 1) [] (\<lambda>bs.
          let buf = takeWhile (\<lambda>c. c \<noteq> 0) bs in k (if buf = [] then None else Some buf)))"

text \<open>The macros of src/xv6/user.h that read the status of a child.\<close>

definition WIFEXITED :: "32 word \<Rightarrow> bool" where
  "WIFEXITED status \<longleftrightarrow> and status 0x7f = 0"

definition WEXITSTATUS :: "32 word \<Rightarrow> 32 word" where
  "WEXITSTATUS status = signed_drop_bit 8 (and status 0xff00)"

definition WIFSIGNALED :: "32 word \<Rightarrow> bool" where
  "WIFSIGNALED status \<longleftrightarrow> and status 0x7f \<noteq> 0"

definition WEXITTRAP :: "32 word \<Rightarrow> 32 word" where
  "WEXITTRAP status = and status 0x7f - 1"

definition output_code :: "32 word \<Rightarrow> byte list" where
  "output_code code = bytes ''Output code  : '' @ the (printint code 10 True) @ [10, 32]"

definition report :: "32 word \<Rightarrow> prog \<Rightarrow> prog" where
  "report status k =
     (if WIFEXITED status then print 1 (output_code (WEXITSTATUS status)) k
      else if WIFSIGNALED status then print 1 (output_code (WEXITTRAP status)) k
      else k)"

text \<open>The child of the loop; the buffer has 100 bytes, so 404 units of fuel are enough for a line.\<close>

definition run_line :: "byte list \<Rightarrow> prog" where
  "run_line buf =
     (case parsecmd 404 buf of (out, r) \<Rightarrow>
        print 2 out (case r of Ok (c, buf) \<Rightarrow> runcmd c buf | Err (Panic m) \<Rightarrow> panic m | Err _ \<Rightarrow> OutOfFuel))"

fun main_loop :: "nat \<Rightarrow> prog" where
  "main_loop 0 = OutOfFuel"
| "main_loop (Suc n) =
     getcmd 100 (\<lambda>line.
       case line of
         None \<Rightarrow> Exits 0
       | Some buf \<Rightarrow>
           if take 3 buf = [99, 100, 32] then
             let dir = drop 3 (butlast buf) in
             Sys (CChdir dir) (\<lambda>(r, _, _).
               if r < 0 then print 2 (bytes ''cannot cd '' @ dir @ [10]) (main_loop n) else main_loop n)
           else
             fork1 (\<lambda>pid.
               if pid = 0 then run_line buf
               else Sys CWait (\<lambda>(_, status, _). report (of_int status) (main_loop n))))"

fun open_console :: "nat \<Rightarrow> prog \<Rightarrow> prog" where
  "open_console 0 k = OutOfFuel"
| "open_console (Suc n) k =
     Sys (COpen (bytes ''console'') O_RDWR) (\<lambda>(fd, _, _).
       if fd \<ge> 0 then (if fd \<ge> 3 then Sys (CClose fd) (\<lambda>_. k) else open_console n k) else k)"

text \<open>Each turn of the first loop opens one more of the descriptors 0, 1, 2 and 3.\<close>

definition sh_main :: "nat \<Rightarrow> prog" where
  "sh_main n = open_console 4 (main_loop n)"

section \<open>The processes of a command\<close>

text \<open>
  The descriptors of a process name objects; a new descriptor is the lowest
  free one of the 16 (\<open>fdalloc\<close> of src/xv6/sysfile.c).
\<close>

datatype obj = Inherited int | Opened "byte list" int | ReadEnd nat | WriteEnd nat

type_synonym fds = "int \<Rightarrow> obj option"

definition lowest :: "fds \<Rightarrow> int option" where
  "lowest t = find (\<lambda>fd. t fd = None) (map int [0..<16])"

definition install :: "obj \<Rightarrow> fds \<Rightarrow> int \<times> fds" where
  "install ob t = (case lowest t of None \<Rightarrow> (- 1, t) | Some fd \<Rightarrow> (fd, t(fd \<mapsto> ob)))"

text \<open>
  The programs that a process and its children execute, each with its arguments
  and its descriptors, in the order of the forks.  \<open>opens\<close> says which files can
  be opened; \<open>n\<close> numbers the pipes.
\<close>

type_synonym start = "byte list \<times> byte list list \<times> fds"

primrec starts :: "prog \<Rightarrow> (byte list \<Rightarrow> int \<Rightarrow> bool) \<Rightarrow> fds \<Rightarrow> nat \<Rightarrow> start list \<times> nat" where
  "starts (Exits st) opens t n = ([], n)"
| "starts OutOfFuel opens t n = ([], n)"
| "starts (Sys c k) opens t n =
     (case c of
        CExec path argv \<Rightarrow> ([(path, argv, t)], n)
      | CFork \<Rightarrow>
          (case starts (k (0, 0, 0)) opens t n of (xs, n) \<Rightarrow>
           case starts (k (1, 0, 0)) opens t n of (ys, n) \<Rightarrow> (xs @ ys, n))
      | COpen path mode \<Rightarrow>
          if opens path mode then (case install (Opened path mode) t of (fd, t) \<Rightarrow> starts (k (fd, 0, 0)) opens t n)
          else starts (k (- 1, 0, 0)) opens t n
      | CClose fd \<Rightarrow> starts (k (0, 0, 0)) opens (t(fd := None)) n
      | CDup fd \<Rightarrow>
          (case t fd of
             None \<Rightarrow> starts (k (- 1, 0, 0)) opens t n
           | Some ob \<Rightarrow> (case install ob t of (fd, t) \<Rightarrow> starts (k (fd, 0, 0)) opens t n))
      | CPipe \<Rightarrow>
          (case install (ReadEnd n) t of (p0, t0) \<Rightarrow>
           case install (WriteEnd n) t0 of (p1, t1) \<Rightarrow>
             if p0 < 0 \<or> p1 < 0 then starts (k (- 1, 0, 0)) opens t n
             else starts (k (0, p0, p1)) opens t1 (n + 1))
      | _ \<Rightarrow> starts (k (0, 0, 0)) opens t n)"

text \<open>
  What a command tree asks for: each simple command runs with the descriptors of
  its place in the tree, where a pipe replaces the output on its left and the
  input on its right, a redirection replaces one descriptor, and nothing else changes.
\<close>

primrec plan :: "cmd \<Rightarrow> byte list \<Rightarrow> (byte list \<Rightarrow> int \<Rightarrow> bool) \<Rightarrow> fds \<Rightarrow> nat \<Rightarrow> start list \<times> nat" where
  "plan (EXEC argv) buf opens t n =
     (case argv of [] \<Rightarrow> ([], n) | w # _ \<Rightarrow> ([(str_at buf (fst w), map (\<lambda>w. str_at buf (fst w)) argv, t)], n))"
| "plan (REDIR c q eq mode fd) buf opens t n =
     (if opens (str_at buf q) mode then plan c buf opens (t(fd \<mapsto> Opened (str_at buf q) mode)) n else ([], n))"
| "plan (PIPE l r) buf opens t n =
     (case plan l buf opens (t(1 \<mapsto> WriteEnd n)) (n + 1) of (xs, m) \<Rightarrow>
      case plan r buf opens (t(0 \<mapsto> ReadEnd n)) m of (ys, m) \<Rightarrow> (xs @ ys, m))"
| "plan (LIST l r) buf opens t n =
     (case plan l buf opens t n of (xs, m) \<Rightarrow> case plan r buf opens t m of (ys, m) \<Rightarrow> (xs @ ys, m))"
| "plan (BACK c) buf opens t n = plan c buf opens t n"

definition std_fds :: "fds \<Rightarrow> bool" where
  "std_fds t \<longleftrightarrow> dom t = {0, 1, 2}"

lemma starts_print [simp]: "starts (print fd bs k) opens t n = starts k opens t n"
  by (induction bs) simp_all

lemma starts_panic [simp]: "starts (panic m) opens t n = ([], n)"
  by (simp add: panic_def)

lemma starts_fork1 [simp]:
  "starts (fork1 k) opens t n =
     (case starts (k 0) opens t n of (xs, n) \<Rightarrow> case starts (k 1) opens t n of (ys, n) \<Rightarrow> (xs @ ys, n))"
  by (simp add: fork1_def)

lemma std_fds_update: "std_fds t \<Longrightarrow> fd \<in> {0, 1, 2} \<Longrightarrow> std_fds (t(fd \<mapsto> ob))"
  by (auto simp: std_fds_def)

lemma numbers16: "map int [0..<16] = [0, 1, 2, 3, 4, 5, 6, 7, 8, 9, 10, 11, 12, 13, 14, 15]"
  by (simp add: upt_rec)

lemma std_fds_some:
  assumes "std_fds t"
  shows "\<exists>ob. t 0 = Some ob" "\<exists>ob. t 1 = Some ob" "\<exists>ob. t 2 = Some ob" "fd \<notin> {0, 1, 2} \<Longrightarrow> t fd = None"
  using assms unfolding std_fds_def by blast+

lemma install_low:
  assumes "std_fds t" "fd = 0 \<or> fd = 1"
  shows "install ob (t(fd := None)) = (fd, t(fd \<mapsto> ob))"
  using std_fds_some [OF assms(1)] assms(2) by (auto simp: install_def lowest_def numbers16)

lemma install_pipe:
  assumes "std_fds t"
  shows "install r t = (3, t(3 \<mapsto> r))" "install w (t(3 \<mapsto> r)) = (4, t(3 \<mapsto> r, 4 \<mapsto> w))"
    "fd = 0 \<or> fd = 1 \<Longrightarrow> install ob (t(3 \<mapsto> r, 4 \<mapsto> w, fd := None)) = (fd, t(3 \<mapsto> r, 4 \<mapsto> w, fd \<mapsto> ob))"
  using std_fds_some [OF assms] by (auto simp: install_def lowest_def numbers16)

lemma close_pipe:
  assumes "std_fds t"
  shows "t(3 := None, 4 := None) = t" "fd = 0 \<or> fd = 1 \<Longrightarrow> t(fd \<mapsto> ob, 3 := None, 4 := None) = t(fd \<mapsto> ob)"
  using std_fds_some(4) [OF assms] by (auto intro!: ext)

lemma runcmd_plan:
  "std_fds t \<Longrightarrow> std_redirs c \<Longrightarrow> starts (runcmd c buf) opens t n = plan c buf opens t n"
proof (induction c arbitrary: t n)
  case (EXEC argv)
  show ?case by (auto simp: split_def split: list.split)
next
  case (REDIR c q eq mode fd)
  then have fd: "fd = 0 \<or> fd = 1" by simp
  have "std_fds (t(fd \<mapsto> Opened (str_at buf q) mode))" using REDIR.prems by (auto intro: std_fds_update)
  then show ?case using REDIR fd by (auto simp: install_low)
next
  case (PIPE l r)
  have u: "std_fds (t(0 \<mapsto> x))" "std_fds (t(1 \<mapsto> x))" for x using PIPE.prems(1) by (auto intro: std_fds_update)
  have "starts (runcmd l buf) opens (t(1 \<mapsto> x)) m = plan l buf opens (t(1 \<mapsto> x)) m" for x m
    by (rule PIPE.IH(1) [OF u(2)]) (use PIPE.prems in simp)
  moreover have "starts (runcmd r buf) opens (t(0 \<mapsto> x)) m = plan r buf opens (t(0 \<mapsto> x)) m" for x m
    by (rule PIPE.IH(2) [OF u(1)]) (use PIPE.prems in simp)
  ultimately show ?case by (simp add: install_pipe [OF PIPE.prems(1)] close_pipe [OF PIPE.prems(1)])
qed (auto split: prod.splits)

text \<open>
  C17. A command line runs exactly the programs of its command tree, with the words
  of the line as arguments, and each of them has the standard descriptors that
  its place in the tree asks for: the ends of the pipes and the redirections are
  in place, and no descriptor of a pipe stays open beside them. A line that
  does not parse runs nothing.
\<close>

theorem run_line_plan:
  assumes "std_fds t" "length buf \<le> 100"
  shows "starts (run_line buf) opens t n =
    (case snd (parsecmd 404 buf) of Ok (c, line) \<Rightarrow> plan c line opens t n | Err _ \<Rightarrow> ([], n))"
proof -
  have "4 * length buf + 4 \<le> 404" using assms(2) by simp
  then show ?thesis
  proof (cases rule: parsecmd_cases)
    case (2 c)
    then show ?thesis using runcmd_plan [OF assms(1)] by (simp add: run_line_def cmd_ok_def)
  qed (simp add: run_line_def)
qed

definition demo_fds :: fds where
  "demo_fds = [0 \<mapsto> Inherited 0, 1 \<mapsto> Inherited 1, 2 \<mapsto> Inherited 2]"

lemma demo_parse:
  "parsecmd 404 [108, 115, 124, 119, 99, 62, 120] =
     ([], Ok (PIPE (EXEC [(0, 2)]) (REDIR (EXEC [(3, 5)]) 6 7 513 1), [108, 115, 0, 119, 99, 0, 120]))"
  by code_simp

theorem run_line_plan_witness:
  "starts (run_line [108, 115, 124, 119, 99, 62, 120]) (\<lambda>_ _. True) demo_fds 0 =
     ([([108, 115], [[108, 115]], demo_fds(1 \<mapsto> WriteEnd 0)),
       ([119, 99], [[119, 99]], demo_fds(0 \<mapsto> ReadEnd 0, 1 \<mapsto> Opened [120] 513))], 1)"
proof -
  have "std_fds demo_fds" by (auto simp: std_fds_def demo_fds_def)
  from run_line_plan [OF this, of "[108, 115, 124, 119, 99, 62, 120]"] show ?thesis
    by (simp add: demo_parse str_at_def)
qed

section \<open>The dialogue of the shell\<close>

text \<open>
  The shell itself, fed with the bytes of its input and the statuses of its
  children, which do not read that input: the bytes it writes to descriptor 1 and
  its exit status.
\<close>

primrec dialogue :: "prog \<Rightarrow> byte list \<Rightarrow> 32 word list \<Rightarrow> byte list \<times> int option" where
  "dialogue (Exits st) inp sts = ([], Some st)"
| "dialogue OutOfFuel inp sts = ([], None)"
| "dialogue (Sys c k) inp sts =
     (case c of
        CRead fd \<Rightarrow>
          (case inp of [] \<Rightarrow> dialogue (k (0, 0, 0)) [] sts | b # bs \<Rightarrow> dialogue (k (1, uint b, 0)) bs sts)
      | CFork \<Rightarrow> dialogue (k (1, 0, 0)) inp sts
      | CWait \<Rightarrow>
          (case sts of
             [] \<Rightarrow> dialogue (k (- 1, 0, 0)) inp []
           | st # sts \<Rightarrow> dialogue (k (1, sint st, 0)) inp sts)
      | COpen path mode \<Rightarrow> dialogue (k (3, 0, 0)) inp sts
      | CWrite fd b \<Rightarrow>
          (case dialogue (k (1, 0, 0)) inp sts of (out, r) \<Rightarrow> (if fd = 1 then b # out else out, r))
      | _ \<Rightarrow> dialogue (k (0, 0, 0)) inp sts)"

definition status_code :: "32 word \<Rightarrow> 32 word" where
  "status_code st = (if and st 0x7f = 0 then WEXITSTATUS st else WEXITTRAP st)"

definition plain_line :: "byte list \<Rightarrow> bool" where
  "plain_line l \<longleftrightarrow> length l \<le> 99 \<and> l \<noteq> [] \<and> last l = 10 \<and> set (butlast l) \<inter> {0, 10, 13} = {} \<and> take 3 l \<noteq> [99, 100, 32]"

lemma dialogue_print:
  "dialogue (print fd bs k) inp sts = (case dialogue k inp sts of (out, r) \<Rightarrow> (if fd = 1 then bs @ out else out, r))"
  by (induction bs) (auto split: prod.splits)

lemma dialogue_gets:
  assumes "length l < n" "set l \<inter> {10, 13} = {}"
  shows "dialogue (gets_line n acc k) (l @ 10 # inp) sts = dialogue (k (acc @ l @ [10])) inp sts"
  using assms
proof (induction l arbitrary: n acc)
  case Nil
  then show ?case by (cases n) (simp_all add: Let_def)
next
  case (Cons b l)
  then show ?case by (cases n) (simp_all add: Let_def)
qed

lemma dialogue_getcmd:
  assumes "plain_line l"
  shows "dialogue (getcmd 100 k) (l @ inp) sts = dialogue (k (Some l)) inp sts"
proof -
  have l: "l = butlast l @ [10]" using assms append_butlast_last_id [of l] by (simp add: plain_line_def)
  have z: "takeWhile (\<lambda>c. c \<noteq> 0) l = l" unfolding takeWhile_eq_all_conv using assms
    by (subst l) (auto simp: plain_line_def)
  have "dialogue (gets_line 99 [] k') ((butlast l @ [10]) @ inp) sts = dialogue (k' (butlast l @ [10])) inp sts" for k'
    using dialogue_gets [of "butlast l" 99 "[]" k' inp sts] assms by (cases l) (simp_all add: plain_line_def)
  then have "dialogue (gets_line 99 [] k') (l @ inp) sts = dialogue (k' l) inp sts" for k' using l by simp
  moreover have "l \<noteq> []" using assms by (simp add: plain_line_def)
  ultimately show ?thesis by (simp add: getcmd_def dialogue_print Let_def z del: takeWhile_eq_all_conv)
qed

lemma dialogue_report:
  "dialogue (report st k) inp sts = (case dialogue k inp sts of (out, r) \<Rightarrow> (output_code (status_code st) @ out, r))"
  by (simp add: report_def dialogue_print status_code_def WIFEXITED_def WIFSIGNALED_def)



end
