(* ===== verification/Spinlock.thy ===== *)
theory Spinlock
  imports Prelude
begin

text \<open>
  Spin locks and the nesting of interrupt disabling (src/xv6/spinlock.c, and
  \<open>mycpu\<close> and \<open>cpuid\<close> of src/xv6/proc.c).  A processor is known by its APIC
  number; \<open>m_if\<close> is the interrupt flag of its register \<open>eflags\<close>.  The loop of
  \<open>acquire\<close> is cut at its atomic \<open>xchg\<close>, so that the steps of several
  processors can be interleaved.
\<close>

section \<open>State\<close>

record cpu =
  c_apicid :: nat
  c_ncli :: int
  c_intena :: bool

record machine =
  m_if :: "nat \<Rightarrow> bool"
  m_cpus :: "cpu list"

text \<open>The holder is the index of its entry in \<open>cpus\<close>; the saved call stack is a list of ten words.\<close>

record spinlock =
  lk_locked :: bool
  lk_cpu :: "nat option"
  lk_pcs :: "nat list"

section \<open>Operations\<close>

fun find_cpu :: "nat \<Rightarrow> cpu list \<Rightarrow> nat \<Rightarrow> nat option" where
  "find_cpu a [] i = None"
| "find_cpu a (c # cs) i = (if c_apicid c = a then Some i else find_cpu a cs (i + 1))"

definition mycpu :: "nat \<Rightarrow> machine \<Rightarrow> nat res" where
  "mycpu a m =
     (if m_if m a then Err (Panic ''mycpu called with interrupts enabled'')
      else case find_cpu a (m_cpus m) 0 of Some i \<Rightarrow> Ok i | None \<Rightarrow> Err (Panic ''unknown apicid''))"

definition cpuid :: "nat \<Rightarrow> machine \<Rightarrow> nat res" where
  "cpuid a m = mycpu a m"

definition initlock :: "spinlock \<Rightarrow> spinlock" where
  "initlock lk = lk\<lparr>lk_locked := False, lk_cpu := None\<rparr>"

definition upd_cpu :: "nat \<Rightarrow> (cpu \<Rightarrow> cpu) \<Rightarrow> machine \<Rightarrow> machine" where
  "upd_cpu i f m = m\<lparr>m_cpus := (m_cpus m)[i := f (m_cpus m ! i)]\<rparr>"

definition pushcli :: "nat \<Rightarrow> machine \<Rightarrow> machine res" where
  "pushcli a m =
     (let eflags = m_if m a; m = m\<lparr>m_if := (m_if m)(a := False)\<rparr> in
      bindr (mycpu a m) (\<lambda>i.
        let m = (if c_ncli (m_cpus m ! i) = 0 then upd_cpu i (\<lambda>c. c\<lparr>c_intena := eflags\<rparr>) m else m) in
        Ok (upd_cpu i (\<lambda>c. c\<lparr>c_ncli := c_ncli c + 1\<rparr>) m)))"

definition popcli :: "nat \<Rightarrow> machine \<Rightarrow> machine res" where
  "popcli a m =
     (if m_if m a then Err (Panic ''popcli - interruptible'')
      else
        bindr (mycpu a m) (\<lambda>i.
          let m = upd_cpu i (\<lambda>c. c\<lparr>c_ncli := c_ncli c - 1\<rparr>) m in
          if c_ncli (m_cpus m ! i) < 0 then Err (Panic ''popcli'')
          else if c_ncli (m_cpus m ! i) = 0 \<and> c_intena (m_cpus m ! i) then Ok (m\<lparr>m_if := (m_if m)(a := True)\<rparr>)
          else Ok m))"

definition holding :: "nat \<Rightarrow> spinlock \<Rightarrow> machine \<Rightarrow> (bool \<times> machine) res" where
  "holding a lk m =
     bindr (pushcli a m) (\<lambda>m.
     bindr (if lk_locked lk then bindr (mycpu a m) (\<lambda>i. Ok (lk_cpu lk = Some i)) else Ok False) (\<lambda>r.
     bindr (popcli a m) (\<lambda>m. Ok (r, m))))"

text \<open>\<open>acquire\<close> up to its loop, one \<open>xchg\<close> that finds the lock free, and what follows the loop.\<close>

definition acquire_enter :: "nat \<Rightarrow> spinlock \<Rightarrow> machine \<Rightarrow> machine res" where
  "acquire_enter a lk m =
     bindr (pushcli a m) (\<lambda>m.
     bindr (holding a lk m) (\<lambda>(r, m). if r then Err (Panic ''acquire'') else Ok m))"

definition acquire_take :: "nat \<Rightarrow> nat list \<Rightarrow> spinlock \<Rightarrow> machine \<Rightarrow> spinlock option res" where
  "acquire_take a pcs lk m =
     (if lk_locked lk then Ok None
      else bindr (mycpu a m) (\<lambda>i. Ok (Some (lk\<lparr>lk_locked := True, lk_cpu := Some i, lk_pcs := pcs\<rparr>))))"

definition release :: "nat \<Rightarrow> spinlock \<Rightarrow> machine \<Rightarrow> (spinlock \<times> machine) res" where
  "release a lk m =
     bindr (holding a lk m) (\<lambda>(r, m).
       if \<not> r then Err (Panic ''release'')
       else
         let lk = lk\<lparr>lk_pcs := (lk_pcs lk)[0 := 0], lk_cpu := None, lk_locked := False\<rparr> in
         bindr (popcli a m) (\<lambda>m. Ok (lk, m)))"

text \<open>The chain of frame pointers, read through \<open>ld\<close>; the unused entries are 0.\<close>

fun getcallerpcs_loop :: "(nat \<Rightarrow> nat) \<Rightarrow> nat \<Rightarrow> nat \<Rightarrow> nat list" where
  "getcallerpcs_loop ld 0 ebp = []"
| "getcallerpcs_loop ld (Suc n) ebp =
     (if ebp = 0 \<or> ebp < 0x80000000 \<or> ebp = 0xffffffff then replicate (Suc n) 0
      else ld ((ebp + 4) mod 2 ^ 32) # getcallerpcs_loop ld n (ld ebp))"

definition getcallerpcs :: "(nat \<Rightarrow> nat) \<Rightarrow> nat \<Rightarrow> nat list" where
  "getcallerpcs ld v = getcallerpcs_loop ld 10 ((v + (2 ^ 32 - 8)) mod 2 ^ 32)"

lemma getcallerpcs_loop_length: "length (getcallerpcs_loop ld n ebp) = n"
  by (induction ld n ebp rule: getcallerpcs_loop.induct) auto

section \<open>Nesting\<close>

text \<open>The processor with index \<open>i\<close> runs with interrupts off.\<close>

definition runs_on :: "nat \<Rightarrow> nat \<Rightarrow> machine \<Rightarrow> bool" where
  "runs_on a i m \<longleftrightarrow> i < length (m_cpus m) \<and> find_cpu a (m_cpus m) 0 = Some i"

lemma find_cpu_update:
  "c_apicid c = c_apicid (cs ! i) \<Longrightarrow> find_cpu a (cs[i := c]) k = find_cpu a cs k"
proof (induction cs arbitrary: i k)
  case (Cons d cs)
  then show ?case by (cases i) auto
qed simp

lemma runs_on_if [simp]: "runs_on a i (m\<lparr>m_if := f\<rparr>) = runs_on a i m"
  by (simp add: runs_on_def)

lemma runs_on_upd:
  "(\<And>c. c_apicid (f c) = c_apicid c) \<Longrightarrow> runs_on a i (upd_cpu j f m) = runs_on a i m"
  by (simp add: runs_on_def upd_cpu_def find_cpu_update)

lemma mycpu_ok: "runs_on a i m \<Longrightarrow> \<not> m_if m a \<Longrightarrow> mycpu a m = Ok i"
  by (simp add: mycpu_def runs_on_def)

definition ncli :: "nat \<Rightarrow> machine \<Rightarrow> int" where
  "ncli i m = c_ncli (m_cpus m ! i)"

definition intena :: "nat \<Rightarrow> machine \<Rightarrow> bool" where
  "intena i m = c_intena (m_cpus m ! i)"

text \<open>Entering one level of nesting.\<close>

definition nested :: "nat \<Rightarrow> nat \<Rightarrow> machine \<Rightarrow> machine" where
  "nested a i m =
     m\<lparr>m_if := (m_if m)(a := False),
       m_cpus := (m_cpus m)[i := (m_cpus m ! i)\<lparr>c_intena := (if ncli i m = 0 then m_if m a else intena i m), c_ncli := ncli i m + 1\<rparr>]\<rparr>"

lemma pushcli_nested:
  assumes "runs_on a i m"
  shows "pushcli a m = Ok (nested a i m)"
proof -
  have "mycpu a (m\<lparr>m_if := (m_if m)(a := False)\<rparr>) = Ok i" using assms by (intro mycpu_ok) simp_all
  then show ?thesis using assms
    by (simp add: pushcli_def nested_def Let_def upd_cpu_def ncli_def intena_def runs_on_def)
qed

lemma runs_on_nested: "runs_on a i (nested b j m) = runs_on a i m"
  by (simp add: runs_on_def nested_def find_cpu_update)

text \<open>Leaving it restores the machine up to the recorded flag.\<close>

lemma popcli_step:
  assumes "runs_on a i m" "\<not> m_if m a" "0 < ncli i m"
  shows "popcli a m = Ok (m\<lparr>m_if := (m_if m)(a := (ncli i m = 1 \<and> intena i m)),
    m_cpus := (m_cpus m)[i := (m_cpus m ! i)\<lparr>c_ncli := ncli i m - 1\<rparr>]\<rparr>)"
proof -
  have "(m_if m)(a := False) = m_if m" using assms(2) by (simp add: fun_upd_idem)
  then show ?thesis using assms mycpu_ok [OF assms(1,2)]
    by (auto simp: popcli_def Let_def upd_cpu_def ncli_def intena_def runs_on_def)
qed

lemma nested_simps [simp]:
  "m_if (nested a i m) = (m_if m)(a := False)"
  "i < length (m_cpus m) \<Longrightarrow> ncli i (nested a i m) = ncli i m + 1"
  "i < length (m_cpus m) \<Longrightarrow> intena i (nested a i m) = (if ncli i m = 0 then m_if m a else intena i m)"
  "i \<noteq> j \<Longrightarrow> ncli j (nested a i m) = ncli j m" "i \<noteq> j \<Longrightarrow> intena j (nested a i m) = intena j m"
  by (simp_all add: nested_def ncli_def intena_def)

text \<open>Inside a critical section \<open>holding\<close> only looks.\<close>

lemma holding_look:
  assumes "runs_on a i m" "\<not> m_if m a" "0 < ncli i m"
  shows "holding a lk m = Ok (lk_locked lk \<and> lk_cpu lk = Some i, m)"
proof -
  have i: "i < length (m_cpus m)" using assms(1) by (simp add: runs_on_def)
  have r: "runs_on a i (nested a i m)" using assms(1) by (simp add: runs_on_nested)
  have "(m_if m)(a := False) = m_if m" using assms(2) by (simp add: fun_upd_idem)
  then have "popcli a (nested a i m) = Ok m"
    using popcli_step [OF r] assms i by (simp add: nested_def ncli_def intena_def)
  then show ?thesis using pushcli_nested [OF assms(1)] mycpu_ok [OF r] by (simp add: holding_def)
qed

lemma acquire_enter_ok:
  assumes "runs_on a i m" "0 \<le> ncli i m" "\<not> (lk_locked lk \<and> lk_cpu lk = Some i)"
  shows "acquire_enter a lk m = Ok (nested a i m)"
proof -
  have "holding a lk (nested a i m) = Ok (False, nested a i m)"
    using assms holding_look [of a i "nested a i m" lk] runs_on_def [of a i m] by (simp add: runs_on_nested)
  then show ?thesis using pushcli_nested [OF assms(1)] by (simp add: acquire_enter_def)
qed

lemma release_ok:
  assumes "runs_on a i m" "\<not> m_if m a" "0 < ncli i m" "lk_locked lk" "lk_cpu lk = Some i"
  shows "release a lk m = Ok (lk\<lparr>lk_pcs := (lk_pcs lk)[0 := 0], lk_cpu := None, lk_locked := False\<rparr>,
    m\<lparr>m_if := (m_if m)(a := (ncli i m = 1 \<and> intena i m)), m_cpus := (m_cpus m)[i := (m_cpus m ! i)\<lparr>c_ncli := ncli i m - 1\<rparr>]\<rparr>)"
  using holding_look [OF assms(1-3)] popcli_step [OF assms(1-3)] assms(4,5) by (simp add: release_def Let_def)

section \<open>Several processors and one lock\<close>

datatype stage = Outside | Spinning | Inside

record contest =
  t_lock :: spinlock
  t_machine :: machine
  t_stage :: "nat \<Rightarrow> stage"

text \<open>The APIC number of the processor with index \<open>i\<close>.\<close>

definition aid :: "nat \<Rightarrow> machine \<Rightarrow> nat" where
  "aid i m = c_apicid (m_cpus m ! i)"

inductive contest_step :: "contest \<Rightarrow> contest \<Rightarrow> bool" where
  enter: "i < length (m_cpus (t_machine s)) \<Longrightarrow> t_stage s i = Outside \<Longrightarrow>
    acquire_enter (aid i (t_machine s)) (t_lock s) (t_machine s) = Ok m \<Longrightarrow>
    contest_step s (s\<lparr>t_machine := m, t_stage := (t_stage s)(i := Spinning)\<rparr>)"
| take: "i < length (m_cpus (t_machine s)) \<Longrightarrow> t_stage s i = Spinning \<Longrightarrow>
    acquire_take (aid i (t_machine s)) pcs (t_lock s) (t_machine s) = Ok (Some lk) \<Longrightarrow>
    contest_step s (s\<lparr>t_lock := lk, t_stage := (t_stage s)(i := Inside)\<rparr>)"
| leave: "i < length (m_cpus (t_machine s)) \<Longrightarrow> t_stage s i = Inside \<Longrightarrow>
    release (aid i (t_machine s)) (t_lock s) (t_machine s) = Ok (lk, m) \<Longrightarrow>
    contest_step s (s\<lparr>t_lock := lk, t_machine := m, t_stage := (t_stage s)(i := Outside)\<rparr>)"

inductive contest_reach :: "contest \<Rightarrow> contest \<Rightarrow> bool" for s where
  start: "contest_reach s s"
| step: "contest_reach s t \<Longrightarrow> contest_step t u \<Longrightarrow> contest_reach s u"

definition contest_init :: "spinlock \<Rightarrow> machine \<Rightarrow> contest" where
  "contest_init lk m = \<lparr>t_lock = initlock lk, t_machine = m, t_stage = (\<lambda>_. Outside)\<rparr>"

text \<open>
  The invariant, relative to the interrupt flags \<open>f\<close> of the start: the lock
  names the processor inside; the others are outside with their flags restored,
  or spin with interrupts off.
\<close>

definition contest_ok :: "(nat \<Rightarrow> bool) \<Rightarrow> contest \<Rightarrow> bool" where
  "contest_ok f s \<longleftrightarrow>
     distinct (map c_apicid (m_cpus (t_machine s)))
     \<and> (\<forall>i < length (m_cpus (t_machine s)).
          (t_stage s i = Outside \<longrightarrow> ncli i (t_machine s) = 0 \<and> m_if (t_machine s) (aid i (t_machine s)) = f (aid i (t_machine s)))
          \<and> (t_stage s i \<noteq> Outside \<longrightarrow> ncli i (t_machine s) = 1 \<and> \<not> m_if (t_machine s) (aid i (t_machine s))
               \<and> intena i (t_machine s) = f (aid i (t_machine s)))
          \<and> (t_stage s i = Inside \<longleftrightarrow> lk_locked (t_lock s) \<and> lk_cpu (t_lock s) = Some i))
     \<and> (lk_locked (t_lock s) \<longrightarrow> (\<exists>i < length (m_cpus (t_machine s)). lk_cpu (t_lock s) = Some i))"

lemma find_cpu_index:
  "i < length cs \<Longrightarrow> distinct (map c_apicid cs) \<Longrightarrow> find_cpu (c_apicid (cs ! i)) cs k = Some (k + i)"
proof (induction cs arbitrary: i k)
  case (Cons c cs)
  then show ?case by (cases i) (auto dest: nth_mem)
qed simp

lemma runs_on_index:
  "i < length (m_cpus m) \<Longrightarrow> distinct (map c_apicid (m_cpus m)) \<Longrightarrow> runs_on (aid i m) i m"
  by (simp add: runs_on_def aid_def find_cpu_index)

text \<open>A change of one processor leaves the others alone.\<close>

definition tweak :: "nat \<Rightarrow> bool \<Rightarrow> bool \<Rightarrow> int \<Rightarrow> machine \<Rightarrow> machine" where
  "tweak i b e n m = m\<lparr>m_if := (m_if m)(aid i m := b), m_cpus := (m_cpus m)[i := (m_cpus m ! i)\<lparr>c_intena := e, c_ncli := n\<rparr>]\<rparr>"

lemma tweak_simps [simp]:
  "length (m_cpus (tweak i b e n m)) = length (m_cpus m)"
  "map c_apicid (m_cpus (tweak i b e n m)) = map c_apicid (m_cpus m)"
  "aid j (tweak i b e n m) = aid j m"
  "i < length (m_cpus m) \<Longrightarrow> ncli j (tweak i b e n m) = (if j = i then n else ncli j m)"
  "i < length (m_cpus m) \<Longrightarrow> intena j (tweak i b e n m) = (if j = i then e else intena j m)"
proof -
  have "c_apicid (m_cpus (tweak i b e n m) ! j) = c_apicid (m_cpus m ! j)" for j
    by (cases "i = j"; cases "i < length (m_cpus m)") (auto simp: tweak_def list_update_beyond)
  then show "aid j (tweak i b e n m) = aid j m" "map c_apicid (m_cpus (tweak i b e n m)) = map c_apicid (m_cpus m)"
    by (auto simp: aid_def tweak_def intro: nth_equalityI)
qed (auto simp: tweak_def ncli_def intena_def)

lemma aid_inj:
  "distinct (map c_apicid (m_cpus m)) \<Longrightarrow> i < length (m_cpus m) \<Longrightarrow> j < length (m_cpus m) \<Longrightarrow> aid i m = aid j m \<longleftrightarrow> i = j"
  using nth_eq_iff_index_eq [of "map c_apicid (m_cpus m)" i j] by (simp add: aid_def)

lemma tweak_if:
  "distinct (map c_apicid (m_cpus m)) \<Longrightarrow> i < length (m_cpus m) \<Longrightarrow> j < length (m_cpus m) \<Longrightarrow>
   m_if (tweak i b e n m) (aid j m) = (if j = i then b else m_if m (aid j m))"
  by (simp add: tweak_def aid_inj)

lemma nested_tweak:
  "nested (aid i m) i m = tweak i False (if ncli i m = 0 then m_if m (aid i m) else intena i m) (ncli i m + 1) m"
  by (simp add: nested_def tweak_def)

lemma release_tweak:
  "m\<lparr>m_if := (m_if m)(aid i m := b), m_cpus := (m_cpus m)[i := (m_cpus m ! i)\<lparr>c_ncli := n\<rparr>]\<rparr> = tweak i b (intena i m) n m"
  by (simp add: tweak_def intena_def)

lemma contest_step_ok: "contest_step s s' \<Longrightarrow> contest_ok f s \<Longrightarrow> contest_ok f s'"
proof (induction rule: contest_step.induct)
  case (enter i s m)
  then have d: "distinct (map c_apicid (m_cpus (t_machine s)))" and n: "ncli i (t_machine s) = 0"
    and l: "\<not> (lk_locked (t_lock s) \<and> lk_cpu (t_lock s) = Some i)" by (auto simp: contest_ok_def)
  have "m = tweak i False (m_if (t_machine s) (aid i (t_machine s))) 1 (t_machine s)"
    using acquire_enter_ok [OF runs_on_index [OF enter(1) d] _ l] enter(3) n nested_tweak [of i "t_machine s"] by simp
  then show ?case using enter(1,2,4) d l by (auto simp: contest_ok_def tweak_if)
next
  case (take i s pcs lk)
  then have d: "distinct (map c_apicid (m_cpus (t_machine s)))" and n: "\<not> m_if (t_machine s) (aid i (t_machine s))"
    by (auto simp: contest_ok_def)
  have "\<not> lk_locked (t_lock s)" "lk = (t_lock s)\<lparr>lk_locked := True, lk_cpu := Some i, lk_pcs := pcs\<rparr>"
    using take(3) mycpu_ok [OF runs_on_index [OF take(1) d] n] by (auto simp: acquire_take_def split: if_splits)
  then show ?case using take(1,2,4) by (auto simp: contest_ok_def)
next
  case (leave i s lk m)
  then have d: "distinct (map c_apicid (m_cpus (t_machine s)))" and n: "\<not> m_if (t_machine s) (aid i (t_machine s))" "ncli i (t_machine s) = 1"
    and l: "lk_locked (t_lock s)" "lk_cpu (t_lock s) = Some i" and e: "intena i (t_machine s) = f (aid i (t_machine s))"
    by (auto simp: contest_ok_def)
  have k: "lk = (t_lock s)\<lparr>lk_pcs := (lk_pcs (t_lock s))[0 := 0], lk_cpu := None, lk_locked := False\<rparr>"
    "m = tweak i (f (aid i (t_machine s))) (f (aid i (t_machine s))) 0 (t_machine s)"
    using release_ok [OF runs_on_index [OF leave(1) d] n(1) _ l] leave(3) n(2) e release_tweak [of "t_machine s" i] by auto
  show ?case using leave(1,2,4) d l unfolding k by (auto simp: contest_ok_def tweak_if)
qed

lemma contest_reach_ok: "contest_reach s t \<Longrightarrow> contest_ok f s \<Longrightarrow> contest_ok f t"
  by (induction rule: contest_reach.induct) (auto intro: contest_step_ok)

lemma contest_init_ok:
  "distinct (map c_apicid (m_cpus m)) \<Longrightarrow> \<forall>c \<in> set (m_cpus m). c_ncli c = 0 \<Longrightarrow> contest_ok (m_if m) (contest_init lk m)"
  by (simp add: contest_ok_def contest_init_def initlock_def ncli_def)

lemma contest_release:
  assumes "contest_ok f s" "i < length (m_cpus (t_machine s))" "t_stage s i = Inside"
  shows "\<exists>lk m. release (aid i (t_machine s)) (t_lock s) (t_machine s) = Ok (lk, m)"
proof -
  have d: "distinct (map c_apicid (m_cpus (t_machine s)))" "\<not> m_if (t_machine s) (aid i (t_machine s))" "0 < ncli i (t_machine s)"
    "lk_locked (t_lock s)" "lk_cpu (t_lock s) = Some i" using assms by (auto simp: contest_ok_def)
  from release_ok [OF runs_on_index [OF assms(2) d(1)] d(2-5)] show ?thesis by blast
qed


definition demo_machine :: machine where
  "demo_machine = \<lparr>m_if = (\<lambda>a. a = 4), m_cpus = [\<lparr>c_apicid = 0, c_ncli = 0, c_intena = False\<rparr>, \<lparr>c_apicid = 4, c_ncli = 0, c_intena = False\<rparr>]\<rparr>"

definition demo_lock :: spinlock where
  "demo_lock = \<lparr>lk_locked = False, lk_cpu = None, lk_pcs = []\<rparr>"

lemma demo_enter: "acquire_enter 4 demo_lock demo_machine = Ok (tweak 1 False True 1 demo_machine)"
proof -
  have "runs_on 4 1 demo_machine" by (simp add: runs_on_def demo_machine_def)
  from acquire_enter_ok [OF this] show ?thesis using nested_tweak [of 1 demo_machine]
    by (simp add: demo_machine_def demo_lock_def aid_def ncli_def)
qed

lemma demo_aid: "aid 1 demo_machine = 4"
  by (simp add: aid_def demo_machine_def)


end
