(* ===== verification/Kalloc.thy ===== *)
theory Kalloc
  imports Bytes CString
begin

text \<open>
  The physical page allocator (src/xv6/kalloc.c), over the constants of
  src/xv6/memlayout.h and src/xv6/mmu.h.  Memory is indexed by the kernel's
  virtual addresses; the kernel reaches every byte of physical memory there.
  The free list is threaded through the free pages themselves.  The locks
  around the list operations have no effect in this sequential model.
\<close>

section \<open>Addresses\<close>

abbreviation PGSIZE :: nat where "PGSIZE \<equiv> 4096"
abbreviation KERNBASE :: nat where "KERNBASE \<equiv> 0x80000000"
abbreviation EXTMEM :: nat where "EXTMEM \<equiv> 0x100000"
abbreviation PHYSTOP :: nat where "PHYSTOP \<equiv> 0xE000000"
abbreviation DEVSPACE :: nat where "DEVSPACE \<equiv> 0xFE000000"
abbreviation KERNLINK :: nat where "KERNLINK \<equiv> KERNBASE + EXTMEM"

definition V2P :: "nat \<Rightarrow> nat" where
  "V2P a = (a + (2 ^ 32 - KERNBASE)) mod 2 ^ 32"

definition P2V :: "nat \<Rightarrow> nat" where
  "P2V a = (a + KERNBASE) mod 2 ^ 32"

definition PGROUNDUP :: "nat \<Rightarrow> nat" where
  "PGROUNDUP sz = (sz + PGSIZE - 1) mod 2 ^ 32 div PGSIZE * PGSIZE"

definition PGROUNDDOWN :: "nat \<Rightarrow> nat" where
  "PGROUNDDOWN a = a div PGSIZE * PGSIZE"

section \<open>Words in memory\<close>

definition ldw :: "mem \<Rightarrow> nat \<Rightarrow> nat" where
  "ldw m a = le_nat [m a, m (a + 1), m (a + 2), m (a + 3)]"

definition stw :: "nat \<Rightarrow> nat \<Rightarrow> mem \<Rightarrow> mem" where
  "stw a v m = m(a := of_nat v, a + 1 := of_nat (v div 256), a + 2 := of_nat (v div 256 div 256), a + 3 := of_nat (v div 256 div 256 div 256))"

lemma stw_out: "x < a \<or> a + 4 \<le> x \<Longrightarrow> stw a v m x = m x"
  by (auto simp: stw_def)

lemma stw_list: "[stw a v m a, stw a v m (a + 1), stw a v m (a + 2), stw a v m (a + 3)] = le_bytes 4 v"
proof -
  have "(4 :: nat) = Suc (Suc (Suc (Suc 0)))" by simp
  then have "le_bytes 4 v = [of_nat v, of_nat (v div 256), of_nat (v div 256 div 256), of_nat (v div 256 div 256 div 256)]"
    by (simp only: le_bytes.simps)
  then show ?thesis by (simp add: stw_def)
qed

lemma ldw_stw: "ldw (stw a v m) a = v mod 2 ^ 32"
  unfolding ldw_def stw_list le_nat_le_bytes by simp

lemma ldw_cong: "\<forall>x. a \<le> x \<and> x < a + 4 \<longrightarrow> m x = m' x \<Longrightarrow> ldw m a = ldw m' a"
  by (simp add: ldw_def)

lemma ldw_stw_other: "b + 4 \<le> a \<or> a + 4 \<le> b \<Longrightarrow> ldw (stw a v m) b = ldw m b"
  by (rule ldw_cong) (auto simp: stw_out)

lemma ldw_lt: "ldw m a < 2 ^ 32"
  using le_nat_lt [of "[m a, m (a + 1), m (a + 2), m (a + 3)]"] by (simp add: ldw_def)

lemma ldw_range_upd_other: "b + 4 \<le> d \<or> d + n \<le> b \<Longrightarrow> ldw (range_upd d n f m) b = ldw m b"
  by (rule ldw_cong) (auto simp: range_upd_def)

lemma ldw_range_upd_0: "d \<le> b \<Longrightarrow> b + 4 \<le> d + n \<Longrightarrow> ldw (range_upd d n (\<lambda>_. 0) m) b = 0"
  by (simp add: ldw_def range_upd_def)

section \<open>Operations\<close>

text \<open>\<open>kend\<close> is the linker's symbol \<open>end\<close>, the first address behind the kernel.\<close>

record kstate =
  kmem :: mem
  freelist :: nat
  use_lock :: bool
  kend :: nat

definition kfree :: "nat \<Rightarrow> 'a kstate_scheme \<Rightarrow> 'a kstate_scheme res" where
  "kfree v s =
     (if v mod PGSIZE \<noteq> 0 \<or> v < kend s \<or> V2P v \<ge> PHYSTOP then Err (Panic ''kfree'')
      else
        let s = s\<lparr>kmem := memset v 1 PGSIZE (kmem s)\<rparr>;
            s = s\<lparr>kmem := stw v (freelist s) (kmem s)\<rparr> in
        Ok (s\<lparr>freelist := v\<rparr>))"

definition kalloc :: "'a kstate_scheme \<Rightarrow> nat \<times> 'a kstate_scheme" where
  "kalloc s =
     (let r = freelist s in
      (r, if r \<noteq> 0 then s\<lparr>freelist := ldw (kmem s) r\<rparr> else s))"

function freerange_loop :: "nat \<Rightarrow> nat \<Rightarrow> 'a kstate_scheme \<Rightarrow> 'a kstate_scheme res" where
  "freerange_loop p vend s =
     (if p + PGSIZE \<le> vend then bindr (kfree p s) (freerange_loop (p + PGSIZE) vend) else Ok s)"
  by pat_completeness auto
termination
  by (relation "measure (\<lambda>(p, vend, s). vend - p)") auto

declare freerange_loop.simps [simp del]

definition freerange :: "nat \<Rightarrow> nat \<Rightarrow> 'a kstate_scheme \<Rightarrow> 'a kstate_scheme res" where
  "freerange vstart vend s = freerange_loop (PGROUNDUP vstart) vend s"

definition kinit1 :: "nat \<Rightarrow> nat \<Rightarrow> 'a kstate_scheme \<Rightarrow> 'a kstate_scheme res" where
  "kinit1 vstart vend s = freerange vstart vend (s\<lparr>use_lock := False\<rparr>)"

definition kinit2 :: "nat \<Rightarrow> nat \<Rightarrow> 'a kstate_scheme \<Rightarrow> 'a kstate_scheme res" where
  "kinit2 vstart vend s = bindr (freerange vstart vend s) (\<lambda>s. Ok (s\<lparr>use_lock := True\<rparr>))"

text \<open>The count follows the list, which the model bounds by fuel.\<close>

fun freemem_loop :: "nat \<Rightarrow> nat \<Rightarrow> int \<Rightarrow> mem \<Rightarrow> int res" where
  "freemem_loop 0 r pages m = Err NoFuel"
| "freemem_loop (Suc fuel) r pages m = (if r \<noteq> 0 then freemem_loop fuel (ldw m r) (pages + 1) m else Ok pages)"

definition freemem :: "nat \<Rightarrow> int \<Rightarrow> 'a kstate_scheme \<Rightarrow> int res" where
  "freemem fuel type s =
     bindr (freemem_loop fuel (freelist s) 0 (kmem s)) (\<lambda>pages.
       if type = 0 then Ok pages else if type = 1 then Ok (int PGSIZE * pages) else Ok (-1))"

section \<open>The free list\<close>

definition page_ok :: "'a kstate_scheme \<Rightarrow> nat \<Rightarrow> bool" where
  "page_ok s v \<longleftrightarrow> v mod PGSIZE = 0 \<and> kend s \<le> v \<and> KERNBASE < v \<and> v < KERNBASE + PHYSTOP"

fun fl_path :: "mem \<Rightarrow> nat \<Rightarrow> nat list \<Rightarrow> bool" where
  "fl_path m p [] \<longleftrightarrow> p = 0"
| "fl_path m p (x # xs) \<longleftrightarrow> p = x \<and> fl_path m (ldw m x) xs"

definition kinv :: "'a kstate_scheme \<Rightarrow> nat list \<Rightarrow> bool" where
  "kinv s xs \<longleftrightarrow> fl_path (kmem s) (freelist s) xs \<and> distinct xs \<and> (\<forall>x \<in> set xs. page_ok s x)"

lemma page_okD: "page_ok s v \<Longrightarrow> v mod PGSIZE = 0 \<and> kend s \<le> v \<and> KERNBASE < v \<and> v < KERNBASE + PHYSTOP \<and> v \<noteq> 0"
  by (auto simp: page_ok_def)

lemma V2P_page: "page_ok s v \<Longrightarrow> V2P v = v - KERNBASE \<and> V2P v < PHYSTOP"
proof -
  assume "page_ok s v"
  then have v: "KERNBASE < v" "v < KERNBASE + PHYSTOP" by (auto simp: page_ok_def)
  have "v + (2 ^ 32 - KERNBASE) = (v - KERNBASE) + 2 ^ 32" using v by simp
  then have "V2P v = (v - KERNBASE) mod 2 ^ 32" by (simp only: V2P_def mod_add_self2)
  also have "\<dots> = v - KERNBASE" using v by simp
  finally show ?thesis using v by simp
qed

lemma page_disjoint: "v mod PGSIZE = 0 \<Longrightarrow> w mod PGSIZE = 0 \<Longrightarrow> v \<noteq> w \<Longrightarrow> v + PGSIZE \<le> w \<or> w + PGSIZE \<le> v"
  by (auto elim!: dvdE simp: mod_eq_0_iff_dvd)

lemma fl_path_cong: "\<forall>x \<in> set xs. ldw m x = ldw m' x \<Longrightarrow> fl_path m p xs = fl_path m' p xs"
  by (induction xs arbitrary: p) auto

text \<open>Memory that agrees on the free pages keeps the free list.\<close>

lemma kinv_mem:
  assumes "kinv s xs" "\<forall>x \<in> set xs. \<forall>a. x \<le> a \<and> a < x + PGSIZE \<longrightarrow> m a = kmem s a"
  shows "kinv (s\<lparr>kmem := m\<rparr>) xs"
proof -
  have "fl_path m (freelist s) xs = fl_path (kmem s) (freelist s) xs"
    using assms(2) by (intro fl_path_cong ballI ldw_cong) auto
  then show ?thesis using assms(1) by (simp add: kinv_def page_ok_def)
qed

lemma kalloc_Nil: "kinv s [] \<Longrightarrow> kalloc s = (0, s)"
  by (simp add: kalloc_def kinv_def)

lemma kalloc_Cons: "kinv s (x # xs) \<Longrightarrow> kalloc s = (x, s\<lparr>freelist := ldw (kmem s) x\<rparr>) \<and> kinv (s\<lparr>freelist := ldw (kmem s) x\<rparr>) xs"
  by (auto simp: kalloc_def kinv_def page_ok_def)

lemma kfree_ok:
  assumes "kinv s xs" "page_ok s v" "v \<notin> set xs"
  shows "\<exists>s'. kfree v s = Ok s' \<and> kinv s' (v # xs) \<and> s' = s\<lparr>kmem := kmem s', freelist := v\<rparr>
    \<and> (\<forall>a. a < v \<or> v + PGSIZE \<le> a \<longrightarrow> kmem s' a = kmem s a)"
proof -
  define m where "m = stw v (freelist s) (memset v 1 PGSIZE (kmem s))"
  have k: "kfree v s = Ok (s\<lparr>kmem := m, freelist := v\<rparr>)"
    using assms(2) V2P_page [OF assms(2)] by (simp add: kfree_def m_def page_ok_def Let_def)
  have out: "m a = kmem s a" if "a < v \<or> v + PGSIZE \<le> a" for a
    using that by (auto simp: m_def memset_eq stw_out range_upd_def)
  have "\<forall>x \<in> set xs. \<forall>a. x \<le> a \<and> a < x + PGSIZE \<longrightarrow> m a = kmem s a"
  proof (intro ballI allI impI)
    fix x a assume "x \<in> set xs" "x \<le> a \<and> a < x + PGSIZE"
    moreover from this have "x + PGSIZE \<le> v \<or> v + PGSIZE \<le> x"
      using assms by (intro page_disjoint) (auto simp: kinv_def page_ok_def)
    ultimately show "m a = kmem s a" by (intro out) auto
  qed
  then have "kinv (s\<lparr>kmem := m\<rparr>) xs" by (rule kinv_mem [OF assms(1)])
  moreover have "ldw m v = freelist s mod 2 ^ 32" unfolding m_def by (rule ldw_stw)
  moreover have "freelist s < 2 ^ 32" using assms(1) by (cases xs) (auto simp: kinv_def page_ok_def)
  ultimately have "kinv (s\<lparr>kmem := m, freelist := v\<rparr>) (v # xs)"
    using assms(2,3) by (simp add: kinv_def page_ok_def)
  then show ?thesis using k out by (intro exI [of _ "s\<lparr>kmem := m, freelist := v\<rparr>"]) auto
qed

lemma freemem_loop_ok: "fl_path m r xs \<Longrightarrow> \<forall>x \<in> set xs. x \<noteq> 0 \<Longrightarrow> length xs < fuel \<Longrightarrow> freemem_loop fuel r n m = Ok (n + int (length xs))"
proof (induction xs arbitrary: fuel r n)
  case Nil
  then show ?case by (cases fuel) simp_all
next
  case (Cons x xs)
  then show ?case by (cases fuel) simp_all
qed

section \<open>The contract of the allocator\<close>

text \<open>Freeing a list of pages, one after the other.\<close>

fun free_all :: "(nat \<Rightarrow> 's \<Rightarrow> 's res) \<Rightarrow> nat list \<Rightarrow> 's \<Rightarrow> 's res" where
  "free_all free [] s = Ok s"
| "free_all free (v # vs) s = bindr (free v s) (free_all free vs)"

text \<open>
  What the users of the allocator rely on: the free pages form a list that
  \<open>alloc\<close> takes from and \<open>free\<close> puts a valid page onto.
\<close>

locale frame_store =
  fixes alloc :: "'s \<Rightarrow> nat \<times> 's"
    and free :: "nat \<Rightarrow> 's \<Rightarrow> 's res"
    and frames :: "'s \<Rightarrow> nat list \<Rightarrow> bool"
    and valid :: "'s \<Rightarrow> nat \<Rightarrow> bool"
  assumes alloc_none: "frames s [] \<Longrightarrow> alloc s = (0, s)"
    and alloc_some: "frames s (x # xs) \<Longrightarrow> \<exists>s'. alloc s = (x, s') \<and> frames s' xs \<and> valid s' = valid s"
    and free_ok: "frames s xs \<Longrightarrow> valid s v \<Longrightarrow> v \<notin> set xs \<Longrightarrow>
      \<exists>s'. free v s = Ok s' \<and> frames s' (v # xs) \<and> valid s' = valid s"
    and frames_valid: "frames s xs \<Longrightarrow> x \<in> set xs \<Longrightarrow> valid s x"
begin

lemma free_all_ok:
  "frames s xs \<Longrightarrow> \<forall>v \<in> set vs. valid s v \<and> v \<notin> set xs \<Longrightarrow> distinct vs \<Longrightarrow>
   \<exists>s'. free_all free vs s = Ok s' \<and> frames s' (rev vs @ xs) \<and> valid s' = valid s"
proof (induction vs arbitrary: s xs)
  case (Cons v vs)
  then obtain s1 where s1: "free v s = Ok s1" "frames s1 (v # xs)" "valid s1 = valid s" using free_ok [of s xs v] by auto
  then have "\<exists>s'. free_all free vs s1 = Ok s' \<and> frames s' (rev vs @ v # xs) \<and> valid s' = valid s1"
    using Cons.prems by (intro Cons.IH) auto
  then show ?case using s1 by auto
qed simp

text \<open>A page that has been freed is the next one handed out.\<close>

lemma free_alloc:
  assumes "frames s xs" "valid s v" "v \<notin> set xs"
  obtains s1 s2 where "free v s = Ok s1" "alloc s1 = (v, s2)" "frames s2 xs"
  using free_ok [OF assms] alloc_some by metis

end

interpretation pages: frame_store kalloc kfree kinv page_ok
proof
  show "\<exists>s'. kalloc s = (x, s') \<and> kinv s' xs \<and> page_ok s' = page_ok s" if "kinv s (x # xs)" for s :: "'a kstate_scheme" and x xs
    using kalloc_Cons [OF that] by (auto simp: page_ok_def)
  show "\<exists>s'. kfree v s = Ok s' \<and> kinv s' (v # xs) \<and> page_ok s' = page_ok s"
    if kf: "kinv s xs" "page_ok s v" "v \<notin> set xs" for s :: "'a kstate_scheme" and xs v
  proof -
    obtain s' where s': "kfree v s = Ok s'" "kinv s' (v # xs)" "s' = s\<lparr>kmem := kmem s', freelist := v\<rparr>"
      using kfree_ok [OF kf] by blast
    have "page_ok s' = page_ok s" by (subst s'(3)) (auto simp: page_ok_def)
    then show ?thesis using s' by blast
  qed
qed (auto simp: kalloc_Nil kinv_def)

text \<open>The pages of a range of addresses.\<close>

definition page_range :: "nat \<Rightarrow> nat \<Rightarrow> nat list" where
  "page_range p vend = map (\<lambda>i. p + PGSIZE * i) [0..<(vend - p) div PGSIZE]"

lemma page_range_step:
  assumes "p + PGSIZE \<le> vend"
  shows "page_range p vend = p # page_range (p + PGSIZE) vend"
proof -
  obtain x where "vend = p + PGSIZE + x" using assms le_iff_add by blast
  then have "(vend - p) div PGSIZE = Suc ((vend - (p + PGSIZE)) div PGSIZE)" by simp
  then show ?thesis by (simp add: page_range_def map_upt_Suc del: upt_Suc)
qed

lemma freerange_loop_eq: "freerange_loop p vend s = free_all kfree (page_range p vend) s"
proof (induction p vend s rule: freerange_loop.induct)
  case (1 p vend s)
  show ?case
  proof (cases "p + PGSIZE \<le> vend")
    case True
    then show ?thesis using 1 by (subst freerange_loop.simps) (cases "kfree p s"; simp add: page_range_step)
  next
    case False
    then have "(vend - p) div PGSIZE = 0" by simp
    then show ?thesis using False by (subst freerange_loop.simps) (simp add: page_range_def)
  qed
qed

lemma distinct_page_range: "distinct (page_range p vend)"
  by (simp add: page_range_def distinct_map inj_on_def)

lemma set_page_range:
  assumes "p mod PGSIZE = 0" "vend mod PGSIZE = 0"
  shows "set (page_range p vend) = {v. v mod PGSIZE = 0 \<and> p \<le> v \<and> v < vend}"
proof (intro set_eqI iffI)
  fix v assume "v \<in> set (page_range p vend)"
  then obtain i where i: "v = p + PGSIZE * i" "i < (vend - p) div PGSIZE" by (auto simp: page_range_def)
  have "PGSIZE * (i + 1) \<le> PGSIZE * ((vend - p) div PGSIZE)" using i(2) by (intro mult_le_mono2) simp
  also have "\<dots> \<le> vend - p" by (rule times_div_less_eq_dividend)
  finally show "v \<in> {v. v mod PGSIZE = 0 \<and> p \<le> v \<and> v < vend}" using i assms by auto
next
  fix v assume v: "v \<in> {v. v mod PGSIZE = 0 \<and> p \<le> v \<and> v < vend}"
  then obtain i j k where e: "p = PGSIZE * i" "v = PGSIZE * j" "vend = PGSIZE * k" using assms by (auto elim!: dvdE simp: mod_eq_0_iff_dvd)
  then have "(vend - p) div PGSIZE = k - i" by (simp flip: diff_mult_distrib2)
  moreover have "i \<le> j" "j < k" using v e by auto
  moreover have "v = p + PGSIZE * (j - i)" using e \<open>i \<le> j\<close> by (simp add: diff_mult_distrib2)
  ultimately show "v \<in> set (page_range p vend)" by (auto simp: page_range_def)
qed

lemma PGROUNDUP_small:
  assumes "sz + PGSIZE \<le> 2 ^ 32"
  shows "PGROUNDUP sz mod PGSIZE = 0" "sz \<le> PGROUNDUP sz" "PGROUNDUP sz < sz + PGSIZE"
    "v mod PGSIZE = 0 \<Longrightarrow> sz \<le> v \<longleftrightarrow> PGROUNDUP sz \<le> v"
proof -
  have e: "PGROUNDUP sz = (sz + PGSIZE - 1) div PGSIZE * PGSIZE" using assms by (simp add: PGROUNDUP_def)
  have d: "(sz + PGSIZE - 1) div PGSIZE * PGSIZE + (sz + PGSIZE - 1) mod PGSIZE = sz + PGSIZE - 1" by (rule div_mult_mod_eq)
  have l: "(sz + PGSIZE - 1) mod PGSIZE < PGSIZE" by simp
  show "PGROUNDUP sz mod PGSIZE = 0" by (simp add: e)
  show up: "sz \<le> PGROUNDUP sz" and lt: "PGROUNDUP sz < sz + PGSIZE" using d l unfolding e by linarith+
  assume v: "v mod PGSIZE = 0"
  show "sz \<le> v \<longleftrightarrow> PGROUNDUP sz \<le> v"
  proof
    assume "sz \<le> v"
    then show "PGROUNDUP sz \<le> v"
      using page_disjoint [OF v \<open>PGROUNDUP sz mod PGSIZE = 0\<close>] lt by (cases "v = PGROUNDUP sz") auto
  qed (use up in simp)
qed

lemma freerange_ok:
  assumes "kinv s xs" "\<forall>v \<in> set (page_range (PGROUNDUP vstart) vend). page_ok s v \<and> v \<notin> set xs"
  shows "\<exists>s'. freerange vstart vend s = Ok s' \<and> kinv s' (rev (page_range (PGROUNDUP vstart) vend) @ xs) \<and> page_ok s' = page_ok s"
  unfolding freerange_def freerange_loop_eq
  by (rule pages.free_all_ok [OF assms distinct_page_range])


text \<open>
  C13. The two phases of the initialisation put every whole page between the end
  of the kernel and the top of physical memory on the free list, each once.
\<close>

theorem kinit_spec:
  assumes "freelist s = 0" "KERNBASE < kend s" "kend s \<le> P2V 0x400000"
  shows "\<exists>s1 s2 xs. kinit1 (kend s) (P2V 0x400000) s = Ok s1 \<and> kinit2 (P2V 0x400000) (P2V PHYSTOP) s1 = Ok s2
    \<and> kinv s2 xs \<and> use_lock s2 \<and> set xs = {v. v mod PGSIZE = 0 \<and> kend s \<le> v \<and> v < KERNBASE + PHYSTOP}"
proof -
  let ?p = "PGROUNDUP (kend s)" and ?q = "KERNBASE + 0x400000" and ?t = "KERNBASE + PHYSTOP"
  have c: "P2V 0x400000 = ?q" "P2V PHYSTOP = ?t" "PGROUNDUP ?q = ?q" by (simp_all add: P2V_def PGROUNDUP_def)
  have "kend s + PGSIZE \<le> 2 ^ 32" using assms(3) c by simp
  note r = PGROUNDUP_small [OF this]
  have r1: "set (page_range ?p ?q) = {v. v mod PGSIZE = 0 \<and> ?p \<le> v \<and> v < ?q}" using r(1) by (intro set_page_range) simp_all
  have r2: "set (page_range ?q ?t) = {v. v mod PGSIZE = 0 \<and> ?q \<le> v \<and> v < ?t}" by (intro set_page_range) simp_all
  have i0: "kinv (s\<lparr>use_lock := False\<rparr>) []" using assms(1) by (simp add: kinv_def)
  obtain s1 where s1: "kinit1 (kend s) ?q s = Ok s1" "kinv s1 (rev (page_range ?p ?q))" "page_ok s1 = page_ok (s\<lparr>use_lock := False\<rparr>)"
    using freerange_ok [OF i0, of "kend s" ?q] r assms(2) unfolding kinit1_def r1 by (auto simp: page_ok_def)
  have "\<forall>v \<in> set (page_range ?q ?t). page_ok s1 v \<and> v \<notin> set (rev (page_range ?p ?q))"
    using assms(2,3) c unfolding s1(3) set_rev r1 r2 by (auto simp: page_ok_def)
  then obtain s2 where s2: "freerange ?q ?t s1 = Ok s2" "kinv s2 (rev (page_range ?q ?t) @ rev (page_range ?p ?q))"
    using freerange_ok [OF s1(2), of ?q ?t] c(3) by auto
  have k2: "kinit2 ?q ?t s1 = Ok (s2\<lparr>use_lock := True\<rparr>)" using s2(1) by (simp add: kinit2_def)
  have v2: "kinv (s2\<lparr>use_lock := True\<rparr>) (rev (page_range ?q ?t) @ rev (page_range ?p ?q))"
    using s2(2) by (simp add: kinv_def page_ok_def)
  have st: "set (rev (page_range ?q ?t) @ rev (page_range ?p ?q)) = {v. v mod PGSIZE = 0 \<and> kend s \<le> v \<and> v < ?t}"
    using assms(3) unfolding set_append set_rev r1 r2 c(1) by (auto simp: r(4))
  show ?thesis unfolding c
    by (intro exI [of _ s1] exI [of _ "s2\<lparr>use_lock := True\<rparr>"] exI [of _ "rev (page_range ?q ?t) @ rev (page_range ?p ?q)"] conjI
      s1(1) k2 v2 st) simp
qed

text \<open>A kernel that ends behind its first page, and memory with one free page.\<close>

definition demo_kstate :: kstate where
  "demo_kstate = \<lparr>kmem = (\<lambda>_. 0), freelist = KERNBASE + 0x200000, use_lock = True, kend = KERNBASE + 0x101234\<rparr>"

lemma demo_kinv: "kinv demo_kstate [KERNBASE + 0x200000]"
  by (simp add: kinv_def demo_kstate_def page_ok_def ldw_def)


theorem kinit_spec_witness:
  "\<exists>s1 s2 xs. kinit1 (KERNBASE + 0x101234) (P2V 0x400000) (demo_kstate\<lparr>freelist := 0\<rparr>) = Ok s1
    \<and> kinit2 (P2V 0x400000) (P2V PHYSTOP) s1 = Ok s2 \<and> kinv s2 xs
    \<and> set xs = {v. v mod PGSIZE = 0 \<and> KERNBASE + 0x101234 \<le> v \<and> v < KERNBASE + PHYSTOP}"
  using kinit_spec [of "demo_kstate\<lparr>freelist := 0\<rparr>"] by (auto simp: demo_kstate_def P2V_def)

end
