(* ===== verification/Vm.thy ===== *)
theory Vm
  imports Kalloc
begin

text \<open>
  Page tables (src/xv6/vm.c).  Page directories and page tables are words in
  memory, reached through the kernel's addresses.  Addresses and sizes are
  unsigned 32-bit integers; the loops over pages that rely on the arithmetic
  of C carry fuel for the \<open>2 ^ 20\<close> pages of the address space.
\<close>

unbundle bit_operations_syntax

section \<open>Entries\<close>

abbreviation PTE_P :: nat where "PTE_P \<equiv> 1"
abbreviation PTE_W :: nat where "PTE_W \<equiv> 2"
abbreviation PTE_U :: nat where "PTE_U \<equiv> 4"

definition PDX :: "nat \<Rightarrow> nat" where
  "PDX va = va div 2 ^ 22 mod 1024"

definition PTX :: "nat \<Rightarrow> nat" where
  "PTX va = va div 2 ^ 12 mod 1024"

definition PTE_ADDR :: "nat \<Rightarrow> nat" where
  "PTE_ADDR pte = pte div 4096 * 4096"

definition PTE_FLAGS :: "nat \<Rightarrow> nat" where
  "PTE_FLAGS pte = pte mod 4096"

text \<open>The first byte of the page directory entry \<open>d\<close>.\<close>

definition PGADDR :: "nat \<Rightarrow> nat" where
  "PGADDR d = d * 2 ^ 22 mod 2 ^ 32"

section \<open>State\<close>

text \<open>
  \<open>kdata\<close> is the linker's symbol \<open>data\<close>, \<open>cr3\<close> the register with the physical
  address of the current page directory, \<open>esp0\<close> the kernel stack pointer of
  the task state segment.
\<close>

record vstate = kstate +
  kdata :: nat
  kpgdir :: nat
  cr3 :: nat
  esp0 :: nat

section \<open>Operations\<close>

definition walkpgdir :: "nat \<Rightarrow> nat \<Rightarrow> bool \<Rightarrow> 'a vstate_scheme \<Rightarrow> nat \<times> 'a vstate_scheme" where
  "walkpgdir pgdir va alloc s =
     (let pde = pgdir + 4 * PDX va in
      if bit (ldw (kmem s) pde) 0 then (P2V (PTE_ADDR (ldw (kmem s) pde)) + 4 * PTX va, s)
      else if \<not> alloc then (0, s)
      else (case kalloc s of (pgtab, s) \<Rightarrow>
        if pgtab = 0 then (0, s)
        else
          let s = s\<lparr>kmem := memset pgtab 0 PGSIZE (kmem s)\<rparr>;
              s = s\<lparr>kmem := stw pde (V2P pgtab OR PTE_P OR PTE_W OR PTE_U) (kmem s)\<rparr> in
          (pgtab + 4 * PTX va, s)))"

fun mappages_loop :: "nat \<Rightarrow> nat \<Rightarrow> nat \<Rightarrow> nat \<Rightarrow> nat \<Rightarrow> nat \<Rightarrow> 'a vstate_scheme \<Rightarrow> (int \<times> 'a vstate_scheme) res" where
  "mappages_loop 0 pgdir a lst pa perm s = Err NoFuel"
| "mappages_loop (Suc fuel) pgdir a lst pa perm s =
     (case walkpgdir pgdir a True s of (pte, s) \<Rightarrow>
        if pte = 0 then Ok (-1, s)
        else if bit (ldw (kmem s) pte) 0 then Err (Panic ''remap'')
        else
          let s = s\<lparr>kmem := stw pte (pa OR perm OR PTE_P) (kmem s)\<rparr> in
          if a = lst then Ok (0, s)
          else mappages_loop fuel pgdir ((a + PGSIZE) mod 2 ^ 32) lst ((pa + PGSIZE) mod 2 ^ 32) perm s)"

definition mappages :: "nat \<Rightarrow> nat \<Rightarrow> nat \<Rightarrow> nat \<Rightarrow> nat \<Rightarrow> 'a vstate_scheme \<Rightarrow> (int \<times> 'a vstate_scheme) res" where
  "mappages pgdir va sz pa perm s =
     mappages_loop (2 ^ 20) pgdir (PGROUNDDOWN va) (PGROUNDDOWN ((va + sz + (2 ^ 32 - 1)) mod 2 ^ 32)) pa perm s"

text \<open>The increment of the loop follows the skip to the last page of the directory entry.\<close>

fun deallocuvm_loop :: "nat \<Rightarrow> nat \<Rightarrow> nat \<Rightarrow> nat \<Rightarrow> 'a vstate_scheme \<Rightarrow> 'a vstate_scheme res" where
  "deallocuvm_loop 0 pgdir a oldsz s = Err NoFuel"
| "deallocuvm_loop (Suc fuel) pgdir a oldsz s =
     (if a < oldsz then
        (case walkpgdir pgdir a False s of (pte, s) \<Rightarrow>
           if pte = 0 then
             let a = (PGADDR (PDX a + 1) + (2 ^ 32 - PGSIZE)) mod 2 ^ 32 in
             deallocuvm_loop fuel pgdir ((a + PGSIZE) mod 2 ^ 32) oldsz s
           else if bit (ldw (kmem s) pte) 0 then
             let pa = PTE_ADDR (ldw (kmem s) pte) in
             if pa = 0 then Err (Panic ''kfree'')
             else bindr (kfree (P2V pa) s) (\<lambda>s.
               deallocuvm_loop fuel pgdir ((a + PGSIZE) mod 2 ^ 32) oldsz (s\<lparr>kmem := stw pte 0 (kmem s)\<rparr>))
           else deallocuvm_loop fuel pgdir ((a + PGSIZE) mod 2 ^ 32) oldsz s)
      else Ok s)"

definition deallocuvm :: "nat \<Rightarrow> nat \<Rightarrow> nat \<Rightarrow> 'a vstate_scheme \<Rightarrow> (nat \<times> 'a vstate_scheme) res" where
  "deallocuvm pgdir oldsz newsz s =
     (if newsz \<ge> oldsz then Ok (oldsz, s)
      else bindr (deallocuvm_loop (2 ^ 20 + 1) pgdir (PGROUNDUP newsz) oldsz s) (\<lambda>s. Ok (newsz, s)))"

function freevm_loop :: "nat \<Rightarrow> nat \<Rightarrow> 'a vstate_scheme \<Rightarrow> 'a vstate_scheme res" where
  "freevm_loop i pgdir s =
     (if i < 1024 then
        if bit (ldw (kmem s) (pgdir + 4 * i)) 0 then
          bindr (kfree (P2V (PTE_ADDR (ldw (kmem s) (pgdir + 4 * i)))) s) (freevm_loop (i + 1) pgdir)
        else freevm_loop (i + 1) pgdir s
      else Ok s)"
  by pat_completeness auto
termination
  by (relation "measure (\<lambda>(i, pgdir, s). 1024 - i)") auto

declare freevm_loop.simps [simp del]

definition freevm :: "nat \<Rightarrow> 'a vstate_scheme \<Rightarrow> 'a vstate_scheme res" where
  "freevm pgdir s =
     (if pgdir = 0 then Err (Panic ''freevm: no pgdir'')
      else bindr (deallocuvm pgdir KERNBASE 0 s) (\<lambda>(_, s).
        bindr (freevm_loop 0 pgdir s) (kfree pgdir)))"

text \<open>The table \<open>kmap\<close>: the virtual address, the physical range and the permissions.\<close>

definition kmap :: "nat \<Rightarrow> (nat \<times> nat \<times> nat \<times> nat) list" where
  "kmap dat =
     [(KERNBASE, 0, EXTMEM, PTE_W),
      (KERNLINK, V2P KERNLINK, V2P dat, 0),
      (dat, V2P dat, PHYSTOP, PTE_W),
      (DEVSPACE, DEVSPACE, 0, PTE_W)]"

fun setupkvm_loop :: "(nat \<times> nat \<times> nat \<times> nat) list \<Rightarrow> nat \<Rightarrow> 'a vstate_scheme \<Rightarrow> (nat \<times> 'a vstate_scheme) res" where
  "setupkvm_loop [] pgdir s = Ok (pgdir, s)"
| "setupkvm_loop ((virt, phys_start, phys_end, perm) # k) pgdir s =
     bindr (mappages pgdir virt ((phys_end + (2 ^ 32 - phys_start)) mod 2 ^ 32) phys_start perm s) (\<lambda>(r, s).
       if r < 0 then bindr (freevm pgdir s) (\<lambda>s. Ok (0, s))
       else setupkvm_loop k pgdir s)"

definition setupkvm :: "'a vstate_scheme \<Rightarrow> (nat \<times> 'a vstate_scheme) res" where
  "setupkvm s =
     (case kalloc s of (pgdir, s) \<Rightarrow>
        if pgdir = 0 then Ok (0, s)
        else
          let s = s\<lparr>kmem := memset pgdir 0 PGSIZE (kmem s)\<rparr> in
          if P2V PHYSTOP > DEVSPACE then Err (Panic ''PHYSTOP too high'')
          else setupkvm_loop (kmap (kdata s)) pgdir s)"

definition switchkvm :: "'a vstate_scheme \<Rightarrow> 'a vstate_scheme" where
  "switchkvm s = s\<lparr>cr3 := V2P (kpgdir s)\<rparr>"

definition kvmalloc :: "'a vstate_scheme \<Rightarrow> 'a vstate_scheme res" where
  "kvmalloc s = bindr (setupkvm s) (\<lambda>(d, s). Ok (switchkvm (s\<lparr>kpgdir := d\<rparr>)))"

text \<open>The process is given by its kernel stack and its page directory.\<close>

definition switchuvm :: "(nat \<times> nat) option \<Rightarrow> 'a vstate_scheme \<Rightarrow> 'a vstate_scheme res" where
  "switchuvm p s =
     (case p of
        None \<Rightarrow> Err (Panic ''switchuvm: no process'')
      | Some (kstack, pgdir) \<Rightarrow>
          if kstack = 0 then Err (Panic ''switchuvm: no kstack'')
          else if pgdir = 0 then Err (Panic ''switchuvm: no pgdir'')
          else Ok (s\<lparr>esp0 := kstack + 4096, cr3 := V2P pgdir\<rparr>))"

text \<open>The image \<open>init\<close> is a list of bytes.  Storing through a null pointer leaves every object.\<close>

definition inituvm :: "nat \<Rightarrow> byte list \<Rightarrow> 'a vstate_scheme \<Rightarrow> 'a vstate_scheme res" where
  "inituvm pgdir init s =
     (if length init \<ge> PGSIZE then Err (Panic ''inituvm: more than a page'')
      else (case kalloc s of (mem, s) \<Rightarrow>
        if mem = 0 then Err Fault
        else
          let s = s\<lparr>kmem := memset mem 0 PGSIZE (kmem s)\<rparr> in
          bindr (mappages pgdir 0 PGSIZE (V2P mem) (PTE_W OR PTE_U) s) (\<lambda>(_, s).
            Ok (s\<lparr>kmem := range_upd mem (length init) (\<lambda>i. init ! i) (kmem s)\<rparr>))))"

text \<open>
  \<open>rdi off n\<close> is what \<open>readi\<close> gives for the inode of the program: the bytes it
  stores, as many as its result.
\<close>

function loaduvm_loop :: "(nat \<Rightarrow> nat \<Rightarrow> byte list) \<Rightarrow> nat \<Rightarrow> nat \<Rightarrow> nat \<Rightarrow> nat \<Rightarrow> nat \<Rightarrow> 'a vstate_scheme \<Rightarrow> (int \<times> 'a vstate_scheme) res" where
  "loaduvm_loop rdi i pgdir addr off sz s =
     (if i < sz then
        (case walkpgdir pgdir ((addr + i) mod 2 ^ 32) False s of (pte, s) \<Rightarrow>
           if pte = 0 then Err (Panic ''loaduvm: address should exist'')
           else
             let pa = PTE_ADDR (ldw (kmem s) pte);
                 n = (if sz - i < PGSIZE then sz - i else PGSIZE);
                 bs = rdi ((off + i) mod 2 ^ 32) n;
                 s = s\<lparr>kmem := range_upd (P2V pa) (length bs) (\<lambda>i. bs ! i) (kmem s)\<rparr> in
             if length bs \<noteq> n then Ok (-1, s) else loaduvm_loop rdi (i + PGSIZE) pgdir addr off sz s)
      else Ok (0, s))"
  by pat_completeness auto
termination
  by (relation "measure (\<lambda>(rdi, i, pgdir, addr, off, sz, s). sz - i)") auto

declare loaduvm_loop.simps [simp del]

definition loaduvm :: "(nat \<Rightarrow> nat \<Rightarrow> byte list) \<Rightarrow> nat \<Rightarrow> nat \<Rightarrow> nat \<Rightarrow> nat \<Rightarrow> 'a vstate_scheme \<Rightarrow> (int \<times> 'a vstate_scheme) res" where
  "loaduvm rdi pgdir addr off sz s =
     (if addr mod PGSIZE \<noteq> 0 then Err (Panic ''loaduvm: addr must be page aligned'')
      else loaduvm_loop rdi 0 pgdir addr off sz s)"

function allocuvm_loop :: "nat \<Rightarrow> nat \<Rightarrow> nat \<Rightarrow> nat \<Rightarrow> 'a vstate_scheme \<Rightarrow> (nat \<times> 'a vstate_scheme) res" where
  "allocuvm_loop pgdir a oldsz newsz s =
     (if a < newsz then
        (case kalloc s of (mem, s) \<Rightarrow>
           if mem = 0 then bindr (deallocuvm pgdir newsz oldsz s) (\<lambda>(_, s). Ok (0, s))
           else
             let s = s\<lparr>kmem := memset mem 0 PGSIZE (kmem s)\<rparr> in
             bindr (mappages pgdir a PGSIZE (V2P mem) (PTE_W OR PTE_U) s) (\<lambda>(r, s).
               if r < 0 then
                 bindr (deallocuvm pgdir newsz oldsz s) (\<lambda>(_, s). bindr (kfree mem s) (\<lambda>s. Ok (0, s)))
               else allocuvm_loop pgdir (a + PGSIZE) oldsz newsz s))
      else Ok (newsz, s))"
  by pat_completeness auto
termination
  by (relation "measure (\<lambda>(pgdir, a, oldsz, newsz, s). newsz - a)") auto

declare allocuvm_loop.simps [simp del]

definition allocuvm :: "nat \<Rightarrow> nat \<Rightarrow> nat \<Rightarrow> 'a vstate_scheme \<Rightarrow> (nat \<times> 'a vstate_scheme) res" where
  "allocuvm pgdir oldsz newsz s =
     (if newsz \<ge> KERNBASE then Ok (0, s)
      else if newsz < oldsz then Ok (oldsz, s)
      else allocuvm_loop pgdir (PGROUNDUP oldsz) oldsz newsz s)"

definition clearpteu :: "nat \<Rightarrow> nat \<Rightarrow> 'a vstate_scheme \<Rightarrow> 'a vstate_scheme res" where
  "clearpteu pgdir uva s =
     (case walkpgdir pgdir uva False s of (pte, s) \<Rightarrow>
        if pte = 0 then Err (Panic ''clearpteu'')
        else Ok (s\<lparr>kmem := stw pte (unset_bit 2 (ldw (kmem s) pte)) (kmem s)\<rparr>))"

fun copyuvm_loop :: "nat \<Rightarrow> nat \<Rightarrow> nat \<Rightarrow> nat \<Rightarrow> nat \<Rightarrow> 'a vstate_scheme \<Rightarrow> (nat \<times> 'a vstate_scheme) res" where
  "copyuvm_loop 0 i pgdir d sz s = Err NoFuel"
| "copyuvm_loop (Suc fuel) i pgdir d sz s =
     (if i < sz then
        (case walkpgdir pgdir i False s of (pte, s) \<Rightarrow>
           if pte = 0 \<or> \<not> bit (ldw (kmem s) pte) 0 then copyuvm_loop fuel ((i + PGSIZE) mod 2 ^ 32) pgdir d sz s
           else
             let pa = PTE_ADDR (ldw (kmem s) pte); flags = PTE_FLAGS (ldw (kmem s) pte) in
             (case kalloc s of (mem, s) \<Rightarrow>
                if mem = 0 then bindr (freevm d s) (\<lambda>s. Ok (0, s))
                else
                  let s = s\<lparr>kmem := memmove mem (P2V pa) PGSIZE (kmem s)\<rparr> in
                  bindr (mappages d i PGSIZE (V2P mem) flags s) (\<lambda>(r, s).
                    if r < 0 then bindr (kfree mem s) (\<lambda>s. bindr (freevm d s) (\<lambda>s. Ok (0, s)))
                    else copyuvm_loop fuel ((i + PGSIZE) mod 2 ^ 32) pgdir d sz s)))
      else Ok (d, s))"

definition copyuvm :: "nat \<Rightarrow> nat \<Rightarrow> 'a vstate_scheme \<Rightarrow> (nat \<times> 'a vstate_scheme) res" where
  "copyuvm pgdir sz s =
     bindr (setupkvm s) (\<lambda>(d, s).
       if d = 0 then Ok (0, s) else copyuvm_loop (2 ^ 20 + 1) 0 pgdir d sz s)"

text \<open>The entry is read even when there is no page table.\<close>

definition uva2ka :: "nat \<Rightarrow> nat \<Rightarrow> 'a vstate_scheme \<Rightarrow> nat res" where
  "uva2ka pgdir uva s =
     (let pte = fst (walkpgdir pgdir uva False s) in
      if pte = 0 then Err Fault
      else if \<not> bit (ldw (kmem s) pte) 0 then Ok 0
      else if \<not> bit (ldw (kmem s) pte) 2 then Ok 0
      else Ok (P2V (PTE_ADDR (ldw (kmem s) pte))))"

text \<open>The bytes from \<open>p\<close> on that are still to be copied are a list.\<close>

function copyout :: "nat \<Rightarrow> nat \<Rightarrow> byte list \<Rightarrow> 'a vstate_scheme \<Rightarrow> (int \<times> 'a vstate_scheme) res" where
  "copyout pgdir va p s =
     (if p \<noteq> [] then
        let va0 = PGROUNDDOWN va in
        bindr (uva2ka pgdir va0 s) (\<lambda>pa0.
          if pa0 = 0 then Ok (-1, s)
          else
            let n = min (PGSIZE - (va - va0)) (length p) in
            copyout pgdir ((va0 + PGSIZE) mod 2 ^ 32) (drop n p)
              (s\<lparr>kmem := range_upd (pa0 + (va - va0)) n (\<lambda>i. p ! i) (kmem s)\<rparr>))
      else Ok (0, s))"
  by pat_completeness auto
termination
proof (relation "measure (\<lambda>(pgdir, va, p, s). length p)")
  fix va :: nat and p :: "byte list"
  assume "p \<noteq> []"
  moreover have "va - PGROUNDDOWN va = va mod PGSIZE" by (simp add: PGROUNDDOWN_def minus_div_mult_eq_mod)
  moreover have "va mod PGSIZE < PGSIZE" by simp
  ultimately have "0 < min (PGSIZE - (va - PGROUNDDOWN va)) (length p)" by (metis length_greater_0_conv min_less_iff_conj zero_less_diff)
  then show "((pgdir, (va0 + PGSIZE) mod 2 ^ 32, drop n p, s'), (pgdir, va, p, s)) \<in> measure (\<lambda>(pgdir, va, p, s). length p)"
    if "va0 = PGROUNDDOWN va" "n = min (PGSIZE - (va - va0)) (length p)" for va0 n pgdir and s s' :: "'a vstate_scheme"
    using that \<open>p \<noteq> []\<close> by simp
qed auto

declare copyout.simps [simp del]

end
