(* ===== verification/Pipe.thy ===== *)
theory Pipe
  imports Prelude
begin

text \<open>
  Pipes (src/xv6/pipe.c).  The counters are 32-bit words, so that they wrap
  around; the buffer has 512 bytes, which divides \<open>2 ^ 32\<close>.  A call that has to
  wait stops with the channel it sleeps on and is resumed with the bytes that
  are still to be written.  Next to its outcome a call reports the channels
  it wakes up.
\<close>

section \<open>State and operations\<close>

abbreviation PIPESIZE :: nat where "PIPESIZE \<equiv> 512"

record pipe =
  p_data :: "byte list"
  p_nread :: "32 word"
  p_nwrite :: "32 word"
  p_readopen :: bool
  p_writeopen :: bool

text \<open>The channels \<open>&p->nread\<close> and \<open>&p->nwrite\<close>.\<close>

datatype pchan = Nread | Nwrite

text \<open>The fields that \<open>pipealloc\<close> sets; the data stays what the page held.\<close>

definition pipe_new :: "byte list \<Rightarrow> pipe" where
  "pipe_new page = \<lparr>p_data = page, p_nread = 0, p_nwrite = 0, p_readopen = True, p_writeopen = True\<rparr>"

text \<open>The last component says that both ends are closed and the page is freed.\<close>

definition pipeclose :: "bool \<Rightarrow> pipe \<Rightarrow> pipe \<times> pchan \<times> bool" where
  "pipeclose writable p =
     (case (if writable then (p\<lparr>p_writeopen := False\<rparr>, Nread) else (p\<lparr>p_readopen := False\<rparr>, Nwrite)) of
        (p, ch) \<Rightarrow> (p, ch, \<not> p_readopen p \<and> \<not> p_writeopen p))"

datatype pwrite = WrittenAll | WriteFails | WriteSleeps "byte list"

text \<open>
  The loop of \<open>pipewrite\<close> over the bytes that are left.  \<open>killed\<close> is the flag of the
  calling process; \<open>wake\<close> says whether \<open>wakeup(&p->nread)\<close> has been called.
\<close>

fun pipewrite_loop :: "bool \<Rightarrow> byte list \<Rightarrow> pipe \<Rightarrow> pipe \<times> pwrite \<times> bool" where
  "pipewrite_loop killed [] p = (p, WrittenAll, True)"
| "pipewrite_loop killed (b # bs) p =
     (if p_nwrite p = p_nread p + of_nat PIPESIZE then
        if \<not> p_readopen p \<or> killed then (p, WriteFails, False)
        else (p, WriteSleeps (b # bs), True)
      else pipewrite_loop killed bs
             (p\<lparr>p_data := (p_data p)[unat (p_nwrite p) mod PIPESIZE := b], p_nwrite := p_nwrite p + 1\<rparr>))"

definition pipewrite :: "bool \<Rightarrow> byte list \<Rightarrow> pipe \<Rightarrow> pipe \<times> pwrite \<times> bool" where
  "pipewrite killed addr p = pipewrite_loop killed addr p"

datatype pread = Got "byte list" | ReadFails | ReadSleeps

fun piperead_copy :: "nat \<Rightarrow> pipe \<Rightarrow> byte list \<times> pipe" where
  "piperead_copy 0 p = ([], p)"
| "piperead_copy (Suc n) p =
     (if p_nread p = p_nwrite p then ([], p)
      else case piperead_copy n (p\<lparr>p_nread := p_nread p + 1\<rparr>) of
        (bs, p') \<Rightarrow> (p_data p ! (unat (p_nread p) mod PIPESIZE) # bs, p'))"

text \<open>The last component says whether \<open>wakeup(&p->nwrite)\<close> is called.\<close>

definition piperead :: "bool \<Rightarrow> int \<Rightarrow> pipe \<Rightarrow> pipe \<times> pread \<times> bool" where
  "piperead killed n p =
     (if p_nread p = p_nwrite p \<and> p_writeopen p then
        if killed then (p, ReadFails, False) else (p, ReadSleeps, False)
      else case piperead_copy (nat n) p of (bs, p) \<Rightarrow> (p, Got bs, True))"

section \<open>A bounded queue\<close>

text \<open>
  The bytes in the pipe, and the invariant: at most 512 of them.
\<close>

definition fill :: "pipe \<Rightarrow> nat" where
  "fill p = unat (p_nwrite p - p_nread p)"

definition contents :: "pipe \<Rightarrow> byte list" where
  "contents p = map (\<lambda>i. p_data p ! (unat (p_nread p + of_nat i) mod PIPESIZE)) [0..<fill p]"

definition pipe_ok :: "pipe \<Rightarrow> bool" where
  "pipe_ok p \<longleftrightarrow> length (p_data p) = PIPESIZE \<and> fill p \<le> PIPESIZE"

lemma fill_full: "p_nwrite p = p_nread p + of_nat PIPESIZE \<longleftrightarrow> fill p = PIPESIZE"
proof
  assume "p_nwrite p = p_nread p + of_nat PIPESIZE"
  then have "p_nwrite p - p_nread p = 512" by simp
  then show "fill p = PIPESIZE" by (simp add: fill_def)
next
  assume "fill p = PIPESIZE"
  then have "of_nat (unat (p_nwrite p - p_nread p)) = (of_nat PIPESIZE :: 32 word)" by (simp add: fill_def)
  then have "p_nwrite p - p_nread p = of_nat PIPESIZE" by simp
  then show "p_nwrite p = p_nread p + of_nat PIPESIZE" by (simp add: algebra_simps)
qed

lemma fill_empty: "p_nread p = p_nwrite p \<longleftrightarrow> fill p = 0"
  by (auto simp: fill_def unat_eq_0)

lemma index_mod: "unat (w + of_nat i :: 32 word) mod PIPESIZE = (unat w + i) mod PIPESIZE"
proof -
  have "unat (w + of_nat i) = (unat w + i) mod 2 ^ 32"
    using unat_of_nat [of "unat w + i", where 'a = 32] by simp
  then show ?thesis by (simp add: mod_mod_cancel)
qed

lemma contents_length [simp]: "length (contents p) = fill p"
  by (simp add: contents_def)

lemma contents_put:
  assumes "pipe_ok p" "fill p < PIPESIZE"
  shows "contents (p\<lparr>p_data := (p_data p)[unat (p_nwrite p) mod PIPESIZE := b], p_nwrite := p_nwrite p + 1\<rparr>) = contents p @ [b]"
    "pipe_ok (p\<lparr>p_data := (p_data p)[unat (p_nwrite p) mod PIPESIZE := b], p_nwrite := p_nwrite p + 1\<rparr>)"
proof -
  let ?q = "p\<lparr>p_data := (p_data p)[unat (p_nwrite p) mod PIPESIZE := b], p_nwrite := p_nwrite p + 1\<rparr>"
  have w: "p_nwrite p = p_nread p + of_nat (fill p)" by (simp add: fill_def)
  have f: "fill ?q = fill p + 1"
  proof -
    have "p_nwrite ?q - p_nread ?q = of_nat (fill p + 1)" using w by (simp add: algebra_simps)
    then show ?thesis unfolding fill_def [of ?q] using assms(2) by (simp add: unat_of_nat del: of_nat_Suc of_nat_add)
  qed
  have ne: "(unat (p_nread p) + i) mod PIPESIZE \<noteq> (unat (p_nread p) + fill p) mod PIPESIZE" if "i < fill p" for i
  proof
    assume e: "(unat (p_nread p) + i) mod PIPESIZE = (unat (p_nread p) + fill p) mod PIPESIZE"
    then have "(fill p - i) mod PIPESIZE = 0"
      using that mod_eq_dvd_iff_nat [of "unat (p_nread p) + i" "unat (p_nread p) + fill p" PIPESIZE] by simp
    then show False using that assms(2) by simp
  qed
  have "contents ?q = map (\<lambda>i. p_data ?q ! ((unat (p_nread p) + i) mod PIPESIZE)) [0..<fill p + 1]"
    by (simp only: contents_def f index_mod) simp
  also have "\<dots> = map (\<lambda>i. p_data p ! ((unat (p_nread p) + i) mod PIPESIZE)) [0..<fill p] @ [b]"
    using ne [symmetric] assms(1) by (auto simp: w index_mod pipe_ok_def nth_list_update)
  finally show "contents ?q = contents p @ [b]" by (simp only: contents_def index_mod)
  show "pipe_ok ?q" using f assms by (simp add: pipe_ok_def)
qed

lemma contents_get:
  assumes "pipe_ok p" "0 < fill p"
  shows "contents p = p_data p ! (unat (p_nread p) mod PIPESIZE) # contents (p\<lparr>p_nread := p_nread p + 1\<rparr>)"
    "pipe_ok (p\<lparr>p_nread := p_nread p + 1\<rparr>)"
proof -
  let ?q = "p\<lparr>p_nread := p_nread p + 1\<rparr>"
  have w: "p_nwrite p - p_nread p = of_nat (fill p)" by (simp add: fill_def)
  have f: "fill p = Suc (fill ?q)"
  proof -
    have "p_nwrite ?q - p_nread ?q = of_nat (fill p - 1)" using w assms(2) by (simp add: of_nat_diff algebra_simps)
    moreover have "unat (of_nat (fill p - 1) :: 32 word) = fill p - 1"
      using assms(1) unat_of_nat [of "fill p - 1", where 'a = 32] by (auto simp: pipe_ok_def)
    ultimately show ?thesis unfolding fill_def [of ?q] using assms(2) by (simp only:)
  qed
  show "pipe_ok ?q" using f assms by (simp add: pipe_ok_def)
  have a: "p_nread p + of_nat (Suc i) = p_nread ?q + of_nat i" for i by (simp add: algebra_simps)
  show "contents p = p_data p ! (unat (p_nread p) mod PIPESIZE) # contents ?q"
    unfolding contents_def f upt_conv_Cons [OF zero_less_Suc] map_Suc_upt [symmetric] list.map map_map comp_def a
    by simp
qed

text \<open>Writing appends as much as there is room for; reading takes from the front.\<close>

lemma pipewrite_loop_ok:
  assumes "pipe_ok p" "pipewrite_loop killed bs p = (p', r, wake)"
  shows "pipe_ok p' \<and> p_readopen p' = p_readopen p \<and> p_writeopen p' = p_writeopen p \<and> p_nread p' = p_nread p
    \<and> (\<exists>cs ds. bs = cs @ ds \<and> contents p' = contents p @ cs
         \<and> (r = WrittenAll \<longrightarrow> ds = [] \<and> wake)
         \<and> (r = WriteFails \<longrightarrow> ds \<noteq> [] \<and> fill p' = PIPESIZE \<and> (\<not> p_readopen p \<or> killed))
         \<and> (\<forall>es. r = WriteSleeps es \<longrightarrow> es = ds \<and> ds \<noteq> [] \<and> fill p' = PIPESIZE \<and> p_readopen p \<and> \<not> killed \<and> wake))"
  using assms
proof (induction bs arbitrary: p)
  case Nil
  then show ?case by auto
next
  case (Cons b bs)
  show ?case
  proof (cases "p_nwrite p = p_nread p + of_nat PIPESIZE")
    case True
    then show ?thesis using Cons.prems fill_full [of p] by (auto split: if_splits)
  next
    case False
    let ?q = "p\<lparr>p_data := (p_data p)[unat (p_nwrite p) mod PIPESIZE := b], p_nwrite := p_nwrite p + 1\<rparr>"
    have "fill p < PIPESIZE" using False fill_full [of p] Cons.prems(1) by (auto simp: pipe_ok_def)
    note q = contents_put [OF Cons.prems(1) this, of b]
    have "pipewrite_loop killed bs ?q = (p', r, wake)" using Cons.prems(2) False by simp
    from Cons.IH [OF q(2) this] q(1) obtain cs ds where "bs = cs @ ds" "contents p' = contents p @ b # cs"
      "pipe_ok p'" "p_readopen p' = p_readopen p" "p_writeopen p' = p_writeopen p" "p_nread p' = p_nread p"
      "r = WrittenAll \<longrightarrow> ds = [] \<and> wake" "r = WriteFails \<longrightarrow> ds \<noteq> [] \<and> fill p' = PIPESIZE \<and> (\<not> p_readopen p \<or> killed)"
      "\<forall>es. r = WriteSleeps es \<longrightarrow> es = ds \<and> ds \<noteq> [] \<and> fill p' = PIPESIZE \<and> p_readopen p \<and> \<not> killed \<and> wake"
      by auto
    note k = this
    show ?thesis
    proof (intro conjI)
      show "\<exists>cs ds. b # bs = cs @ ds \<and> contents p' = contents p @ cs \<and> (r = WrittenAll \<longrightarrow> ds = [] \<and> wake)
         \<and> (r = WriteFails \<longrightarrow> ds \<noteq> [] \<and> fill p' = PIPESIZE \<and> (\<not> p_readopen p \<or> killed))
         \<and> (\<forall>es. r = WriteSleeps es \<longrightarrow> es = ds \<and> ds \<noteq> [] \<and> fill p' = PIPESIZE \<and> p_readopen p \<and> \<not> killed \<and> wake)"
        by (rule exI [of _ "b # cs"], rule exI [of _ ds]) (use k in auto)
    qed (use k in simp_all)
  qed
qed

lemma piperead_copy_ok:
  assumes "pipe_ok p" "piperead_copy n p = (bs, p')"
  shows "pipe_ok p' \<and> p_readopen p' = p_readopen p \<and> p_writeopen p' = p_writeopen p
    \<and> bs = take n (contents p) \<and> contents p' = drop n (contents p)"
  using assms
proof (induction n arbitrary: p bs p')
  case (Suc n)
  show ?case
  proof (cases "p_nread p = p_nwrite p")
    case True
    then have "contents p = []" using fill_empty [of p] by (simp add: contents_def)
    then show ?thesis using True Suc.prems by simp
  next
    case False
    then have "0 < fill p" using fill_empty [of p] by simp
    note g = contents_get [OF Suc.prems(1) this]
    obtain cs p1 where c: "piperead_copy n (p\<lparr>p_nread := p_nread p + 1\<rparr>) = (cs, p1)" by (rule prod.exhaust)
    show ?thesis using Suc.IH [OF g(2) c] Suc.prems(2) False c g(1) by auto
  qed
qed simp

section \<open>A writer and a reader\<close>

text \<open>
  Two processes that share a pipe, neither of them killed.  \<open>w_sent\<close> are the bytes
  passed to \<open>write\<close> so far, \<open>w_left\<close> those of the current call that are not in the
  pipe yet, \<open>r_got\<close> the bytes that \<open>read\<close> has delivered; a process that sleeps does
  not run until it is woken.
\<close>

record duo =
  d_pipe :: pipe
  w_sent :: "byte list"
  w_left :: "byte list"
  w_sleep :: bool
  r_got :: "byte list"
  r_sleep :: bool

inductive duo_step :: "duo \<Rightarrow> duo \<Rightarrow> bool" where
  call: "p_writeopen (d_pipe s) \<Longrightarrow> w_left s = [] \<Longrightarrow> duo_step s (s\<lparr>w_sent := w_sent s @ bs, w_left := bs\<rparr>)"
| write_all: "\<not> w_sleep s \<Longrightarrow> p_writeopen (d_pipe s) \<Longrightarrow> pipewrite False (w_left s) (d_pipe s) = (p, WrittenAll, wake) \<Longrightarrow>
    duo_step s (s\<lparr>d_pipe := p, w_left := [], r_sleep := (r_sleep s \<and> \<not> wake)\<rparr>)"
| write_part: "\<not> w_sleep s \<Longrightarrow> p_writeopen (d_pipe s) \<Longrightarrow> pipewrite False (w_left s) (d_pipe s) = (p, WriteSleeps bs, wake) \<Longrightarrow>
    duo_step s (s\<lparr>d_pipe := p, w_left := bs, w_sleep := True, r_sleep := (r_sleep s \<and> \<not> wake)\<rparr>)"
| read_some: "\<not> r_sleep s \<Longrightarrow> p_readopen (d_pipe s) \<Longrightarrow> piperead False n (d_pipe s) = (p, Got bs, wake) \<Longrightarrow>
    duo_step s (s\<lparr>d_pipe := p, r_got := r_got s @ bs, w_sleep := (w_sleep s \<and> \<not> wake)\<rparr>)"
| read_wait: "\<not> r_sleep s \<Longrightarrow> p_readopen (d_pipe s) \<Longrightarrow> piperead False n (d_pipe s) = (p, ReadSleeps, wake) \<Longrightarrow>
    duo_step s (s\<lparr>d_pipe := p, r_sleep := True\<rparr>)"
| close_writer: "w_left s = [] \<Longrightarrow> p_writeopen (d_pipe s) \<Longrightarrow> pipeclose True (d_pipe s) = (p, Nread, gone) \<Longrightarrow>
    duo_step s (s\<lparr>d_pipe := p, r_sleep := False\<rparr>)"

inductive duo_reach :: "duo \<Rightarrow> duo \<Rightarrow> bool" for s where
  start: "duo_reach s s"
| step: "duo_reach s t \<Longrightarrow> duo_step t u \<Longrightarrow> duo_reach s u"

definition duo_init :: "byte list \<Rightarrow> duo" where
  "duo_init page = \<lparr>d_pipe = pipe_new page, w_sent = [], w_left = [], w_sleep = False, r_got = [], r_sleep = False\<rparr>"

definition duo_ok :: "duo \<Rightarrow> bool" where
  "duo_ok s \<longleftrightarrow> pipe_ok (d_pipe s) \<and> p_readopen (d_pipe s) \<and> w_sent s = r_got s @ contents (d_pipe s) @ w_left s
     \<and> (w_sleep s \<longrightarrow> fill (d_pipe s) = PIPESIZE \<and> w_left s \<noteq> [])
     \<and> (r_sleep s \<longrightarrow> fill (d_pipe s) = 0 \<and> p_writeopen (d_pipe s))
     \<and> (w_left s \<noteq> [] \<longrightarrow> p_writeopen (d_pipe s))"

lemma duo_init_ok: "length page = PIPESIZE \<Longrightarrow> duo_ok (duo_init page)"
  by (simp add: duo_ok_def duo_init_def pipe_new_def pipe_ok_def fill_def contents_def)

lemma piperead_cases:
  assumes "pipe_ok p" "piperead False n p = (p', r, wake)"
  shows "(r = ReadSleeps \<and> p' = p \<and> fill p = 0 \<and> p_writeopen p)
    \<or> (r = Got (take (nat n) (contents p)) \<and> wake \<and> pipe_ok p' \<and> p_readopen p' = p_readopen p \<and> p_writeopen p' = p_writeopen p
         \<and> contents p' = drop (nat n) (contents p) \<and> (fill p = 0 \<longrightarrow> \<not> p_writeopen p))"
proof (cases "p_nread p = p_nwrite p \<and> p_writeopen p")
  case True
  then show ?thesis using assms(2) fill_empty [of p] by (simp add: piperead_def)
next
  case False
  obtain bs q where c: "piperead_copy (nat n) p = (bs, q)" by (rule prod.exhaust)
  then show ?thesis using piperead_copy_ok [OF assms(1) c] assms(2) False fill_empty [of p] by (auto simp: piperead_def)
qed

lemma duo_step_ok: "duo_step s s' \<Longrightarrow> duo_ok s \<Longrightarrow> duo_ok s'"
proof (induction rule: duo_step.induct)
  case (call s bs)
  then show ?case by (simp add: duo_ok_def)
next
  case (write_all s p wake)
  then show ?case using pipewrite_loop_ok [of "d_pipe s" False "w_left s" p WrittenAll wake]
    by (auto simp: duo_ok_def pipewrite_def)
next
  case (write_part s p bs wake)
  then show ?case using pipewrite_loop_ok [of "d_pipe s" False "w_left s" p "WriteSleeps bs" wake]
    by (auto simp: duo_ok_def pipewrite_def)
next
  case (read_some s n p bs wake)
  have k: "bs = take (nat n) (contents (d_pipe s))" "wake" "pipe_ok p" "p_readopen p" "p_writeopen p = p_writeopen (d_pipe s)"
    "contents p = drop (nat n) (contents (d_pipe s))"
    using piperead_cases [OF _ read_some(3)] read_some(4) by (auto simp: duo_ok_def)
  then show ?case using read_some(1,4) by (simp add: duo_ok_def)
next
  case (read_wait s n p wake)
  then show ?case using piperead_cases [OF _ read_wait(3)] by (auto simp: duo_ok_def)
next
  case (close_writer s p gone)
  then have "p = (d_pipe s)\<lparr>p_writeopen := False\<rparr>" by (simp add: pipeclose_def)
  then show ?case using close_writer by (simp add: duo_ok_def pipe_ok_def fill_def contents_def)
qed

lemma duo_reach_ok: "duo_reach s t \<Longrightarrow> duo_ok s \<Longrightarrow> duo_ok t"
  by (induction rule: duo_reach.induct) (auto intro: duo_step_ok)

lemma duo_reach_trans: "duo_reach t u \<Longrightarrow> duo_reach s t \<Longrightarrow> duo_reach s u"
  by (induction rule: duo_reach.induct) (auto intro: duo_reach.step)

text \<open>A step that delivers: the reader empties the pipe, or the writer moves bytes into an empty one.\<close>

lemma duo_progress:
  assumes "duo_ok s" "r_got s \<noteq> w_sent s"
  obtains t where "duo_step s t" "w_sent t = w_sent s"
    "length (contents (d_pipe t)) + 2 * length (w_left t) < length (contents (d_pipe s)) + 2 * length (w_left s)"
proof (cases "fill (d_pipe s) = 0")
  case False
  then have aw: "\<not> r_sleep s" and o: "p_readopen (d_pipe s)" and pk: "pipe_ok (d_pipe s)" using assms by (auto simp: duo_ok_def)
  obtain p r wake where rd: "piperead False 512 (d_pipe s) = (p, r, wake)" by (rule prod_cases3)
  have k: "r = Got (contents (d_pipe s))" "contents p = []"
    using piperead_cases [OF pk rd] False pk by (auto simp: pipe_ok_def)
  show ?thesis
    by (rule that [OF duo_step.read_some [OF aw o rd [unfolded k(1)]]]) (use k(2) False in \<open>simp_all\<close>)
next
  case True
  then have aw: "\<not> w_sleep s" and l: "w_left s \<noteq> []" and o: "p_writeopen (d_pipe s)" and pk: "pipe_ok (d_pipe s)"
    using assms by (auto simp: duo_ok_def contents_def)
  obtain p r wake where wr: "pipewrite False (w_left s) (d_pipe s) = (p, r, wake)" by (rule prod_cases3)
  note w = pipewrite_loop_ok [OF pk wr [unfolded pipewrite_def]]
  have c0: "contents (d_pipe s) = []" using True by (simp add: contents_def)
  show ?thesis
  proof (cases r)
    case WrittenAll
    show ?thesis
      by (rule that [OF duo_step.write_all [OF aw o wr [unfolded WrittenAll]]]) (use w WrittenAll c0 l in auto)
  next
    case (WriteSleeps ds)
    have "length (contents p) = 512" using w WriteSleeps by auto
    moreover obtain cs where "w_left s = cs @ ds" "contents p = cs" using w WriteSleeps c0 by auto
    ultimately show ?thesis
      by (intro that [OF duo_step.write_part [OF aw o wr [unfolded WriteSleeps]]]) simp_all
  next
    case WriteFails
    then show ?thesis using w assms by (auto simp: duo_ok_def)
  qed
qed

lemma duo_delivers:
  "duo_ok s \<Longrightarrow> \<exists>t. duo_reach s t \<and> w_sent t = w_sent s \<and> r_got t = w_sent s"
proof (induction "length (contents (d_pipe s)) + 2 * length (w_left s)" arbitrary: s rule: less_induct)
  case less
  show ?case
  proof (cases "r_got s = w_sent s")
    case True
    then show ?thesis by (auto intro: duo_reach.start)
  next
    case False
    obtain t where t: "duo_step s t" "w_sent t = w_sent s"
      "length (contents (d_pipe t)) + 2 * length (w_left t) < length (contents (d_pipe s)) + 2 * length (w_left s)"
      using duo_progress [OF less.prems False] by blast
    from less.hyps [OF t(3) duo_step_ok [OF t(1) less.prems]] t(2) obtain u where
      "duo_reach t u" "w_sent u = w_sent s" "r_got u = w_sent s" by auto
    then show ?thesis using duo_reach_trans duo_reach.step [OF duo_reach.start t(1)] by blast
  qed
qed

text \<open>
  C7. A pipe is a bounded queue that neither loses nor reorders bytes, also
  when its counters wrap around: in every interleaving of a writer and a
  reader the bytes delivered, those in the pipe (never more than 512) and those
  still to be written make up what was sent; a writer sleeps only on a full pipe
  and a reader only on an empty one, so they never sleep both.
\<close>

theorem pipe_fifo:
  assumes "length page = PIPESIZE" "duo_reach (duo_init page) s"
  shows "w_sent s = r_got s @ contents (d_pipe s) @ w_left s \<and> length (contents (d_pipe s)) \<le> PIPESIZE
    \<and> (w_sleep s \<longrightarrow> length (contents (d_pipe s)) = PIPESIZE) \<and> (r_sleep s \<longrightarrow> contents (d_pipe s) = [])
    \<and> \<not> (w_sleep s \<and> r_sleep s)"
  using duo_reach_ok [OF assms(2) duo_init_ok [OF assms(1)]]
  by (auto simp: duo_ok_def pipe_ok_def contents_def)

text \<open>
  C8. No sleeper is forgotten: from every state that a writer and a reader
  can reach, their awake processes can go on until everything sent has been
  delivered.
\<close>

theorem pipe_delivers:
  assumes "length page = PIPESIZE" "duo_reach (duo_init page) s"
  shows "\<exists>t. duo_reach s t \<and> w_sent t = w_sent s \<and> r_got t = w_sent s"
  by (rule duo_delivers [OF duo_reach_ok [OF assms(2) duo_init_ok [OF assms(1)]]])

theorem pipe_fifo_witness:
  "duo_reach (duo_init (replicate 512 0)) ((duo_init (replicate 512 0))\<lparr>w_sent := [7], w_left := [7]\<rparr>)
   \<and> [7] = [] @ contents (pipe_new (replicate 512 0)) @ [7 :: byte]"
proof -
  let ?i = "duo_init (replicate 512 0)"
  have "duo_step ?i (?i\<lparr>w_sent := w_sent ?i @ [7], w_left := [7]\<rparr>)"
    by (rule duo_step.call) (simp_all add: duo_init_def pipe_new_def)
  then have r: "duo_reach ?i (?i\<lparr>w_sent := [7], w_left := [7]\<rparr>)"
    by (intro duo_reach.step [OF duo_reach.start]) (simp add: duo_init_def)
  then show ?thesis using pipe_fifo [OF _ r] by (simp add: duo_init_def)
qed

theorem pipe_delivers_witness:
  "\<exists>t. duo_reach ((duo_init (replicate 512 0))\<lparr>w_sent := [7], w_left := [7]\<rparr>) t \<and> r_got t = [7 :: byte]"
proof -
  let ?i = "duo_init (replicate 512 0)"
  have "duo_step ?i (?i\<lparr>w_sent := w_sent ?i @ [7], w_left := [7]\<rparr>)"
    by (rule duo_step.call) (simp_all add: duo_init_def pipe_new_def)
  then have r: "duo_reach ?i (?i\<lparr>w_sent := [7], w_left := [7]\<rparr>)"
    by (intro duo_reach.step [OF duo_reach.start]) (simp add: duo_init_def)
  then show ?thesis using pipe_delivers [OF _ r] by auto
qed

end
