(* ===== verification/Proc_Table.thy ===== *)
theory Proc_Table
  imports Vm Pipe Layout
begin

text \<open>
  The process table (src/xv6/proc.h and the parts of src/xv6/proc.c that touch
  nothing but it and the memory): allocation, sleeping and waking, killing and
  the scheduler.  Each operation runs under \<open>ptable.lock\<close> and is one step of the
  model; what a process does after \<open>sched\<close> returns is a step of its own.
\<close>

section \<open>State\<close>

abbreviation KSTACKSIZE :: nat where "KSTACKSIZE \<equiv> 4096"

datatype procstate = UNUSED | EMBRYO | SLEEPING | RUNNABLE | RUNNING | ZOMBIE

record trapframe =
  tf_edi :: nat
  tf_esi :: nat
  tf_ebp :: nat
  tf_ebx :: nat
  tf_edx :: nat
  tf_ecx :: nat
  tf_eax :: nat
  tf_gs :: nat
  tf_fs :: nat
  tf_es :: nat
  tf_ds :: nat
  tf_trapno :: nat
  tf_err :: nat
  tf_eip :: nat
  tf_cs :: nat
  tf_eflags :: nat
  tf_esp :: nat
  tf_ss :: nat

definition tf_zero :: trapframe where
  "tf_zero = \<lparr>tf_edi = 0, tf_esi = 0, tf_ebp = 0, tf_ebx = 0, tf_edx = 0, tf_ecx = 0, tf_eax = 0, tf_gs = 0, tf_fs = 0,
     tf_es = 0, tf_ds = 0, tf_trapno = 0, tf_err = 0, tf_eip = 0, tf_cs = 0, tf_eflags = 0, tf_esp = 0, tf_ss = 0\<rparr>"

record kcontext =
  x_edi :: nat
  x_esi :: nat
  x_ebx :: nat
  x_ebp :: nat
  x_eip :: nat

text \<open>
  A channel is an address: of a process, of \<open>ticks\<close>, of a counter of a pipe, or
  of another object of the kernel.
\<close>

datatype chan = ProcChan nat | TicksChan | PipeChan nat pchan | OtherChan nat

text \<open>
  Processes are named by their index in \<open>ptable.proc\<close>, files by their index in
  the file table, inodes by their index in the inode cache.
\<close>

record proc =
  pr_sz :: nat
  pr_pgdir :: nat
  pr_kstack :: nat
  pr_state :: procstate
  pr_pid :: "32 word"
  pr_parent :: "nat option"
  pr_tf :: trapframe
  pr_context :: kcontext
  pr_chan :: "chan option"
  pr_killed :: bool
  pr_ofile :: "nat option list"
  pr_cwd :: "nat option"
  pr_name :: "byte list"
  pr_status :: "32 word"
  pr_guard :: nat

text \<open>
  \<open>cur\<close> is \<open>c->proc\<close> of the processor and \<open>scan\<close> the index that the loop of
  \<open>scheduler\<close> has reached; \<open>forkret_sym\<close> and \<open>trapret_sym\<close> are the addresses of
  \<open>forkret\<close> and \<open>trapret\<close>.
\<close>

record pstate = vstate +
  ptable :: "nat \<Rightarrow> proc"
  initproc :: "nat option"
  nextpid :: "32 word"
  cur :: "nat option"
  scan :: nat
  ticks :: "32 word"
  forkret_sym :: nat
  trapret_sym :: nat

definition upd_proc :: "nat \<Rightarrow> (proc \<Rightarrow> proc) \<Rightarrow> 'a pstate_scheme \<Rightarrow> 'a pstate_scheme" where
  "upd_proc p f s = s\<lparr>ptable := (ptable s)(p := f (ptable s p))\<rparr>"

definition myproc :: "'a pstate_scheme \<Rightarrow> nat option" where
  "myproc s = cur s"

section \<open>Allocation\<close>

definition find_proc :: "(proc \<Rightarrow> bool) \<Rightarrow> 'a pstate_scheme \<Rightarrow> nat option" where
  "find_proc P s = find (\<lambda>p. P (ptable s p)) [0..<NPROC]"

text \<open>
  The kernel stack holds, from its top down, the trap frame (76 bytes), the
  return address \<open>trapret\<close> and the context.  The trap frame gets its
  contents from the callers.
\<close>

definition allocproc :: "'a pstate_scheme \<Rightarrow> nat option \<times> 'a pstate_scheme" where
  "allocproc s =
     (case find_proc (\<lambda>p. pr_state p = UNUSED) s of
        None \<Rightarrow> (None, s)
      | Some p \<Rightarrow>
          let s = upd_proc p (\<lambda>r. r\<lparr>pr_state := EMBRYO, pr_pid := nextpid s\<rparr>) s;
              s = s\<lparr>nextpid := nextpid s + 1\<rparr> in
          (case kalloc s of (kstack, s) \<Rightarrow>
             let s = upd_proc p (\<lambda>r. r\<lparr>pr_kstack := kstack\<rparr>) s in
             if kstack = 0 then (None, upd_proc p (\<lambda>r. r\<lparr>pr_state := UNUSED\<rparr>) s)
             else
               let s = s\<lparr>kmem := stw (kstack + KSTACKSIZE - 76 - 4) (trapret_sym s) (kmem s)\<rparr> in
               (Some p, upd_proc p (\<lambda>r. r\<lparr>pr_context :=
                  \<lparr>x_edi = 0, x_esi = 0, x_ebx = 0, x_ebp = 0, x_eip = forkret_sym s\<rparr>\<rparr>) s)))"

definition growproc :: "int \<Rightarrow> 'a pstate_scheme \<Rightarrow> (int \<times> 'a pstate_scheme) res" where
  "growproc n s =
     (case cur s of
        None \<Rightarrow> Err Fault
      | Some p \<Rightarrow>
          let r = ptable s p; sz = pr_sz r; sz' = nat ((int sz + n) mod 2 ^ 32) in
          bindr (if n > 0 then bindr (allocuvm (pr_pgdir r) sz sz' s) (\<lambda>(sz, s). Ok (sz, sz \<noteq> 0, s))
                 else if n < 0 then bindr (deallocuvm (pr_pgdir r) sz sz' s) (\<lambda>(sz, s). Ok (sz, sz \<noteq> 0, s))
                 else Ok (sz, True, s))
            (\<lambda>(sz, ok, s).
               if \<not> ok then Ok (- 1, s)
               else Ok (0, (upd_proc p (\<lambda>r. r\<lparr>pr_sz := sz\<rparr>) s)\<lparr>cr3 := V2P (pr_pgdir r)\<rparr>)))"

section \<open>Scheduling\<close>

text \<open>One turn of the loop of \<open>wakeup1\<close>.\<close>

definition wake_at :: "chan \<Rightarrow> nat \<Rightarrow> 'a pstate_scheme \<Rightarrow> 'a pstate_scheme" where
  "wake_at ch p s =
     (if pr_state (ptable s p) = SLEEPING \<and> pr_chan (ptable s p) = Some ch
      then upd_proc p (\<lambda>r. r\<lparr>pr_state := RUNNABLE\<rparr>) s else s)"

definition wakeup1 :: "chan \<Rightarrow> 'a pstate_scheme \<Rightarrow> 'a pstate_scheme" where
  "wakeup1 ch s = fold (wake_at ch) [0..<NPROC] s"

definition wakeup :: "chan \<Rightarrow> 'a pstate_scheme \<Rightarrow> 'a pstate_scheme" where
  "wakeup ch s = wakeup1 ch s"

text \<open>
  \<open>sched\<close> gives the processor back to the loop of \<open>scheduler\<close>, which loads the
  kernel's page table and clears \<open>c->proc\<close>.
\<close>

definition sched :: "'a pstate_scheme \<Rightarrow> 'a pstate_scheme res" where
  "sched s =
     (case cur s of
        None \<Rightarrow> Err Fault
      | Some p \<Rightarrow>
          if pr_state (ptable s p) = RUNNING then Err (Panic ''sched running'')
          else Ok ((switchkvm s)\<lparr>cur := None\<rparr>))"

text \<open>
  One turn of the scheduler: it runs the next runnable process at or behind the
  index it has reached, or begins a new pass over the table.
\<close>

definition scheduler :: "'a pstate_scheme \<Rightarrow> 'a pstate_scheme res" where
  "scheduler s =
     (case find (\<lambda>p. pr_state (ptable s p) = RUNNABLE) [scan s..<NPROC] of
        None \<Rightarrow> Ok (s\<lparr>scan := 0\<rparr>)
      | Some p \<Rightarrow>
          bindr (switchuvm (Some (pr_kstack (ptable s p), pr_pgdir (ptable s p))) (s\<lparr>cur := Some p\<rparr>)) (\<lambda>s.
            Ok (upd_proc p (\<lambda>r. r\<lparr>pr_state := RUNNING\<rparr>) (s\<lparr>scan := p + 1\<rparr>))))"

definition yield :: "'a pstate_scheme \<Rightarrow> 'a pstate_scheme res" where
  "yield s = (case cur s of None \<Rightarrow> Err Fault | Some p \<Rightarrow> sched (upd_proc p (\<lambda>r. r\<lparr>pr_state := RUNNABLE\<rparr>) s))"

text \<open>\<open>sleep\<close> up to \<open>sched\<close>, and what it does once the process runs again.\<close>

definition sleep :: "chan \<Rightarrow> 'a pstate_scheme \<Rightarrow> 'a pstate_scheme res" where
  "sleep ch s =
     (case cur s of
        None \<Rightarrow> Err (Panic ''sleep'')
      | Some p \<Rightarrow> sched (upd_proc p (\<lambda>r. r\<lparr>pr_chan := Some ch, pr_state := SLEEPING\<rparr>) s))"

definition sleep_return :: "'a pstate_scheme \<Rightarrow> 'a pstate_scheme res" where
  "sleep_return s = (case cur s of None \<Rightarrow> Err Fault | Some p \<Rightarrow> Ok (upd_proc p (\<lambda>r. r\<lparr>pr_chan := None\<rparr>) s))"

definition kill :: "32 word \<Rightarrow> 'a pstate_scheme \<Rightarrow> int \<times> 'a pstate_scheme" where
  "kill pid s =
     (case find_proc (\<lambda>p. pr_pid p = pid) s of
        None \<Rightarrow> (- 1, s)
      | Some p \<Rightarrow>
          (0, upd_proc p (\<lambda>r. if pr_state r = SLEEPING then r\<lparr>pr_killed := True, pr_state := RUNNABLE\<rparr>
                              else r\<lparr>pr_killed := True\<rparr>) s))"

section \<open>Facts about the table\<close>

lemma upd_proc_simps [simp]:
  "ptable (upd_proc p f s) = (ptable s)(p := f (ptable s p))"
  "initproc (upd_proc p f s) = initproc s" "nextpid (upd_proc p f s) = nextpid s" "cur (upd_proc p f s) = cur s"
  "scan (upd_proc p f s) = scan s" "ticks (upd_proc p f s) = ticks s"
  "kmem (upd_proc p f s) = kmem s" "freelist (upd_proc p f s) = freelist s"
  by (simp_all add: upd_proc_def)

lemma find_procE:
  assumes "find_proc P s = Some p"
  shows "p < NPROC" "P (ptable s p)"
  using find_SomeD [OF assms [unfolded find_proc_def]] by auto

lemma find_proc_None: "find_proc P s = None \<longleftrightarrow> (\<forall>p < NPROC. \<not> P (ptable s p))"
  by (auto simp: find_proc_def find_None_iff)

text \<open>
  A step that only wakes: some sleepers become runnable.
\<close>

definition wakes :: "'a pstate_scheme \<Rightarrow> 'a pstate_scheme \<Rightarrow> bool" where
  "wakes s s' \<longleftrightarrow>
     (\<forall>p. ptable s' p = ptable s p \<or> pr_state (ptable s p) = SLEEPING \<and> ptable s' p = (ptable s p)\<lparr>pr_state := RUNNABLE\<rparr>)
     \<and> initproc s' = initproc s \<and> cur s' = cur s \<and> scan s' = scan s \<and> nextpid s' = nextpid s"

lemma wakes_refl [simp]: "wakes s s"
  by (simp add: wakes_def)

lemma wakes_trans:
  assumes "wakes s t" "wakes t u"
  shows "wakes s u"
proof -
  have "ptable u p = ptable s p \<or> pr_state (ptable s p) = SLEEPING \<and> ptable u p = (ptable s p)\<lparr>pr_state := RUNNABLE\<rparr>" for p
  proof -
    have "ptable t p = ptable s p \<or> pr_state (ptable s p) = SLEEPING \<and> ptable t p = (ptable s p)\<lparr>pr_state := RUNNABLE\<rparr>"
      "ptable u p = ptable t p \<or> pr_state (ptable t p) = SLEEPING \<and> ptable u p = (ptable t p)\<lparr>pr_state := RUNNABLE\<rparr>"
      using assms by (simp_all add: wakes_def)
    then show ?thesis by auto
  qed
  then show ?thesis using assms unfolding wakes_def by simp
qed

lemma wake_at_wakes: "wakes s (wake_at ch p s)"
  by (simp add: wakes_def wake_at_def)

lemma wakeup1_ptable:
  "ptable (fold (wake_at ch) ps s) p =
     (if p \<in> set ps \<and> pr_state (ptable s p) = SLEEPING \<and> pr_chan (ptable s p) = Some ch
      then (ptable s p)\<lparr>pr_state := RUNNABLE\<rparr> else ptable s p)"
  by (induction ps arbitrary: s) (auto simp: wake_at_def)

lemma wakeup1_wakes: "wakes s (wakeup1 ch s)"
proof -
  have "wakes s (fold (wake_at ch) ps s)" for ps
    by (induction ps arbitrary: s) (auto intro: wakes_trans wake_at_wakes)
  then show ?thesis by (simp add: wakeup1_def)
qed

end
