(* ===== verification/Vm_Spec.thy ===== *)
theory Vm_Spec
  imports Vm
begin

text \<open>
  What the page table operations do: the translation a page directory stands
  for, the invariant that keeps page directories, page tables, mapped frames
  and the free list apart, and the effect of mapping, growing and shrinking on
  both.
\<close>

section \<open>Arithmetic of entries\<close>

lemma or_flags:
  fixes a p :: nat
  assumes "a mod 4096 = 0" "p < 4096"
  shows "a OR p = a + p"
proof (rule disjunctive_add [symmetric])
  fix n
  have a: "a = push_bit 12 (a div 4096)" using assms(1) by (auto simp: push_bit_eq_mult)
  have p: "p = take_bit 12 p" using assms(2) by (simp add: take_bit_eq_mod)
  show "\<not> bit a n \<or> \<not> bit p n"
  proof (cases "n < 12")
    case True
    then show ?thesis by (subst a) (simp add: bit_push_bit_iff)
  next
    case False
    then have "\<not> bit p n" by (subst p) (simp add: bit_take_bit_iff)
    then show ?thesis by simp
  qed
qed

lemma V2P_aligned: "page_ok s v \<Longrightarrow> V2P v mod 4096 = 0"
proof -
  assume v: "page_ok s v"
  then obtain j where "v = 4096 * j" by (auto elim!: dvdE simp: page_ok_def mod_eq_0_iff_dvd)
  then have "V2P v = 4096 * (j - 524288)" using V2P_page [OF v] by (simp add: diff_mult_distrib2)
  then show ?thesis by simp
qed

lemma pte_addr:
  assumes "page_ok s v" "p < 4096"
  shows "P2V (PTE_ADDR (V2P v OR p)) = v" "bit (V2P v OR p) 0 = odd p" "V2P v OR p < 2 ^ 32"
    "PTE_ADDR (V2P v OR p) = V2P v" "V2P v OR p = V2P v + p"
proof -
  have e: "V2P v OR p = V2P v + p" using V2P_aligned [OF assms(1)] assms(2) by (rule or_flags)
  then show "V2P v OR p = V2P v + p" .
  obtain k where k: "V2P v = 4096 * k" using V2P_aligned [OF assms(1)] by (auto elim!: dvdE simp: mod_eq_0_iff_dvd)
  show "PTE_ADDR (V2P v OR p) = V2P v" unfolding e unfolding k using assms(2) by (simp add: PTE_ADDR_def)
  moreover have "P2V (V2P v) = v" using V2P_page [OF assms(1)] assms(1) by (simp add: P2V_def page_ok_def)
  ultimately show "P2V (PTE_ADDR (V2P v OR p)) = v" by simp
  show "bit (V2P v OR p) 0 = odd p" unfolding e unfolding k by (simp add: bit_0)
  show "V2P v OR p < 2 ^ 32" unfolding e using V2P_page [OF assms(1)] assms(2) by simp
qed

lemma PDX_lt [simp]: "PDX va < 1024" and PTX_lt [simp]: "PTX va < 1024"
  by (simp_all add: PDX_def PTX_def)

section \<open>Pages of memory\<close>

definition in_page :: "nat \<Rightarrow> nat \<Rightarrow> bool" where
  "in_page p a \<longleftrightarrow> p \<le> a \<and> a < p + PGSIZE"

definition same_but :: "nat set \<Rightarrow> mem \<Rightarrow> mem \<Rightarrow> bool" where
  "same_but P m m' \<longleftrightarrow> (\<forall>a. (\<forall>p \<in> P. \<not> in_page p a) \<longrightarrow> m' a = m a)"

lemma same_but_refl [simp]: "same_but P m m"
  by (simp add: same_but_def)

lemma same_but_trans: "same_but P m m' \<Longrightarrow> same_but Q m' m'' \<Longrightarrow> same_but (P \<union> Q) m m''"
  by (simp add: same_but_def)

lemma same_but_mono: "same_but P m m' \<Longrightarrow> P \<subseteq> Q \<Longrightarrow> same_but Q m m'"
  by (auto simp: same_but_def)

lemma same_but_stw: "i < 1024 \<Longrightarrow> same_but {p} m (stw (p + 4 * i) v m)"
  by (auto simp: same_but_def in_page_def intro!: stw_out)

lemma same_but_range: "n \<le> PGSIZE \<Longrightarrow> same_but {p} m (range_upd p n f m)"
  by (auto simp: same_but_def in_page_def range_upd_def)

lemma same_but_page:
  assumes "same_but P m m'" "\<forall>p \<in> P. p mod PGSIZE = 0" "q mod PGSIZE = 0" "q \<notin> P" "in_page q a"
  shows "m' a = m a"
proof -
  have "\<not> in_page p a" if "p \<in> P" for p
  proof -
    have "p \<noteq> q" "p mod PGSIZE = 0" using assms(2,4) that by auto
    from page_disjoint [OF this(2) assms(3) this(1)] show ?thesis using assms(5) by (auto simp: in_page_def)
  qed
  then show ?thesis using assms(1) by (auto simp: same_but_def)
qed

lemma same_but_ldw:
  assumes "same_but P m m'" "\<forall>p \<in> P. p mod PGSIZE = 0" "q mod PGSIZE = 0" "q \<notin> P" "i < 1024"
  shows "ldw m' (q + 4 * i) = ldw m (q + 4 * i)"
proof (rule ldw_cong, intro allI impI)
  fix x assume "q + 4 * i \<le> x \<and> x < q + 4 * i + 4"
  then have "in_page q x" using assms(5) by (auto simp: in_page_def)
  then show "m' x = m x" by (rule same_but_page [OF assms(1-4)])
qed

section \<open>The translation\<close>

definition pde :: "mem \<Rightarrow> nat \<Rightarrow> nat \<Rightarrow> nat" where
  "pde m d i = ldw m (d + 4 * i)"

definition present :: "mem \<Rightarrow> nat \<Rightarrow> nat \<Rightarrow> bool" where
  "present m d i \<longleftrightarrow> bit (pde m d i) 0"

definition tab :: "mem \<Rightarrow> nat \<Rightarrow> nat \<Rightarrow> nat" where
  "tab m d i = P2V (PTE_ADDR (pde m d i))"

definition tables :: "mem \<Rightarrow> nat \<Rightarrow> nat set" where
  "tables m d = tab m d ` {i. i < 1024 \<and> present m d i}"

text \<open>The entry for a virtual address, 0 when there is no page table for it.\<close>

definition pte_val :: "mem \<Rightarrow> nat \<Rightarrow> nat \<Rightarrow> nat" where
  "pte_val m d va = (if present m d (PDX va) then ldw m (tab m d (PDX va) + 4 * PTX va) else 0)"

definition vm_inv :: "'a vstate_scheme \<Rightarrow> nat list \<Rightarrow> nat \<Rightarrow> bool" where
  "vm_inv s xs d \<longleftrightarrow> kinv s xs \<and> page_ok s d \<and> d \<notin> set xs
     \<and> (\<forall>t \<in> tables (kmem s) d. page_ok s t \<and> t \<notin> set xs \<and> t \<noteq> d)
     \<and> (\<forall>i < 1024. \<forall>j < 1024. present (kmem s) d i \<and> present (kmem s) d j \<and> tab (kmem s) d i = tab (kmem s) d j \<longrightarrow> i = j)"

lemma page_ok_kmem [simp]: "page_ok (s\<lparr>kmem := m\<rparr>) = page_ok s" "page_ok (s\<lparr>freelist := r\<rparr>) = page_ok s"
  by (auto simp: page_ok_def)

lemma vm_invD:
  assumes "vm_inv s xs d"
  shows "kinv s xs" "page_ok s d" "d \<notin> set xs"
    "i < 1024 \<Longrightarrow> present (kmem s) d i \<Longrightarrow> page_ok s (tab (kmem s) d i) \<and> tab (kmem s) d i \<notin> set xs \<and> tab (kmem s) d i \<noteq> d"
    "i < 1024 \<Longrightarrow> j < 1024 \<Longrightarrow> present (kmem s) d i \<Longrightarrow> present (kmem s) d j \<Longrightarrow> tab (kmem s) d i = tab (kmem s) d j \<Longrightarrow> i = j"
proof -
  show "kinv s xs" "page_ok s d" "d \<notin> set xs" using assms by (simp_all add: vm_inv_def)
  show "page_ok s (tab (kmem s) d i) \<and> tab (kmem s) d i \<notin> set xs \<and> tab (kmem s) d i \<noteq> d"
    if i: "i < 1024" "present (kmem s) d i"
  proof -
    have "tab (kmem s) d i \<in> tables (kmem s) d" unfolding tables_def using i by blast
    then show ?thesis using assms unfolding vm_inv_def by blast
  qed
  show "i < 1024 \<Longrightarrow> j < 1024 \<Longrightarrow> present (kmem s) d i \<Longrightarrow> present (kmem s) d j \<Longrightarrow> tab (kmem s) d i = tab (kmem s) d j \<Longrightarrow> i = j"
    using assms unfolding vm_inv_def by blast
qed

text \<open>Changes outside the page directory leave its entries.\<close>

lemma pde_same:
  assumes "same_but P m m'" "\<forall>p \<in> P. p mod PGSIZE = 0" "d mod PGSIZE = 0" "d \<notin> P" "i < 1024"
  shows "pde m' d i = pde m d i" "present m' d i = present m d i" "tab m' d i = tab m d i"
  using same_but_ldw [OF assms] by (simp_all add: pde_def present_def tab_def)

text \<open>Changes outside the page directory, its page tables and the free pages keep the invariant and the translation.\<close>

lemma vm_inv_same:
  assumes "vm_inv s xs d" "same_but P (kmem s) m" "\<forall>p \<in> P. p mod PGSIZE = 0" "P \<inter> ({d} \<union> tables (kmem s) d \<union> set xs) = {}"
  shows "vm_inv (s\<lparr>kmem := m\<rparr>) xs d" "pte_val m d va = pte_val (kmem s) d va" "tables m d = tables (kmem s) d"
proof -
  note I = vm_invD [OF assms(1)]
  have d: "d mod PGSIZE = 0" "d \<notin> P" using I(2) assms(4) by (auto simp: page_ok_def)
  note p = pde_same [OF assms(2,3) d]
  show t: "tables m d = tables (kmem s) d" unfolding tables_def using p by (intro image_cong) auto
  have "kinv (s\<lparr>kmem := m\<rparr>) xs"
  proof (rule kinv_mem [OF I(1)], intro ballI allI impI)
    fix x a assume "x \<in> set xs" "x \<le> a \<and> a < x + PGSIZE"
    then show "m a = kmem s a" using I(1) assms(4)
      by (intro same_but_page [OF assms(2,3), of x]) (auto simp: in_page_def kinv_def page_ok_def)
  qed
  then show "vm_inv (s\<lparr>kmem := m\<rparr>) xs d" using I assms(1) t p unfolding vm_inv_def by simp
  show "pte_val m d va = pte_val (kmem s) d va"
  proof (cases "present (kmem s) d (PDX va)")
    case True
    then have "tab (kmem s) d (PDX va) \<in> tables (kmem s) d" unfolding tables_def using PDX_lt by blast
    then have "ldw m (tab (kmem s) d (PDX va) + 4 * PTX va) = ldw (kmem s) (tab (kmem s) d (PDX va) + 4 * PTX va)"
      using I(4) [OF PDX_lt True] assms(4) by (intro same_but_ldw [OF assms(2,3)]) (auto simp: page_ok_def)
    then show ?thesis using True p [OF PDX_lt] by (simp add: pte_val_def)
  qed (use p [OF PDX_lt] in \<open>simp add: pte_val_def\<close>)
qed

section \<open>Walking\<close>

lemma walk_present:
  "present (kmem s) d (PDX va) \<Longrightarrow> walkpgdir d va alloc s = (tab (kmem s) d (PDX va) + 4 * PTX va, s)"
  by (simp add: walkpgdir_def present_def pde_def tab_def)

lemma walk_absent: "\<not> present (kmem s) d (PDX va) \<Longrightarrow> walkpgdir d va False s = (0, s)"
  by (simp add: walkpgdir_def present_def pde_def)

lemma walk_full: "\<not> present (kmem s) d (PDX va) \<Longrightarrow> kinv s [] \<Longrightarrow> walkpgdir d va True s = (0, s)"
  by (simp add: walkpgdir_def present_def pde_def kalloc_Nil)

text \<open>A new page table.\<close>

lemma walk_new:
  assumes "vm_inv s (x # xs) d" "\<not> present (kmem s) d (PDX va)"
  obtains m where "walkpgdir d va True s = (x + 4 * PTX va, s\<lparr>kmem := m, freelist := freelist (snd (kalloc s))\<rparr>)"
    "vm_inv (s\<lparr>kmem := m, freelist := freelist (snd (kalloc s))\<rparr>) xs d" "present m d (PDX va)" "tab m d (PDX va) = x"
    "\<And>va'. pte_val m d va' = pte_val (kmem s) d va'" "same_but {d, x} (kmem s) m" "tables m d = insert x (tables (kmem s) d)"
proof -
  note I = vm_invD [OF assms(1)]
  let ?i = "PDX va" and ?k = "kmem s"
  define m1 where "m1 = range_upd x PGSIZE (\<lambda>_. 0) ?k"
  define m where "m = stw (d + 4 * ?i) (V2P x OR 7) m1"
  have x: "page_ok s x" "x \<noteq> d" "x \<notin> set xs" "x \<notin> tables ?k d" using assms(1) I(1,3) by (auto simp: vm_inv_def kinv_def)
  have dm: "d mod PGSIZE = 0" "x mod PGSIZE = 0" using I(2) x by (auto simp: page_ok_def)
  note w = pte_addr [OF x(1), of 7]
  have s1: "same_but {x} ?k m1" unfolding m1_def by (rule same_but_range) simp
  have s2: "same_but {d} m1 m" unfolding m_def by (rule same_but_stw) simp
  have sm: "same_but {d, x} ?k m" using same_but_trans [OF s1 s2] by (simp add: insert_commute)
  have wk: "walkpgdir d va True s = (x + 4 * PTX va, s\<lparr>kmem := m, freelist := freelist (snd (kalloc s))\<rparr>)"
    using assms(2) kalloc_Cons [OF I(1)] x(1)
    by (auto simp: walkpgdir_def present_def pde_def page_ok_def m_def m1_def memset_eq Let_def)
  have pm1: "pde m1 d i = pde ?k d i" if "i < 1024" for i using pde_same(1) [OF s1] dm x that by simp
  have pi: "pde m d ?i = V2P x OR 7" using w(3) by (simp add: pde_def m_def ldw_stw)
  have po: "pde m d i = pde ?k d i" if "i < 1024" "i \<noteq> ?i" for i
    using pm1 [OF that(1)] that(2) unfolding pde_def m_def by (subst ldw_stw_other) auto
  have pr: "present m d ?i" "tab m d ?i = x" using pi w by (simp_all add: present_def tab_def)
  have ot: "present m d i = present ?k d i" "tab m d i = tab ?k d i" if "i < 1024" "i \<noteq> ?i" for i
    using po [OF that] by (simp_all add: present_def tab_def)
  have "{i. i < 1024 \<and> present m d i} = insert ?i {i. i < 1024 \<and> present ?k d i}" using pr ot by (auto; metis)
  then have tb: "tables m d = insert x (tables ?k d)"
  proof -
    have "tab m d ` {i. i < 1024 \<and> present ?k d i} = tab ?k d ` {i. i < 1024 \<and> present ?k d i}"
      using ot assms(2) by (intro image_cong) auto
    then show ?thesis unfolding tables_def \<open>{i. i < 1024 \<and> present m d i} = _\<close> by (simp add: pr)
  qed
  have pv: "pte_val m d va' = pte_val ?k d va'" for va'
  proof (cases "PDX va' = ?i")
    case True
    have "ldw m (x + 4 * PTX va') = ldw m1 (x + 4 * PTX va')" using dm x(2) by (intro same_but_ldw [OF s2]) auto
    also have "\<dots> = 0" unfolding m1_def using PTX_lt [of va'] by (intro ldw_range_upd_0; linarith)
    finally show ?thesis using True pr assms(2) by (simp add: pte_val_def)
  next
    case False
    show ?thesis
    proof (cases "present ?k d (PDX va')")
      case True
      have "ldw m (tab ?k d (PDX va') + 4 * PTX va') = ldw ?k (tab ?k d (PDX va') + 4 * PTX va')"
        using I(4) [OF PDX_lt True] dm by (intro same_but_ldw [OF sm]) (auto simp: page_ok_def)
      then show ?thesis using ot [OF PDX_lt False] by (simp add: pte_val_def)
    qed (use ot [OF PDX_lt False] in \<open>simp add: pte_val_def\<close>)
  qed
  have "kinv (s\<lparr>kmem := m, freelist := freelist (snd (kalloc s))\<rparr>) xs"
  proof -
    let ?s = "s\<lparr>freelist := freelist (snd (kalloc s))\<rparr>"
    have k: "kinv ?s xs" using kalloc_Cons [OF I(1)] by simp
    have "m a = kmem ?s a" if "y \<in> set xs" "y \<le> a \<and> a < y + PGSIZE" for y a
    proof -
      have "y mod PGSIZE = 0" "y \<notin> {d, x}" using that(1) I(1,3) x(3) by (auto simp: kinv_def page_ok_def)
      then have "m a = ?k a" using that(2) dm by (intro same_but_page [OF sm]) (auto simp: in_page_def)
      then show ?thesis by simp
    qed
    then have "kinv (?s\<lparr>kmem := m\<rparr>) xs" by (intro kinv_mem [OF k]) blast
    then show ?thesis by (simp add: kinv_def page_ok_def)
  qed
  moreover have "i = j" if "i < 1024" "j < 1024" "present m d i" "present m d j" "tab m d i = tab m d j" for i j
  proof -
    have "tab ?k d k \<noteq> x" if "k < 1024" "present ?k d k" for k using x(4) that unfolding tables_def by blast
    then show ?thesis using that ot pr I(5) by (cases "i = ?i"; cases "j = ?i") metis+
  qed
  ultimately have "vm_inv (s\<lparr>kmem := m, freelist := freelist (snd (kalloc s))\<rparr>) xs d"
    using assms(1) x unfolding vm_inv_def by (auto simp: tb)
  then show thesis using that wk pr pv sm tb by blast
qed

text \<open>Storing an entry.\<close>

lemma page_eqI: "PDX va = PDX va' \<Longrightarrow> PTX va = PTX va' \<Longrightarrow> va < 2 ^ 32 \<Longrightarrow> va' < 2 ^ 32 \<Longrightarrow> va div PGSIZE = va' div PGSIZE"
proof -
  assume a: "PDX va = PDX va'" "PTX va = PTX va'" "va < 2 ^ 32" "va' < 2 ^ 32"
  have e: "v div PGSIZE = PDX v * 1024 + PTX v" if "v < 2 ^ 32" for v
  proof -
    have "v div 2 ^ 22 = v div PGSIZE div 1024" by (simp flip: div_mult2_eq)
    moreover have "v div 2 ^ 22 < 1024" using that by (simp add: less_mult_imp_div_less)
    ultimately show ?thesis by (simp add: PDX_def PTX_def)
  qed
  show ?thesis using a by (simp add: e)
qed

lemma PDX_PTX_page: "va div PGSIZE = va' div PGSIZE \<Longrightarrow> PDX va = PDX va' \<and> PTX va = PTX va'"
proof -
  have "v div 2 ^ 22 = v div PGSIZE div 1024" for v :: nat by (simp flip: div_mult2_eq)
  then show "va div PGSIZE = va' div PGSIZE \<Longrightarrow> PDX va = PDX va' \<and> PTX va = PTX va'"
    unfolding PDX_def PTX_def by simp
qed

lemma store_pte:
  assumes "vm_inv s xs d" "present (kmem s) d (PDX va)" "va < 2 ^ 32" "v < 2 ^ 32"
  defines "m \<equiv> stw (tab (kmem s) d (PDX va) + 4 * PTX va) v (kmem s)"
  shows "vm_inv (s\<lparr>kmem := m\<rparr>) xs d" "tables m d = tables (kmem s) d" "same_but {tab (kmem s) d (PDX va)} (kmem s) m"
    "va' < 2 ^ 32 \<Longrightarrow> pte_val m d va' = (if va' div PGSIZE = va div PGSIZE then v else pte_val (kmem s) d va')"
    "i < 1024 \<Longrightarrow> present m d i = present (kmem s) d i \<and> tab m d i = tab (kmem s) d i"
proof -
  note I = vm_invD [OF assms(1)]
  let ?k = "kmem s" and ?t = "tab (kmem s) d (PDX va)"
  have t: "page_ok s ?t" "?t \<notin> set xs" "?t \<noteq> d" using I(4) [OF PDX_lt assms(2)] by auto
  have tm: "?t mod PGSIZE = 0" "d mod PGSIZE = 0" using t I(2) by (auto simp: page_ok_def)
  show sm: "same_but {?t} ?k m" unfolding m_def by (rule same_but_stw) simp
  have pd: "present m d i = present ?k d i" "tab m d i = tab ?k d i" if "i < 1024" for i
    using pde_same [OF sm _ tm(2) _ that] tm(1) t(3) by auto
  then show "i < 1024 \<Longrightarrow> present m d i = present ?k d i \<and> tab m d i = tab ?k d i" by simp
  show tb: "tables m d = tables ?k d" unfolding tables_def using pd by (intro image_cong) auto
  have "kinv (s\<lparr>kmem := m\<rparr>) xs"
  proof (rule kinv_mem [OF I(1)], intro ballI allI impI)
    fix x a assume "x \<in> set xs" "x \<le> a \<and> a < x + PGSIZE"
    then show "m a = ?k a" using I(1) t(2) tm
      by (intro same_but_page [OF sm, of x]) (auto simp: in_page_def kinv_def page_ok_def)
  qed
  then show "vm_inv (s\<lparr>kmem := m\<rparr>) xs d" using assms(1) tb pd unfolding vm_inv_def by simp
  show "pte_val m d va' = (if va' div PGSIZE = va div PGSIZE then v else pte_val ?k d va')" if va': "va' < 2 ^ 32"
  proof (cases "va' div PGSIZE = va div PGSIZE")
    case True
    then show ?thesis using PDX_PTX_page [OF True] assms(2,4) pd by (simp add: pte_val_def m_def ldw_stw)
  next
    case False
    have "ldw m (tab ?k d (PDX va') + 4 * PTX va') = ldw ?k (tab ?k d (PDX va') + 4 * PTX va')" if p: "present ?k d (PDX va')"
    proof (cases "PDX va' = PDX va")
      case True
      then have "PTX va' \<noteq> PTX va" using False page_eqI [OF _ _ va' assms(3)] by auto
      then show ?thesis using True unfolding m_def by (intro ldw_stw_other) auto
    next
      case False
      then have "tab ?k d (PDX va') \<noteq> ?t" using I(5) [OF PDX_lt PDX_lt p assms(2)] by blast
      then show ?thesis using I(4) [OF PDX_lt p] tm by (intro same_but_ldw [OF sm]) (auto simp: page_ok_def)
    qed
    then show ?thesis using False pd by (simp add: pte_val_def)
  qed
qed

section \<open>Steps on memory and the free list\<close>

definition with_mem :: "mem \<Rightarrow> nat \<Rightarrow> 'a vstate_scheme \<Rightarrow> 'a vstate_scheme" where
  "with_mem m r s = s\<lparr>kmem := m, freelist := r\<rparr>"

lemma with_mem_simps [simp]:
  "kmem (with_mem m r s) = m" "freelist (with_mem m r s) = r" "page_ok (with_mem m r s) = page_ok s"
  "(with_mem m r s)\<lparr>kmem := m'\<rparr> = with_mem m' r s" "with_mem m r (with_mem m' r' s) = with_mem m r s"
  "(with_mem m r s)\<lparr>freelist := r'\<rparr> = with_mem m r' s"
  by (auto simp: with_mem_def page_ok_def)

lemma with_mem_same: "s\<lparr>kmem := m\<rparr> = with_mem m (freelist s) s" "s\<lparr>freelist := r\<rparr> = with_mem (kmem s) r s"
  "s\<lparr>freelist := r, kmem := m\<rparr> = with_mem m r s" "with_mem (kmem s) (freelist s) s = s"
  by (simp_all add: with_mem_def)

definition mem_step :: "nat set \<Rightarrow> 'a vstate_scheme \<Rightarrow> 'a vstate_scheme \<Rightarrow> bool" where
  "mem_step P s s' \<longleftrightarrow> s' = with_mem (kmem s') (freelist s') s \<and> same_but P (kmem s) (kmem s')"

lemma mem_step_with_mem: "mem_step P s (with_mem m r s) \<longleftrightarrow> same_but P (kmem s) m"
  by (simp add: mem_step_def)

lemma mem_step_refl [simp]: "mem_step P s s"
  by (simp add: mem_step_def with_mem_same)

lemma mem_step_page_ok: "mem_step P s s' \<Longrightarrow> page_ok s' = page_ok s"
  unfolding mem_step_def by (metis with_mem_simps(3))

lemma mem_step_trans: "mem_step P s s' \<Longrightarrow> mem_step Q s' s'' \<Longrightarrow> mem_step (P \<union> Q) s s''"
  unfolding mem_step_def by (metis same_but_trans with_mem_simps(5))

lemma mem_step_mono: "mem_step P s s' \<Longrightarrow> P \<subseteq> Q \<Longrightarrow> mem_step Q s s'"
  by (auto simp: mem_step_def intro: same_but_mono)

text \<open>Walking with allocation, in one statement.\<close>

lemma walk_alloc:
  assumes "vm_inv s xs d" "present (kmem s) d (PDX va) \<or> xs \<noteq> []"
  obtains s' ys where "walkpgdir d va True s = (tab (kmem s') d (PDX va) + 4 * PTX va, s')"
    "vm_inv s' ys d" "present (kmem s') d (PDX va)" "tab (kmem s') d (PDX va) \<noteq> 0"
    "\<And>va'. pte_val (kmem s') d va' = pte_val (kmem s) d va'" "mem_step (insert d (set xs)) s s'"
    "xs = ys \<or> (\<exists>x. xs = x # ys)" "set ys \<union> tables (kmem s') d = set xs \<union> tables (kmem s) d"
proof (cases "present (kmem s) d (PDX va)")
  case True
  then have "tab (kmem s) d (PDX va) \<noteq> 0" using vm_invD(4) [OF assms(1) PDX_lt True] by (auto simp: page_ok_def)
  then show thesis using that [of s xs] walk_present [OF True] assms(1) True by simp
next
  case False
  then obtain x ys where xs: "xs = x # ys" using assms(2) by (cases xs) auto
  have "x \<noteq> 0" using vm_invD(1) [OF assms(1)] xs by (auto simp: kinv_def page_ok_def)
  from walk_new [OF assms(1) [unfolded xs] False, folded with_mem_def] obtain m where m:
    "walkpgdir d va True s = (x + 4 * PTX va, with_mem m (freelist (snd (kalloc s))) s)"
    "vm_inv (with_mem m (freelist (snd (kalloc s))) s) ys d" "present m d (PDX va)" "tab m d (PDX va) = x"
    "\<And>va'. pte_val m d va' = pte_val (kmem s) d va'" "same_but {d, x} (kmem s) m" "tables m d = insert x (tables (kmem s) d)"
    by metis
  have "same_but (insert d (set xs)) (kmem s) m" using m(6) xs by (auto intro: same_but_mono)
  then show thesis using that [of "with_mem m (freelist (snd (kalloc s))) s" ys] m xs \<open>x \<noteq> 0\<close> by (auto simp: mem_step_with_mem)
qed

section \<open>Mapping\<close>

text \<open>One page: the step of the loop.\<close>

lemma map_step:
  assumes "vm_inv s xs d" "present (kmem s) d (PDX a) \<or> xs \<noteq> []" "a < 2 ^ 32" "\<not> bit (pte_val (kmem s) d a) 0" "v < 2 ^ 32"
  obtains pte s1 s' ys where "walkpgdir d a True s = (pte, s1)" "pte \<noteq> 0" "\<not> bit (ldw (kmem s1) pte) 0"
    "s' = s1\<lparr>kmem := stw pte v (kmem s1)\<rparr>" "vm_inv s' ys d"
    "\<And>va. va < 2 ^ 32 \<Longrightarrow> pte_val (kmem s') d va = (if va div PGSIZE = a div PGSIZE then v else pte_val (kmem s) d va)"
    "mem_step (insert d (set xs \<union> tables (kmem s) d)) s s'" "xs = ys \<or> (\<exists>x. xs = x # ys)"
    "set ys \<union> tables (kmem s') d = set xs \<union> tables (kmem s) d"
proof -
  obtain s1 ys where w: "walkpgdir d a True s = (tab (kmem s1) d (PDX a) + 4 * PTX a, s1)"
    "vm_inv s1 ys d" "present (kmem s1) d (PDX a)" "tab (kmem s1) d (PDX a) \<noteq> 0"
    "\<And>va'. pte_val (kmem s1) d va' = pte_val (kmem s) d va'" "mem_step (insert d (set xs)) s s1"
    "xs = ys \<or> (\<exists>x. xs = x # ys)" "set ys \<union> tables (kmem s1) d = set xs \<union> tables (kmem s) d"
    using walk_alloc [OF assms(1,2)] by metis
  let ?pte = "tab (kmem s1) d (PDX a) + 4 * PTX a"
  define s' where "s' = s1\<lparr>kmem := stw ?pte v (kmem s1)\<rparr>"
  note st = store_pte [OF w(2,3) assms(3,5)]
  have nb: "\<not> bit (ldw (kmem s1) ?pte) 0" using w(3) w(5) [of a] assms(4) by (simp add: pte_val_def)
  have ms: "mem_step {tab (kmem s1) d (PDX a)} s1 s'" using st(3) by (simp add: s'_def with_mem_same mem_step_with_mem)
  have "tab (kmem s1) d (PDX a) \<in> set xs \<union> tables (kmem s) d"
    using w(3,8) PDX_lt unfolding tables_def by blast
  then have "mem_step (insert d (set xs \<union> tables (kmem s) d)) s s'"
    by (intro mem_step_mono [OF mem_step_trans [OF w(6) ms]]) auto
  moreover have "pte_val (kmem s') d va = (if va div PGSIZE = a div PGSIZE then v else pte_val (kmem s) d va)" if "va < 2 ^ 32" for va
    using st(4) [OF that] w(5) by (simp add: s'_def)
  ultimately show thesis
    using w(1,4,7,8) nb st(1,2) by (intro that [of ?pte s1 s' ys]) (simp_all add: s'_def)
qed

lemma flags_lt:
  fixes pa perm :: nat
  assumes "pa mod PGSIZE = 0" "pa < 2 ^ 32" "perm < PGSIZE"
  shows "pa OR perm OR PTE_P < 2 ^ 32" "perm OR PTE_P < PGSIZE"
proof -
  have p: "perm = take_bit 12 perm" "(1 :: nat) = take_bit 12 1" using assms(3) by (simp_all add: take_bit_eq_mod)
  then have "perm OR 1 = take_bit 12 (perm OR 1)" by (metis take_bit_or)
  then show l: "perm OR PTE_P < PGSIZE" by (simp add: take_bit_eq_mod)
  obtain k where "pa = PGSIZE * k" using assms(1) by (auto elim!: dvdE simp: mod_eq_0_iff_dvd)
  then have "pa + PGSIZE \<le> 2 ^ 32" using assms(2) by simp
  then show "pa OR perm OR PTE_P < 2 ^ 32" using or_flags [OF assms(1) l] l by simp
qed

lemma same_page: "a mod PGSIZE = 0 \<Longrightarrow> va div PGSIZE = a div PGSIZE \<longleftrightarrow> a \<le> va \<and> va < a + PGSIZE"
proof -
  assume "a mod PGSIZE = 0"
  then obtain k where k: "a = PGSIZE * k" by (auto elim!: dvdE simp: mod_eq_0_iff_dvd)
  have "va div PGSIZE = k \<longleftrightarrow> PGSIZE * k \<le> va \<and> va < PGSIZE * k + PGSIZE"
    using div_mult_mod_eq [of va PGSIZE] mod_less_divisor [of PGSIZE va] by (auto simp: div_nat_eqI)
  then show ?thesis by (simp add: k)
qed

lemma aligned_div_eq: "v mod PGSIZE = 0 \<Longrightarrow> a mod PGSIZE = 0 \<Longrightarrow> v div PGSIZE = a div PGSIZE \<longleftrightarrow> v = a"
  by (metis div_mult_mod_eq)

text \<open>The entries after mapping \<open>n + 1\<close> pages.\<close>

definition mapped_to :: "mem \<Rightarrow> mem \<Rightarrow> nat \<Rightarrow> nat \<Rightarrow> nat \<Rightarrow> nat \<Rightarrow> nat \<Rightarrow> bool" where
  "mapped_to m m' d a n pa perm \<longleftrightarrow> (\<forall>va < 2 ^ 32. pte_val m' d va =
     (if a \<le> va \<and> va < a + PGSIZE * n then (pa + PGSIZE * ((va - a) div PGSIZE)) OR perm OR PTE_P else pte_val m d va))"

lemma mapped_to_Suc:
  assumes "\<And>va. va < 2 ^ 32 \<Longrightarrow> pte_val m1 d va = (if va div PGSIZE = a div PGSIZE then pa OR perm OR PTE_P else pte_val m d va)"
    "mapped_to m1 m' d (a + PGSIZE) n (pa + PGSIZE) perm" "a mod PGSIZE = 0"
  shows "mapped_to m m' d a (Suc n) pa perm"
  unfolding mapped_to_def
proof (intro allI impI)
  fix va :: nat assume va: "va < 2 ^ 32"
  note m' = assms(2) [unfolded mapped_to_def, rule_format, OF va] and m1 = assms(1) [OF va, unfolded same_page [OF assms(3)]]
  consider "va < a" | "a \<le> va" "va < a + PGSIZE" | "a + PGSIZE \<le> va" by linarith
  then show "pte_val m' d va = (if a \<le> va \<and> va < a + PGSIZE * Suc n
      then (pa + PGSIZE * ((va - a) div PGSIZE)) OR perm OR PTE_P else pte_val m d va)"
  proof cases
    case 2
    then have "(va - a) div PGSIZE = 0" by simp
    then show ?thesis using 2 m' m1 by simp
  next
    case 3
    then obtain y where "va = a + PGSIZE + y" using le_iff_add by blast
    then have "(va - a) div PGSIZE = Suc ((va - (a + PGSIZE)) div PGSIZE)" by simp
    then show ?thesis using m' m1 3 by (simp add: add.assoc)
  qed (use m' m1 in simp)
qed

lemma mappages_loop_ok:
  assumes "vm_inv s xs d" "n < length xs" "n < fuel" "a mod PGSIZE = 0" "a + PGSIZE * n < 2 ^ 32" "pa mod PGSIZE = 0"
    "pa + PGSIZE * n < 2 ^ 32" "perm < PGSIZE" "\<forall>k \<le> n. \<not> bit (pte_val (kmem s) d (a + PGSIZE * k)) 0"
  shows "\<exists>s' ys. mappages_loop fuel d a (a + PGSIZE * n) pa perm s = Ok (0, s') \<and> vm_inv s' ys d
    \<and> mapped_to (kmem s) (kmem s') d a (Suc n) pa perm
    \<and> mem_step (insert d (set xs \<union> tables (kmem s) d)) s s' \<and> set ys \<union> tables (kmem s') d = set xs \<union> tables (kmem s) d
    \<and> length xs \<le> length ys + n + 1"
  using assms
proof (induction n arbitrary: s xs fuel a pa)
  case 0
  then obtain f where f: "fuel = Suc f" by (cases fuel) auto
  have x: "present (kmem s) d (PDX a) \<or> xs \<noteq> []" using 0(2) by auto
  have b: "a < 2 ^ 32" "pa < 2 ^ 32" "\<not> bit (pte_val (kmem s) d a) 0" using 0 by auto
  obtain pte s1 s' ys where st: "walkpgdir d a True s = (pte, s1)" "pte \<noteq> 0" "\<not> bit (ldw (kmem s1) pte) 0"
    "s' = s1\<lparr>kmem := stw pte (pa OR perm OR PTE_P) (kmem s1)\<rparr>" "vm_inv s' ys d"
    "\<And>va. va < 2 ^ 32 \<Longrightarrow> pte_val (kmem s') d va = (if va div PGSIZE = a div PGSIZE then pa OR perm OR PTE_P else pte_val (kmem s) d va)"
    "mem_step (insert d (set xs \<union> tables (kmem s) d)) s s'" "xs = ys \<or> (\<exists>x. xs = x # ys)"
    "set ys \<union> tables (kmem s') d = set xs \<union> tables (kmem s) d"
    using map_step [OF 0(1) x b(1,3) flags_lt(1) [OF 0(6) b(2) 0(8)]] by metis
  have "mapped_to (kmem s') (kmem s') d (a + PGSIZE) 0 (pa + PGSIZE) perm" by (simp add: mapped_to_def)
  from mapped_to_Suc [OF st(6) this 0(4)] show ?case using st f by (intro exI [of _ s'] exI [of _ ys]) auto
next
  case (Suc n)
  then obtain f where f: "fuel = Suc f" by (cases fuel) auto
  have x: "present (kmem s) d (PDX a) \<or> xs \<noteq> []" using Suc.prems(2) by auto
  have b: "a < 2 ^ 32" "pa < 2 ^ 32" "\<not> bit (pte_val (kmem s) d a) 0" using Suc.prems(5,7) spec [OF Suc.prems(9), of 0] by auto
  obtain pte s1 s2 ys where st: "walkpgdir d a True s = (pte, s1)" "pte \<noteq> 0" "\<not> bit (ldw (kmem s1) pte) 0"
    "s2 = s1\<lparr>kmem := stw pte (pa OR perm OR PTE_P) (kmem s1)\<rparr>" "vm_inv s2 ys d"
    "\<And>va. va < 2 ^ 32 \<Longrightarrow> pte_val (kmem s2) d va = (if va div PGSIZE = a div PGSIZE then pa OR perm OR PTE_P else pte_val (kmem s) d va)"
    "mem_step (insert d (set xs \<union> tables (kmem s) d)) s s2" "xs = ys \<or> (\<exists>x. xs = x # ys)"
    "set ys \<union> tables (kmem s2) d = set xs \<union> tables (kmem s) d"
    using map_step [OF Suc.prems(1) x b(1,3) flags_lt(1) [OF Suc.prems(6) b(2) Suc.prems(8)]] by metis
  have cl: "\<forall>k \<le> n. \<not> bit (pte_val (kmem s2) d (a + PGSIZE + PGSIZE * k)) 0"
  proof (intro allI impI)
    fix k assume "k \<le> n"
    then have "a + PGSIZE + PGSIZE * k < 2 ^ 32" "\<not> bit (pte_val (kmem s) d (a + PGSIZE * Suc k)) 0"
      using Suc.prems(5,9) by auto
    then show "\<not> bit (pte_val (kmem s2) d (a + PGSIZE + PGSIZE * k)) 0"
      using st(6) [of "a + PGSIZE + PGSIZE * k"] by (simp add: same_page [OF Suc.prems(4)] algebra_simps)
  qed
  have "n < length ys" using st(8) Suc.prems(2) by auto
  then obtain s' zs where ih: "mappages_loop f d (a + PGSIZE) (a + PGSIZE + PGSIZE * n) (pa + PGSIZE) perm s2 = Ok (0, s')" "vm_inv s' zs d"
    "mapped_to (kmem s2) (kmem s') d (a + PGSIZE) (Suc n) (pa + PGSIZE) perm"
    "mem_step (insert d (set ys \<union> tables (kmem s2) d)) s2 s'" "set zs \<union> tables (kmem s') d = set ys \<union> tables (kmem s2) d"
    "length ys \<le> length zs + n + 1"
    using Suc.IH [OF st(5) _ _ _ _ _ _ Suc.prems(8) cl, of f "pa + PGSIZE"] Suc.prems f by auto
  have "mappages_loop fuel d a (a + PGSIZE * Suc n) pa perm s = Ok (0, s')"
    using st(1-4) ih(1) Suc.prems(5,7) f by (simp add: Let_def add.assoc)
  moreover have "mem_step (insert d (set xs \<union> tables (kmem s) d)) s s'"
    using mem_step_trans [OF st(7) ih(4)] st(9) by simp
  ultimately show ?case using ih st(8,9) mapped_to_Suc [OF st(6) ih(3) Suc.prems(4)]
    by (intro exI [of _ s'] exI [of _ zs]) auto
qed

lemma mappages_page_args:
  assumes "va mod PGSIZE = 0" "va + PGSIZE * Suc n \<le> 2 ^ 32"
  shows "mappages d va (PGSIZE * Suc n) pa perm s = mappages_loop (2 ^ 20) d va (va + PGSIZE * n) pa perm s"
proof -
  have "va + PGSIZE * Suc n + (2 ^ 32 - 1) = (va + PGSIZE * n + (PGSIZE - 1)) + 2 ^ 32" by simp
  then have "(va + PGSIZE * Suc n + (2 ^ 32 - 1)) mod 2 ^ 32 = (va + PGSIZE * n + (PGSIZE - 1)) mod 2 ^ 32" by (simp only: mod_add_self2)
  also have "\<dots> = va + PGSIZE * n + (PGSIZE - 1)" using assms(2) by simp
  finally have e: "(va + PGSIZE * Suc n + (2 ^ 32 - 1)) mod 2 ^ 32 = va + PGSIZE * n + (PGSIZE - 1)" .
  obtain k where k: "va = PGSIZE * k" using assms(1) by (auto elim!: dvdE simp: mod_eq_0_iff_dvd)
  have "(va + PGSIZE * n + (PGSIZE - 1)) div PGSIZE = k + n" unfolding k by simp
  then have "PGROUNDDOWN (va + PGSIZE * n + (PGSIZE - 1)) = va + PGSIZE * n" by (simp add: PGROUNDDOWN_def k add_mult_distrib)
  moreover have "PGROUNDDOWN va = va" by (simp add: PGROUNDDOWN_def k)
  ultimately show ?thesis by (simp only: mappages_def e)
qed

section \<open>User memory\<close>

definition uframe :: "mem \<Rightarrow> nat \<Rightarrow> nat \<Rightarrow> nat" where
  "uframe m d v = P2V (PTE_ADDR (pte_val m d v))"

definition umapped :: "mem \<Rightarrow> nat \<Rightarrow> nat set" where
  "umapped m d = {v. v < KERNBASE \<and> v mod PGSIZE = 0 \<and> bit (pte_val m d v) 0}"

text \<open>The frames of the user pages are apart from each other, from the page tables and from the free pages.\<close>

definition uvm_inv :: "'a vstate_scheme \<Rightarrow> nat list \<Rightarrow> nat \<Rightarrow> bool" where
  "uvm_inv s xs d \<longleftrightarrow> vm_inv s xs d
     \<and> (\<forall>v \<in> umapped (kmem s) d. let f = uframe (kmem s) d v in page_ok s f \<and> f \<notin> set xs \<and> f \<noteq> d \<and> f \<notin> tables (kmem s) d)
     \<and> inj_on (uframe (kmem s) d) (umapped (kmem s) d)"

lemma uvm_invD:
  assumes "uvm_inv s xs d"
  shows "vm_inv s xs d" "inj_on (uframe (kmem s) d) (umapped (kmem s) d)"
    "v \<in> umapped (kmem s) d \<Longrightarrow> page_ok s (uframe (kmem s) d v) \<and> uframe (kmem s) d v \<notin> set xs \<and> uframe (kmem s) d v \<noteq> d
       \<and> uframe (kmem s) d v \<notin> tables (kmem s) d"
  using assms by (auto simp: uvm_inv_def Let_def)

lemma vm_take:
  assumes "vm_inv s (x # xs) d"
  shows "vm_inv (with_mem (kmem s) (ldw (kmem s) x) s) xs d"
proof -
  have "kinv (with_mem (kmem s) (ldw (kmem s) x) s) xs"
    using kalloc_Cons [OF vm_invD(1) [OF assms]] by (simp add: with_mem_def)
  then show ?thesis using assms unfolding vm_inv_def by auto
qed

text \<open>Taking a page, clearing it and mapping it.\<close>

lemma grow_step:
  assumes "uvm_inv s (x # xs) d" "a < KERNBASE" "a mod PGSIZE = 0" "a \<notin> umapped (kmem s) d" "present (kmem s) d (PDX a) \<or> xs \<noteq> []"
  defines "s1 \<equiv> with_mem (range_upd x PGSIZE (\<lambda>_. 0) (kmem s)) (ldw (kmem s) x) s"
  obtains s' ys where "mappages d a PGSIZE (V2P x) 6 s1 = Ok (0, s')" "uvm_inv s' ys d"
    "\<And>va. va < 2 ^ 32 \<Longrightarrow> pte_val (kmem s') d va = (if va div PGSIZE = a div PGSIZE then V2P x OR 7 else pte_val (kmem s) d va)"
    "mem_step (insert d (set (x # xs) \<union> tables (kmem s) d)) s s'" "\<forall>i < PGSIZE. kmem s' (x + i) = 0"
    "set ys \<union> tables (kmem s') d = set xs \<union> tables (kmem s) d" "length xs \<le> length ys + 1" "set ys \<subseteq> set xs"
proof -
  note U = uvm_invD [OF assms(1)] and I = vm_invD [OF uvm_invD(1) [OF assms(1)]]
  let ?k = "kmem s" and ?m1 = "range_upd x PGSIZE (\<lambda>_. 0) (kmem s)"
  have x: "page_ok s x" "x \<notin> set xs" "x \<noteq> d" "x \<notin> tables ?k d" "x mod PGSIZE = 0"
    using U(1) by (auto simp: vm_inv_def kinv_def page_ok_def)
  have sb: "same_but {x} ?k ?m1" by (rule same_but_range) simp
  note vs = vm_inv_same [OF vm_take [OF U(1)], simplified, OF sb]
  have v1: "vm_inv s1 xs d" and p1: "\<And>va. pte_val ?m1 d va = pte_val ?k d va" and t1: "tables ?m1 d = tables ?k d"
    using vs x by (auto simp: s1_def)
  have "present ?m1 d (PDX a) = present ?k d (PDX a)"
    using I(2) x by (intro pde_same [OF sb]) (auto simp: page_ok_def)
  then have pr: "present (kmem s1) d (PDX a) \<or> xs \<noteq> []" using assms(5) by (simp add: s1_def)
  have nb: "\<not> bit (pte_val (kmem s1) d a) 0" using assms(2-4) p1 by (simp add: s1_def umapped_def)
  have "7 < PGSIZE" by simp
  note w = pte_addr [OF x(1) this]
  have a32: "a < 2 ^ 32" using assms(2) by simp
  obtain pte s2 s' ys where st: "walkpgdir d a True s1 = (pte, s2)" "pte \<noteq> 0" "\<not> bit (ldw (kmem s2) pte) 0"
    "s' = s2\<lparr>kmem := stw pte (V2P x OR 7) (kmem s2)\<rparr>" "vm_inv s' ys d"
    "\<And>va. va < 2 ^ 32 \<Longrightarrow> pte_val (kmem s') d va = (if va div PGSIZE = a div PGSIZE then V2P x OR 7 else pte_val (kmem s1) d va)"
    "mem_step (insert d (set xs \<union> tables (kmem s1) d)) s1 s'" "xs = ys \<or> (\<exists>x. xs = x # ys)"
    "set ys \<union> tables (kmem s') d = set xs \<union> tables (kmem s1) d"
    using map_step [OF v1 pr a32 nb w(3)] by metis
  have f7: "(6 :: nat) OR 1 = 7" by simp
  obtain f where f: "(2 :: nat) ^ 20 = Suc f" using not0_implies_Suc [of "2 ^ 20"] by fastforce
  have "mappages d a PGSIZE (V2P x) 6 s1 = mappages_loop (2 ^ 20) d a a (V2P x) 6 s1"
    using mappages_page_args [of a 0 d "V2P x" 6 s1] assms(2,3) by simp
  also have "\<dots> = Ok (0, s')" unfolding f using st(1-4) by (simp add: f7)
  finally have mp: "mappages d a PGSIZE (V2P x) 6 s1 = Ok (0, s')" .
  have pv: "pte_val (kmem s') d va = (if va div PGSIZE = a div PGSIZE then V2P x OR 7 else pte_val ?k d va)" if "va < 2 ^ 32" for va
    using st(6) [OF that] p1 by (simp add: s1_def)
  have "mem_step {x} s s1" using sb by (simp add: s1_def mem_step_with_mem)
  from mem_step_trans [OF this st(7)] have ms: "mem_step (insert d (set (x # xs) \<union> tables ?k d)) s s'"
    by (elim mem_step_mono) (auto simp: t1 s1_def)
  have ts: "set ys \<union> tables (kmem s') d = set xs \<union> tables ?k d" using st(9) t1 by (simp add: s1_def)
  have um: "umapped (kmem s') d = insert a (umapped ?k d)"
    using pv assms(2,3) w(2) by (auto simp: umapped_def aligned_div_eq split: if_splits)
  have uf: "uframe (kmem s') d v = (if v = a then x else uframe ?k d v)" if "v \<in> umapped (kmem s') d" for v
  proof -
    have "v < 2 ^ 32" "v div PGSIZE = a div PGSIZE \<longleftrightarrow> v = a" using that assms(3) by (auto simp: umapped_def)
    then show ?thesis using pv w(1) by (simp add: uframe_def)
  qed
  have fx: "uframe ?k d v \<noteq> x" if "v \<in> umapped ?k d" for v using U(3) [OF that] by auto
  have "uvm_inv s' ys d" unfolding uvm_inv_def Let_def
  proof (intro conjI ballI)
    show "vm_inv s' ys d" by (rule st(5))
    fix v assume v: "v \<in> umapped (kmem s') d"
    have "page_ok s (uframe (kmem s') d v) \<and> uframe (kmem s') d v \<notin> set xs \<union> tables ?k d \<and> uframe (kmem s') d v \<noteq> d"
      using uf [OF v] U(3) [of v] v x um by auto
    then show "page_ok s' (uframe (kmem s') d v)" "uframe (kmem s') d v \<notin> set ys" "uframe (kmem s') d v \<noteq> d"
      "uframe (kmem s') d v \<notin> tables (kmem s') d" using ts mem_step_page_ok [OF ms] by auto
  next
    show "inj_on (uframe (kmem s') d) (umapped (kmem s') d)"
      using U(2) uf fx um by (auto simp: inj_on_def)
  qed
  moreover have "\<forall>i < PGSIZE. kmem s' (x + i) = 0"
  proof (intro allI impI)
    fix i :: nat assume i: "i < PGSIZE"
    have "kmem s' (x + i) = kmem s1 (x + i)"
    proof (rule same_but_page)
      show "same_but (insert d (set xs \<union> tables (kmem s1) d)) (kmem s1) (kmem s')" using st(7) by (simp add: mem_step_def)
      show "x \<notin> insert d (set xs \<union> tables (kmem s1) d)" using x t1 by (simp add: s1_def)
      show "\<forall>p \<in> insert d (set xs \<union> tables (kmem s1) d). p mod PGSIZE = 0" using v1 by (auto simp: vm_inv_def kinv_def page_ok_def)
    qed (use x i in \<open>auto simp: in_page_def\<close>)
    then show "kmem s' (x + i) = 0" using i by (simp add: s1_def range_upd_def)
  qed
  ultimately show thesis using that [OF mp _ pv ms _ ts] st(8) by fastforce
qed

text \<open>Freeing a page that no table uses.\<close>

lemma vm_free:
  assumes "vm_inv s xs d" "page_ok s f" "f \<notin> set xs" "f \<noteq> d" "f \<notin> tables (kmem s) d"
  obtains s1 where "kfree f s = Ok s1" "vm_inv s1 (f # xs) d" "mem_step {f} s s1"
    "\<And>va. pte_val (kmem s1) d va = pte_val (kmem s) d va" "tables (kmem s1) d = tables (kmem s) d"
    "\<And>i. i < 1024 \<Longrightarrow> present (kmem s1) d i = present (kmem s) d i \<and> tab (kmem s1) d i = tab (kmem s) d i"
proof -
  note I = vm_invD [OF assms(1)]
  obtain s1 where s1: "kfree f s = Ok s1" "kinv s1 (f # xs)" "s1 = s\<lparr>kmem := kmem s1, freelist := f\<rparr>"
    "\<forall>a. a < f \<or> f + PGSIZE \<le> a \<longrightarrow> kmem s1 a = kmem s a"
    using kfree_ok [OF I(1) assms(2,3)] by blast
  have sb: "same_but {f} (kmem s) (kmem s1)" using s1(4) by (auto simp: same_but_def in_page_def)
  have w: "s1 = with_mem (kmem s1) f s" using s1(3) by (simp add: with_mem_def)
  have al: "\<forall>p \<in> {f}. p mod PGSIZE = 0" "d mod PGSIZE = 0" "d \<notin> {f}" using assms I(2) by (auto simp: page_ok_def)
  note pd = pde_same [OF sb al]
  have po: "page_ok s1 = page_ok s" by (subst w) simp
  have "{f} \<inter> ({d} \<union> tables (kmem s) d \<union> set xs) = {}" using assms by auto
  note vs = vm_inv_same [OF assms(1) sb al(1) this]
  have "vm_inv s1 (f # xs) d"
    using s1(2) vs(1,3) assms po pd unfolding vm_inv_def by auto
  moreover have "mem_step {f} s s1" using sb w by (metis mem_step_with_mem)
  ultimately show thesis using that s1(1) vs(2,3) pd by blast
qed

definition unmapped_from :: "mem \<Rightarrow> mem \<Rightarrow> nat \<Rightarrow> nat \<Rightarrow> nat \<Rightarrow> bool" where
  "unmapped_from m m' d a b \<longleftrightarrow> (\<forall>va < 2 ^ 32. pte_val m' d va =
     (if a \<le> va \<and> PGROUNDDOWN va < b \<and> bit (pte_val m d va) 0 then 0 else pte_val m d va))"

lemma pte_val_page: "va div PGSIZE = va' div PGSIZE \<Longrightarrow> pte_val m d va = pte_val m d va'"
  using PDX_PTX_page [of va va'] by (simp add: pte_val_def)

text \<open>Freeing the frame of a user page and clearing its entry.\<close>

lemma shrink_step:
  assumes "uvm_inv s xs d" "v \<in> umapped (kmem s) d"
  defines "f \<equiv> uframe (kmem s) d v" and "pte \<equiv> tab (kmem s) d (PDX v) + 4 * PTX v"
  obtains s1 s' where "walkpgdir d v False s = (pte, s)" "pte \<noteq> 0" "ldw (kmem s) pte = pte_val (kmem s) d v" "kfree f s = Ok s1"
    "s' = s1\<lparr>kmem := stw pte 0 (kmem s1)\<rparr>" "uvm_inv s' (f # xs) d"
    "\<And>va. va < 2 ^ 32 \<Longrightarrow> pte_val (kmem s') d va = (if va div PGSIZE = v div PGSIZE then 0 else pte_val (kmem s) d va)"
    "mem_step (insert f (tables (kmem s) d)) s s'" "tables (kmem s') d = tables (kmem s) d"
proof -
  note U = uvm_invD [OF assms(1)] and I = vm_invD [OF uvm_invD(1) [OF assms(1)]]
  have v: "v < KERNBASE" "v < 2 ^ 32" "v mod PGSIZE = 0" "bit (pte_val (kmem s) d v) 0" using assms(2) by (auto simp: umapped_def)
  then have pr: "present (kmem s) d (PDX v)" by (auto simp: pte_val_def split: if_splits)
  have f: "page_ok s f" "f \<notin> set xs" "f \<noteq> d" "f \<notin> tables (kmem s) d" using U(3) [OF assms(2)] by (auto simp: f_def)
  obtain s1 where s1: "kfree f s = Ok s1" "vm_inv s1 (f # xs) d" "mem_step {f} s s1"
    "\<And>va. pte_val (kmem s1) d va = pte_val (kmem s) d va" "tables (kmem s1) d = tables (kmem s) d"
    "\<And>i. i < 1024 \<Longrightarrow> present (kmem s1) d i = present (kmem s) d i \<and> tab (kmem s1) d i = tab (kmem s) d i"
    using vm_free [OF U(1) f] by metis
  have t: "tab (kmem s1) d (PDX v) = tab (kmem s) d (PDX v)" "present (kmem s1) d (PDX v)" using s1(6) [OF PDX_lt] pr by auto
  define s' where "s' = s1\<lparr>kmem := stw pte 0 (kmem s1)\<rparr>"
  have "(0 :: nat) < 2 ^ 32" by simp
  note st = store_pte [OF s1(2) t(2) v(2) this, unfolded t(1), folded pte_def]
  have pv: "pte_val (kmem s') d va = (if va div PGSIZE = v div PGSIZE then 0 else pte_val (kmem s) d va)" if "va < 2 ^ 32" for va
    using st(4) [OF that] s1(4) by (simp add: s'_def)
  have tb: "tables (kmem s') d = tables (kmem s) d" using st(2) s1(5) by (simp add: s'_def)
  have "tab (kmem s) d (PDX v) \<in> tables (kmem s) d" using pr PDX_lt unfolding tables_def by blast
  moreover have "mem_step {tab (kmem s) d (PDX v)} s1 s'" using st(3) by (simp add: s'_def with_mem_same mem_step_with_mem)
  ultimately have ms: "mem_step (insert f (tables (kmem s) d)) s s'"
    by (intro mem_step_mono [OF mem_step_trans [OF s1(3)]]) auto
  have um: "umapped (kmem s') d = umapped (kmem s) d - {v}"
    using pv v(3) by (auto simp: umapped_def aligned_div_eq split: if_splits)
  have uf: "uframe (kmem s') d u = uframe (kmem s) d u" if "u \<in> umapped (kmem s') d" for u
    using pv [of u] that v(3) um by (auto simp: uframe_def umapped_def aligned_div_eq)
  have "uvm_inv s' (f # xs) d" unfolding uvm_inv_def Let_def
  proof (intro conjI ballI)
    show "vm_inv s' (f # xs) d" using st(1) by (simp add: s'_def)
    fix u assume u: "u \<in> umapped (kmem s') d"
    then have "uframe (kmem s) d u \<noteq> f" using U(2) assms(2) um by (auto simp: f_def inj_on_def)
    then show "page_ok s' (uframe (kmem s') d u)" "uframe (kmem s') d u \<notin> set (f # xs)" "uframe (kmem s') d u \<noteq> d"
      "uframe (kmem s') d u \<notin> tables (kmem s') d" using U(3) [of u] u um uf [OF u] tb mem_step_page_ok [OF ms] by auto
  next
    show "inj_on (uframe (kmem s') d) (umapped (kmem s') d)" using U(2) uf um by (auto simp: inj_on_def)
  qed
  moreover have "pte \<noteq> 0" using I(4) [OF PDX_lt pr] by (auto simp: pte_def page_ok_def)
  moreover have "ldw (kmem s) pte = pte_val (kmem s) d v" using pr by (simp add: pte_val_def pte_def)
  ultimately show thesis using that walk_present [OF pr] s1(1) s'_def pv ms tb by (simp add: pte_def)
qed

lemma skip_eq:
  assumes "a < KERNBASE"
  defines "b \<equiv> (a div 2 ^ 22 + 1) * 2 ^ 22"
  shows "((PGADDR (PDX a + 1) + (2 ^ 32 - PGSIZE)) mod 2 ^ 32 + PGSIZE) mod 2 ^ 32 = b" "a < b" "b \<le> KERNBASE" "b mod PGSIZE = 0"
    "a \<le> va \<Longrightarrow> va < b \<Longrightarrow> PDX va = PDX a"
proof -
  let ?q = "a div 2 ^ 22"
  have q: "?q < 512" using assms(1) by (simp add: less_mult_imp_div_less)
  then have "PDX a = ?q" by (simp add: PDX_def)
  moreover have "PGADDR (?q + 1) = b" using q by (simp add: PGADDR_def b_def)
  moreover have b: "2 ^ 22 \<le> b" "b \<le> KERNBASE" using q by (simp_all add: b_def)
  moreover have "(b + (2 ^ 32 - PGSIZE)) mod 2 ^ 32 = b - PGSIZE"
  proof -
    have "b + (2 ^ 32 - PGSIZE) = (b - PGSIZE) + 2 ^ 32" using b by simp
    then have "(b + (2 ^ 32 - PGSIZE)) mod 2 ^ 32 = (b - PGSIZE) mod 2 ^ 32" by (simp only: mod_add_self2)
    then show ?thesis using b by simp
  qed
  ultimately show "((PGADDR (PDX a + 1) + (2 ^ 32 - PGSIZE)) mod 2 ^ 32 + PGSIZE) mod 2 ^ 32 = b" by simp
  show "b \<le> KERNBASE" by (rule b(2))
  have "a < 2 ^ 22 + ?q * 2 ^ 22" by (rule dividend_less_div_times) simp
  then show "a < b" by (simp only: b_def add_mult_distrib mult_1 add.commute)
  have "b = PGSIZE * ((?q + 1) * 1024)" by (simp add: b_def)
  then show "b mod PGSIZE = 0" by simp
  assume va: "a \<le> va" "va < b"
  have "va div 2 ^ 22 = ?q"
  proof (rule div_nat_eqI)
    show "2 ^ 22 * ?q \<le> va" using times_div_less_eq_dividend [of "2 ^ 22" a] va(1) by (rule le_trans)
    show "va < 2 ^ 22 * Suc ?q" using va(2) by (simp add: b_def)
  qed
  then show "PDX va = PDX a" by (simp add: PDX_def)
qed

lemma unmapped_from_skip:
  assumes "\<And>va. va < 2 ^ 32 \<Longrightarrow> a \<le> va \<Longrightarrow> va < a' \<Longrightarrow> \<not> bit (pte_val m d va) 0" "unmapped_from m m' d a' b" "a \<le> a'"
  shows "unmapped_from m m' d a b"
  unfolding unmapped_from_def
proof (intro allI impI)
  fix va :: nat assume va: "va < 2 ^ 32"
  have "pte_val m' d va = (if a' \<le> va \<and> PGROUNDDOWN va < b \<and> bit (pte_val m d va) 0 then 0 else pte_val m d va)"
    using assms(2) va unfolding unmapped_from_def by blast
  then show "pte_val m' d va = (if a \<le> va \<and> PGROUNDDOWN va < b \<and> bit (pte_val m d va) 0 then 0 else pte_val m d va)"
    using assms(1) [OF va] assms(3) by (cases "va < a'") auto
qed

lemma unmapped_from_clear:
  assumes "\<And>va. va < 2 ^ 32 \<Longrightarrow> pte_val m1 d va = (if va div PGSIZE = a div PGSIZE then 0 else pte_val m d va)"
    "unmapped_from m1 m' d (a + PGSIZE) b" "a mod PGSIZE = 0" "a < b" "bit (pte_val m d a) 0"
  shows "unmapped_from m m' d a b"
  unfolding unmapped_from_def
proof (intro allI impI)
  fix va :: nat assume va: "va < 2 ^ 32"
  have m': "pte_val m' d va = (if a + PGSIZE \<le> va \<and> PGROUNDDOWN va < b \<and> bit (pte_val m1 d va) 0 then 0 else pte_val m1 d va)"
    using assms(2) va unfolding unmapped_from_def by blast
  note m1 = assms(1) [OF va]
  show "pte_val m' d va = (if a \<le> va \<and> PGROUNDDOWN va < b \<and> bit (pte_val m d va) 0 then 0 else pte_val m d va)"
  proof (cases "va div PGSIZE = a div PGSIZE")
    case True
    then have "PGROUNDDOWN va = a" using div_mult_mod_eq [of a PGSIZE] assms(3) by (simp add: PGROUNDDOWN_def)
    moreover have "pte_val m d va = pte_val m d a" by (rule pte_val_page [OF True])
    ultimately show ?thesis using True m' m1 assms(4,5) same_page [OF assms(3), of va] by simp
  next
    case False
    then have "a \<le> va \<longleftrightarrow> a + PGSIZE \<le> va" using same_page [OF assms(3), of va] by linarith
    then show ?thesis using False m' m1 by simp
  qed
qed

lemma unmapped_from_none: "a mod PGSIZE = 0 \<Longrightarrow> b \<le> a \<Longrightarrow> unmapped_from m m d a b"
proof -
  assume a: "a mod PGSIZE = 0" "b \<le> a"
  have "a \<le> PGROUNDDOWN va" if "a \<le> va" for va
  proof -
    obtain k where k: "a = PGSIZE * k" using a(1) by (auto elim!: dvdE simp: mod_eq_0_iff_dvd)
    have "k \<le> va div PGSIZE" using that k by (simp add: less_eq_div_iff_mult_less_eq mult.commute)
    then show ?thesis by (simp add: PGROUNDDOWN_def k)
  qed
  then show ?thesis using a(2) by (fastforce simp: unmapped_from_def)
qed

text \<open>The frames of the user pages from \<open>a\<close> up to \<open>b\<close>.\<close>

definition frames_in :: "mem \<Rightarrow> nat \<Rightarrow> nat \<Rightarrow> nat \<Rightarrow> nat set" where
  "frames_in m d a b = uframe m d ` {v \<in> umapped m d. a \<le> v \<and> v < b}"

lemma frames_in_skip:
  assumes "\<And>v. v \<in> umapped m d \<Longrightarrow> a \<le> v \<Longrightarrow> a' \<le> v" "a \<le> a'"
  shows "frames_in m d a b = frames_in m d a' b"
  unfolding frames_in_def using assms by (intro arg_cong [where f = "(`) _"]) auto

lemma frames_in_step:
  assumes "\<And>va. va < 2 ^ 32 \<Longrightarrow> pte_val m1 d va = (if va div PGSIZE = a div PGSIZE then 0 else pte_val m d va)"
    "a mod PGSIZE = 0" "a < b" "a \<in> umapped m d"
  shows "frames_in m d a b = insert (uframe m d a) (frames_in m1 d (a + PGSIZE) b)"
proof -
  have e: "{v \<in> umapped m d. a \<le> v \<and> v < b} = insert a {v \<in> umapped m1 d. a + PGSIZE \<le> v \<and> v < b}"
  proof (intro set_eqI iffI)
    fix v assume v: "v \<in> {v \<in> umapped m d. a \<le> v \<and> v < b}"
    show "v \<in> insert a {v \<in> umapped m1 d. a + PGSIZE \<le> v \<and> v < b}"
    proof (cases "v = a")
      case False
      then have "v div PGSIZE \<noteq> a div PGSIZE" using v assms(2) aligned_div_eq by (auto simp: umapped_def)
      then show ?thesis using v assms(1) [of v] same_page [OF assms(2), of v] by (auto simp: umapped_def)
    qed simp
  next
    fix v assume v: "v \<in> insert a {v \<in> umapped m1 d. a + PGSIZE \<le> v \<and> v < b}"
    then show "v \<in> {v \<in> umapped m d. a \<le> v \<and> v < b}"
      using assms(1) [of v] assms(3,4) by (auto simp: umapped_def split: if_splits)
  qed
  have "uframe m1 d v = uframe m d v" if "v \<in> {v \<in> umapped m1 d. a + PGSIZE \<le> v \<and> v < b}" for v
    using assms(1) [of v] that by (auto simp: umapped_def uframe_def split: if_splits)
  then show ?thesis unfolding frames_in_def e image_insert by (intro arg_cong [where f = "insert _"] image_cong) auto
qed

lemma deallocuvm_loop_ok:
  assumes "uvm_inv s xs d" "a mod PGSIZE = 0" "b \<le> KERNBASE" "b \<le> a + PGSIZE * n"
  shows "\<exists>s' ys. deallocuvm_loop (Suc n) d a b s = Ok s' \<and> uvm_inv s' ys d \<and> unmapped_from (kmem s) (kmem s') d a b
    \<and> mem_step (frames_in (kmem s) d a b \<union> tables (kmem s) d) s s' \<and> tables (kmem s') d = tables (kmem s) d
    \<and> set ys = set xs \<union> frames_in (kmem s) d a b"
  using assms
proof (induction n arbitrary: s xs a)
  case 0
  then have "frames_in (kmem s) d a b = {}" by (auto simp: frames_in_def)
  then show ?case using 0 unmapped_from_none [of a b] by (intro exI [of _ s] exI [of _ xs]) auto
next
  case (Suc n)
  show ?case
  proof (cases "a < b")
    case False
    then have "frames_in (kmem s) d a b = {}" by (auto simp: frames_in_def)
    then show ?thesis using False Suc.prems unmapped_from_none [of a b] by (intro exI [of _ s] exI [of _ xs]) auto
  next
    case ab: True
    then have a: "a < KERNBASE" "(a + PGSIZE) mod 2 ^ 32 = a + PGSIZE" using Suc.prems(3) by auto
    have a4: "(a + PGSIZE) mod PGSIZE = 0" "b \<le> a + PGSIZE + PGSIZE * n" using Suc.prems(2,4) by auto
    show ?thesis
    proof (cases "present (kmem s) d (PDX a)")
      case False
      let ?c = "(a div 2 ^ 22 + 1) * 2 ^ 22"
      note sk = skip_eq [OF a(1)]
      have "a + PGSIZE \<le> ?c" using page_disjoint [OF Suc.prems(2) sk(4)] sk(2) by auto
      then have "b \<le> ?c + PGSIZE * n" using a4(2) by linarith
      note ih = Suc.IH [OF Suc.prems(1) sk(4) Suc.prems(3) this]
      have z: "pte_val (kmem s) d va = 0" if "a \<le> va" "va < ?c" for va using sk(5) [OF that] False by (simp add: pte_val_def)
      have "frames_in (kmem s) d a b = frames_in (kmem s) d ?c b"
        by (intro frames_in_skip) (use z sk(2) in \<open>auto simp: umapped_def not_less [symmetric]\<close>)
      moreover have "deallocuvm_loop (Suc (Suc n)) d a b s = deallocuvm_loop (Suc n) d ?c b s"
        using ab walk_absent [OF False] sk(1) by (simp del: deallocuvm_loop.simps add: deallocuvm_loop.simps(2) [of "Suc n"] Let_def)
      moreover have "unmapped_from (kmem s) m d ?c b \<Longrightarrow> unmapped_from (kmem s) m d a b" for m
        by (rule unmapped_from_skip [where a' = ?c]) (use z sk(2) in auto)
      ultimately show ?thesis using ih by metis
    next
      case pr: True
      define pte where "pte = tab (kmem s) d (PDX a) + 4 * PTX a"
      have p: "walkpgdir d a False s = (pte, s)" "pte \<noteq> 0" "ldw (kmem s) pte = pte_val (kmem s) d a"
        using walk_present [OF pr] vm_invD(4) [OF uvm_invD(1) [OF Suc.prems(1)] PDX_lt pr] pr by (auto simp: page_ok_def pte_val_def pte_def)
      show ?thesis
      proof (cases "bit (pte_val (kmem s) d a) 0")
        case False
        note ih = Suc.IH [OF Suc.prems(1) a4(1) Suc.prems(3) a4(2)]
        have z: "\<not> bit (pte_val (kmem s) d va) 0" if "a \<le> va" "va < a + PGSIZE" for va
          using False pte_val_page [of va a] same_page [OF Suc.prems(2)] that by metis
        have "frames_in (kmem s) d a b = frames_in (kmem s) d (a + PGSIZE) b"
          by (intro frames_in_skip) (use z in \<open>auto simp: umapped_def not_less [symmetric]\<close>)
        moreover have "deallocuvm_loop (Suc (Suc n)) d a b s = deallocuvm_loop (Suc n) d (a + PGSIZE) b s"
          using ab p False a(2) by (simp del: deallocuvm_loop.simps add: deallocuvm_loop.simps(2) [of "Suc n"] Let_def)
        moreover have "unmapped_from (kmem s) m d (a + PGSIZE) b \<Longrightarrow> unmapped_from (kmem s) m d a b" for m
          by (rule unmapped_from_skip [where a' = "a + PGSIZE"]) (use z in auto)
        ultimately show ?thesis using ih by metis
      next
        case True
        let ?f = "uframe (kmem s) d a"
        have au: "a \<in> umapped (kmem s) d" using True a(1) Suc.prems(2) by (simp add: umapped_def)
        obtain s1 s2 where st: "kfree ?f s = Ok s1" "s2 = s1\<lparr>kmem := stw pte 0 (kmem s1)\<rparr>" "uvm_inv s2 (?f # xs) d"
          "\<And>va. va < 2 ^ 32 \<Longrightarrow> pte_val (kmem s2) d va = (if va div PGSIZE = a div PGSIZE then 0 else pte_val (kmem s) d va)"
          "mem_step (insert ?f (tables (kmem s) d)) s s2" "tables (kmem s2) d = tables (kmem s) d"
          using shrink_step [OF Suc.prems(1) au, folded pte_def] by metis
        have fr: "frames_in (kmem s) d a b = insert ?f (frames_in (kmem s2) d (a + PGSIZE) b)"
          by (rule frames_in_step) (use st(4) Suc.prems(2) ab au in simp_all)
        obtain s' ys where ih: "deallocuvm_loop (Suc n) d (a + PGSIZE) b s2 = Ok s'" "uvm_inv s' ys d"
          "unmapped_from (kmem s2) (kmem s') d (a + PGSIZE) b" "mem_step (frames_in (kmem s2) d (a + PGSIZE) b \<union> tables (kmem s2) d) s2 s'"
          "tables (kmem s') d = tables (kmem s2) d" "set ys = set (?f # xs) \<union> frames_in (kmem s2) d (a + PGSIZE) b"
          using Suc.IH [OF st(3) a4(1) Suc.prems(3) a4(2)] by blast
        have "PTE_ADDR (pte_val (kmem s) d a) \<noteq> 0"
          using uvm_invD(3) [OF Suc.prems(1) au] by (auto simp: uframe_def P2V_def page_ok_def)
        then have "deallocuvm_loop (Suc (Suc n)) d a b s = deallocuvm_loop (Suc n) d (a + PGSIZE) b s2"
          using ab p True a(2) st(1,2)
          by (simp del: deallocuvm_loop.simps add: deallocuvm_loop.simps(2) [of "Suc n"] Let_def uframe_def)
        moreover have "unmapped_from (kmem s) (kmem s') d a b"
          by (rule unmapped_from_clear [OF st(4) ih(3) Suc.prems(2) ab True])
        moreover have "mem_step (frames_in (kmem s) d a b \<union> tables (kmem s) d) s s'"
          using mem_step_trans [OF st(5) ih(4)] by (rule mem_step_mono) (auto simp: st(6) fr)
        ultimately show ?thesis using ih st(6) by (intro exI [of _ s'] exI [of _ ys]) (auto simp: fr)
      qed
    qed
  qed
qed

lemma deallocuvm_ok:
  assumes "uvm_inv s xs d" "newsz \<le> oldsz" "oldsz \<le> KERNBASE"
  defines "a \<equiv> PGROUNDUP newsz"
  shows "\<exists>s' ys. deallocuvm d oldsz newsz s = Ok (newsz, s') \<and> uvm_inv s' ys d \<and> unmapped_from (kmem s) (kmem s') d a oldsz
    \<and> mem_step (frames_in (kmem s) d a oldsz \<union> tables (kmem s) d) s s' \<and> tables (kmem s') d = tables (kmem s) d
    \<and> set ys = set xs \<union> frames_in (kmem s) d a oldsz"
proof -
  have "newsz + PGSIZE \<le> 2 ^ 32" using assms(2,3) by simp
  note r = PGROUNDUP_small [OF this]
  have a: "a mod PGSIZE = 0" "newsz \<le> a" using r by (simp_all add: a_def)
  show ?thesis
  proof (cases "newsz = oldsz")
    case True
    then have "frames_in (kmem s) d a oldsz = {}" using a(2) by (auto simp: frames_in_def)
    then show ?thesis using True assms(1) a unmapped_from_none [of a oldsz]
      by (intro exI [of _ s] exI [of _ xs]) (simp add: deallocuvm_def)
  next
    case False
    have "oldsz \<le> a + PGSIZE * 2 ^ 20" using assms(3) by simp
    from deallocuvm_loop_ok [OF assms(1) a(1) assms(3) this] show ?thesis
      using False assms(2) by (auto simp: deallocuvm_def a_def simp del: deallocuvm_loop.simps)
  qed
qed

section \<open>Growing\<close>

text \<open>Changes of memory away from everything the invariant speaks of.\<close>

lemma uvm_inv_away:
  assumes "uvm_inv s xs d" "vm_inv s' ys d" "\<And>va. pte_val (kmem s') d va = pte_val (kmem s) d va" "tables (kmem s') d = tables (kmem s) d"
    "page_ok s' = page_ok s" "\<And>v. v \<in> umapped (kmem s) d \<Longrightarrow> uframe (kmem s) d v \<notin> set ys"
  shows "uvm_inv s' ys d" "umapped (kmem s') d = umapped (kmem s) d" "uframe (kmem s') d = uframe (kmem s) d"
proof -
  show um: "umapped (kmem s') d = umapped (kmem s) d" by (simp add: umapped_def assms(3))
  show uf: "uframe (kmem s') d = uframe (kmem s) d" by (rule ext) (simp add: uframe_def assms(3))
  show "uvm_inv s' ys d"
    using assms(1,2,6) uvm_invD(3) [OF assms(1)] unfolding uvm_inv_def um uf assms(4,5) Let_def by auto
qed

lemma take_page:
  assumes "uvm_inv s (x # xs) d"
  defines "s1 \<equiv> with_mem (range_upd x PGSIZE (\<lambda>_. 0) (kmem s)) (ldw (kmem s) x) s"
  shows "uvm_inv s1 xs d" "pte_val (kmem s1) d va = pte_val (kmem s) d va" "tables (kmem s1) d = tables (kmem s) d"
    "mem_step {x} s s1" "i < 1024 \<Longrightarrow> present (kmem s1) d i = present (kmem s) d i" "umapped (kmem s1) d = umapped (kmem s) d"
    "uframe (kmem s1) d = uframe (kmem s) d"
proof -
  note U = uvm_invD [OF assms(1)] and I = vm_invD [OF uvm_invD(1) [OF assms(1)]]
  have x: "page_ok s x" "x \<notin> set xs" "x \<noteq> d" "x \<notin> tables (kmem s) d" "x mod PGSIZE = 0"
    using U(1) by (auto simp: vm_inv_def kinv_def page_ok_def)
  have sb: "same_but {x} (kmem s) (kmem s1)" unfolding s1_def with_mem_simps by (rule same_but_range) simp
  note vs = vm_inv_same [OF vm_take [OF U(1)], simplified, OF sb]
  have v: "vm_inv s1 xs d" "\<And>va. pte_val (kmem s1) d va = pte_val (kmem s) d va" "tables (kmem s1) d = tables (kmem s) d"
    using vs x by (auto simp: s1_def)
  then show "pte_val (kmem s1) d va = pte_val (kmem s) d va" "tables (kmem s1) d = tables (kmem s) d" by auto
  have po: "page_ok s1 = page_ok s" by (simp add: s1_def)
  have nf: "uframe (kmem s) d v \<notin> set xs" if "v \<in> umapped (kmem s) d" for v using U(3) [OF that] by simp
  show "uvm_inv s1 xs d" "umapped (kmem s1) d = umapped (kmem s) d" "uframe (kmem s1) d = uframe (kmem s) d"
    using uvm_inv_away [OF assms(1) v(1-3) po nf] by auto
  show "mem_step {x} s s1" using sb by (simp add: s1_def mem_step_with_mem)
  show "i < 1024 \<Longrightarrow> present (kmem s1) d i = present (kmem s) d i"
    using I(2) x by (intro pde_same [OF sb]) (auto simp: page_ok_def)
qed

lemma uvm_free:
  assumes "uvm_inv s xs d" "page_ok s f" "f \<notin> set xs" "f \<noteq> d" "f \<notin> tables (kmem s) d"
    "\<And>v. v \<in> umapped (kmem s) d \<Longrightarrow> uframe (kmem s) d v \<noteq> f"
  obtains s1 where "kfree f s = Ok s1" "uvm_inv s1 (f # xs) d" "mem_step {f} s s1"
    "\<And>va. pte_val (kmem s1) d va = pte_val (kmem s) d va" "tables (kmem s1) d = tables (kmem s) d"
proof -
  obtain s1 where s1: "kfree f s = Ok s1" "vm_inv s1 (f # xs) d" "mem_step {f} s s1"
    "\<And>va. pte_val (kmem s1) d va = pte_val (kmem s) d va" "tables (kmem s1) d = tables (kmem s) d"
    using vm_free [OF uvm_invD(1) [OF assms(1)] assms(2-5)] by metis
  have nf: "uframe (kmem s) d v \<notin> set (f # xs)" if "v \<in> umapped (kmem s) d" for v
    using uvm_invD(3) [OF assms(1) that] assms(6) [OF that] by simp
  have "uvm_inv s1 (f # xs) d" by (rule uvm_inv_away(1) [OF assms(1) s1(2,4,5) mem_step_page_ok [OF s1(3)] nf])
  then show thesis using that s1 by blast
qed

text \<open>Every page of the range is mapped to a cleared page of the free list; nothing else is mapped.\<close>

definition zero_mapped :: "mem \<Rightarrow> nat \<Rightarrow> nat \<Rightarrow> nat \<Rightarrow> nat list \<Rightarrow> bool" where
  "zero_mapped m d a b xs \<longleftrightarrow> (\<forall>v. v mod PGSIZE = 0 \<and> a \<le> v \<and> v < b \<longrightarrow>
     (\<exists>x \<in> set xs. pte_val m d v = V2P x OR 7 \<and> (\<forall>i < PGSIZE. m (x + i) = 0)))"

definition same_outside :: "mem \<Rightarrow> mem \<Rightarrow> nat \<Rightarrow> nat \<Rightarrow> nat \<Rightarrow> bool" where
  "same_outside m m' d a b \<longleftrightarrow> (\<forall>va < 2 ^ 32. \<not> (a \<le> va \<and> PGROUNDDOWN va < b) \<longrightarrow> pte_val m' d va = pte_val m d va)"

definition none_mapped :: "mem \<Rightarrow> nat \<Rightarrow> nat \<Rightarrow> nat \<Rightarrow> bool" where
  "none_mapped m d a b \<longleftrightarrow> (\<forall>v \<in> umapped m d. \<not> (a \<le> v \<and> v < b))"

lemma PGROUNDDOWN_aligned: "v mod PGSIZE = 0 \<Longrightarrow> PGROUNDDOWN v = v"
  unfolding PGROUNDDOWN_def by (metis add.right_neutral div_mult_mod_eq)

lemma unmapped_from_none_mapped:
  assumes "unmapped_from m m' d a b" shows "none_mapped m' d a b" "same_outside m m' d a b"
proof -
  have "\<not> bit (pte_val m' d v) 0" if v: "v < KERNBASE" "v mod PGSIZE = 0" "a \<le> v" "v < b" for v
  proof -
    have "PGROUNDDOWN v = v" using v(2) by (simp add: PGROUNDDOWN_aligned)
    moreover have "v < 2 ^ 32" using v(1) by simp
    ultimately have "pte_val m' d v = (if bit (pte_val m d v) 0 then 0 else pte_val m d v)"
      using assms v(3,4) unfolding unmapped_from_def by (metis (no_types, lifting))
    then show ?thesis by simp
  qed
  then show "none_mapped m' d a b" by (auto simp: none_mapped_def umapped_def)
  show "same_outside m m' d a b" using assms unfolding same_outside_def unmapped_from_def by auto
qed

lemma alloc_fail:
  assumes "uvm_inv s xs d" "oldsz \<le> newsz" "newsz < KERNBASE"
  obtains s' ys where "deallocuvm d newsz oldsz s = Ok (oldsz, s')" "uvm_inv s' ys d"
    "none_mapped (kmem s') d (PGROUNDUP oldsz) newsz" "same_outside (kmem s) (kmem s') d (PGROUNDUP oldsz) newsz"
    "mem_step (frames_in (kmem s) d (PGROUNDUP oldsz) newsz \<union> tables (kmem s) d) s s'" "tables (kmem s') d = tables (kmem s) d"
    "set ys = set xs \<union> frames_in (kmem s) d (PGROUNDUP oldsz) newsz"
proof -
  obtain s' ys where d: "deallocuvm d newsz oldsz s = Ok (oldsz, s')" "uvm_inv s' ys d"
    "unmapped_from (kmem s) (kmem s') d (PGROUNDUP oldsz) newsz"
    "mem_step (frames_in (kmem s) d (PGROUNDUP oldsz) newsz \<union> tables (kmem s) d) s s'" "tables (kmem s') d = tables (kmem s) d"
    "set ys = set xs \<union> frames_in (kmem s) d (PGROUNDUP oldsz) newsz"
    using deallocuvm_ok [OF assms(1,2)] assms(3) by auto
  show thesis using that [OF d(1,2) unmapped_from_none_mapped [OF d(3)] d(4-6)] .
qed

lemma alloc_no_page:
  assumes "uvm_inv s [] d" "a < newsz" "oldsz \<le> newsz" "newsz < KERNBASE"
  shows "\<exists>s' ys. allocuvm_loop d a oldsz newsz s = Ok (0, s') \<and> uvm_inv s' ys d
    \<and> none_mapped (kmem s') d (PGROUNDUP oldsz) newsz \<and> same_outside (kmem s) (kmem s') d (PGROUNDUP oldsz) newsz
    \<and> mem_step (insert d (tables (kmem s) d \<union> frames_in (kmem s) d (PGROUNDUP oldsz) newsz)) s s'"
proof -
  have k: "kalloc s = (0, s)" using vm_invD(1) [OF uvm_invD(1) [OF assms(1)]] by (rule kalloc_Nil)
  obtain s' ys where d: "deallocuvm d newsz oldsz s = Ok (oldsz, s')" "uvm_inv s' ys d"
    "none_mapped (kmem s') d (PGROUNDUP oldsz) newsz" "same_outside (kmem s) (kmem s') d (PGROUNDUP oldsz) newsz"
    "mem_step (frames_in (kmem s) d (PGROUNDUP oldsz) newsz \<union> tables (kmem s) d) s s'"
    using alloc_fail [OF assms(1,3,4)] by metis
  have "allocuvm_loop d a oldsz newsz s = Ok (0, s')" using assms(2) k d(1) by (subst allocuvm_loop.simps) simp
  moreover have "mem_step (insert d (tables (kmem s) d \<union> frames_in (kmem s) d (PGROUNDUP oldsz) newsz)) s s'"
    using d(5) by (rule mem_step_mono) auto
  ultimately show ?thesis using d by blast
qed

lemma kalloc_uvm: "uvm_inv s (x # xs) d \<Longrightarrow> kalloc s = (x, with_mem (kmem s) (ldw (kmem s) x) s) \<and> x \<noteq> 0"
proof -
  assume "uvm_inv s (x # xs) d"
  then have k: "kinv s (x # xs)" using uvm_invD(1) vm_invD(1) by blast
  then have "x \<noteq> 0" by (auto simp: kinv_def page_ok_def)
  then show ?thesis using kalloc_Cons [OF k] by (simp add: with_mem_same)
qed

lemma alloc_no_table:
  assumes "uvm_inv s [x] d" "a < newsz" "oldsz \<le> newsz" "newsz < KERNBASE" "a mod PGSIZE = 0" "\<not> present (kmem s) d (PDX a)"
  shows "\<exists>s' ys. allocuvm_loop d a oldsz newsz s = Ok (0, s') \<and> uvm_inv s' ys d
    \<and> none_mapped (kmem s') d (PGROUNDUP oldsz) newsz \<and> same_outside (kmem s) (kmem s') d (PGROUNDUP oldsz) newsz
    \<and> mem_step (insert d (insert x (tables (kmem s) d \<union> frames_in (kmem s) d (PGROUNDUP oldsz) newsz))) s s'"
proof -
  let ?b = "PGROUNDUP oldsz"
  define s1 where "s1 = with_mem (range_upd x PGSIZE (\<lambda>_. 0) (kmem s)) (ldw (kmem s) x) s"
  note k = kalloc_uvm [OF assms(1)] and t = take_page [OF assms(1), folded s1_def]
  note U = uvm_invD [OF assms(1)] and I = vm_invD [OF uvm_invD(1) [OF assms(1)]]
  have k1: "kinv s1 []" using vm_invD(1) [OF uvm_invD(1) [OF t(1)]] .
  obtain f where f: "(2 :: nat) ^ 20 = Suc f" using not0_implies_Suc [of "2 ^ 20"] by fastforce
  have "\<not> present (kmem s1) d (PDX a)" using t(5) assms(6) by simp
  note wf = walk_full [OF this k1]
  have "mappages d a PGSIZE (V2P x) 6 s1 = mappages_loop (2 ^ 20) d a a (V2P x) 6 s1"
    using mappages_page_args [of a 0 d "V2P x" 6 s1] assms(2,4,5) by simp
  also have "\<dots> = Ok (-1, s1)" unfolding f using wf by simp
  finally have mp: "mappages d a PGSIZE (V2P x) 6 s1 = Ok (-1, s1)" .
  obtain s2 ys where d: "deallocuvm d newsz oldsz s1 = Ok (oldsz, s2)" "uvm_inv s2 ys d" "none_mapped (kmem s2) d ?b newsz"
    "same_outside (kmem s1) (kmem s2) d ?b newsz" "mem_step (frames_in (kmem s1) d ?b newsz \<union> tables (kmem s1) d) s1 s2"
    "tables (kmem s2) d = tables (kmem s1) d" "set ys = set [] \<union> frames_in (kmem s1) d ?b newsz"
    using alloc_fail [OF t(1) assms(3,4)] by metis
  have fr: "frames_in (kmem s1) d ?b newsz = frames_in (kmem s) d ?b newsz" by (simp add: frames_in_def t(6,7))
  have x: "page_ok s2 x" "x \<notin> set ys" "x \<noteq> d" "x \<notin> tables (kmem s2) d"
    "\<And>v. v \<in> umapped (kmem s2) d \<Longrightarrow> uframe (kmem s2) d v \<noteq> x"
  proof -
    have xs: "page_ok s x" "x \<noteq> d" "x \<notin> tables (kmem s) d" using U(1) by (auto simp: vm_inv_def kinv_def)
    have xf: "uframe (kmem s) d v \<noteq> x" if "v \<in> umapped (kmem s) d" for v using U(3) [OF that] by auto
    show "page_ok s2 x" using xs(1) mem_step_page_ok [OF d(5)] mem_step_page_ok [OF t(4)] by simp
    show "x \<notin> set ys" using xf unfolding d(7) fr by (auto simp: frames_in_def)
    show "x \<noteq> d" "x \<notin> tables (kmem s2) d" using xs d(6) t(3) by auto
    fix v assume v: "v \<in> umapped (kmem s2) d"
    then have "\<not> (?b \<le> v \<and> PGROUNDDOWN v < newsz)" "v < 2 ^ 32"
      using d(3) by (auto simp: none_mapped_def umapped_def PGROUNDDOWN_aligned)
    then have "pte_val (kmem s2) d v = pte_val (kmem s) d v" using d(4) t(2) by (simp add: same_outside_def)
    then show "uframe (kmem s2) d v \<noteq> x" using v xf [of v] by (simp add: uframe_def umapped_def)
  qed
  obtain s' where s': "kfree x s2 = Ok s'" "uvm_inv s' (x # ys) d" "mem_step {x} s2 s'"
    "\<And>va. pte_val (kmem s') d va = pte_val (kmem s2) d va" "tables (kmem s') d = tables (kmem s2) d"
    using uvm_free [OF d(2) x] by metis
  have "(2 :: nat) OR 4 = 6" by simp
  then have "allocuvm_loop d a oldsz newsz s = Ok (0, s')"
    using assms(2) k mp d(1) s'(1) by (subst allocuvm_loop.simps) (simp add: Let_def memset_eq s1_def)
  moreover have "none_mapped (kmem s') d ?b newsz" using d(3) s'(4) by (simp add: none_mapped_def umapped_def)
  moreover have "same_outside (kmem s) (kmem s') d ?b newsz" using d(4) s'(4) t(2) by (simp add: same_outside_def)
  moreover have "mem_step (insert d (insert x (tables (kmem s) d \<union> frames_in (kmem s) d ?b newsz))) s s'"
    using mem_step_trans [OF mem_step_trans [OF t(4) d(5)] s'(3)] by (rule mem_step_mono) (auto simp: fr t(3))
  ultimately show ?thesis using s'(2) by blast
qed

text \<open>The outcome of growing from the page \<open>a\<close> on.\<close>

definition grow_outcome :: "'a vstate_scheme \<Rightarrow> nat list \<Rightarrow> nat \<Rightarrow> nat \<Rightarrow> nat \<Rightarrow> nat \<Rightarrow> nat \<Rightarrow> 'a vstate_scheme \<Rightarrow> bool" where
  "grow_outcome s xs d a oldsz newsz r s' \<longleftrightarrow>
     (if r = newsz
      then zero_mapped (kmem s') d a newsz xs \<and> same_outside (kmem s) (kmem s') d a newsz
        \<and> mem_step (insert d (set xs \<union> tables (kmem s) d)) s s'
      else r = 0 \<and> none_mapped (kmem s') d (PGROUNDUP oldsz) newsz \<and> same_outside (kmem s) (kmem s') d (PGROUNDUP oldsz) newsz
        \<and> mem_step (insert d (set xs \<union> tables (kmem s) d \<union> frames_in (kmem s) d (PGROUNDUP oldsz) newsz)) s s'
        \<and> newsz > a + PGSIZE * (length xs div 2))"

lemma same_outside_weaken: "same_outside m m' d a' b \<Longrightarrow> a \<le> a' \<Longrightarrow> same_outside m m' d a b"
  by (auto simp: same_outside_def)

lemma same_outside_trans: "same_outside m m' d a b \<Longrightarrow> same_outside m' m'' d a b \<Longrightarrow> same_outside m m'' d a b"
  by (simp add: same_outside_def)

lemma grow_combine:
  assumes U: "uvm_inv s (x # xs) d" and a: "a mod PGSIZE = 0" "a < newsz" "newsz < KERNBASE" "PGROUNDUP oldsz \<le> a"
    and pv: "\<And>va. va < 2 ^ 32 \<Longrightarrow> pte_val (kmem s2) d va = (if va div PGSIZE = a div PGSIZE then V2P x OR 7 else pte_val (kmem s) d va)"
    and ms: "mem_step (insert d (set (x # xs) \<union> tables (kmem s) d)) s s2" and z: "\<forall>i < PGSIZE. kmem s2 (x + i) = 0"
    and ys: "set ys \<union> tables (kmem s2) d = set xs \<union> tables (kmem s) d" "length xs \<le> length ys + 1" "set ys \<subseteq> set xs"
    and o: "grow_outcome s2 ys d (a + PGSIZE) oldsz newsz r s'"
  shows "grow_outcome s (x # xs) d a oldsz newsz r s'"
proof -
  let ?b = "PGROUNDUP oldsz"
  have so: "same_outside (kmem s) (kmem s2) d a newsz"
    using pv a(2) same_page [OF a(1)] by (auto simp: same_outside_def PGROUNDDOWN_def) (metis a(1) add.right_neutral div_mult_mod_eq)
  have x: "page_ok s x" "x \<notin> insert d (set xs \<union> tables (kmem s) d)"
    using uvm_invD(1) [OF U] by (auto simp: vm_inv_def kinv_def)
  show ?thesis
  proof (cases "r = newsz")
    case True
    then have h: "zero_mapped (kmem s') d (a + PGSIZE) newsz ys" "same_outside (kmem s2) (kmem s') d (a + PGSIZE) newsz"
      "mem_step (insert d (set ys \<union> tables (kmem s2) d)) s2 s'" using o by (simp_all add: grow_outcome_def)
    have h3: "mem_step (insert d (set xs \<union> tables (kmem s) d)) s2 s'" using h(3) unfolding ys(1) .
    have "kmem s' (x + i) = 0" if i: "i < PGSIZE" for i
    proof -
      have "kmem s' (x + i) = kmem s2 (x + i)"
      proof (rule same_but_page)
        show "same_but (insert d (set xs \<union> tables (kmem s) d)) (kmem s2) (kmem s')" using h3 by (simp add: mem_step_def)
        show "\<forall>p \<in> insert d (set xs \<union> tables (kmem s) d). p mod PGSIZE = 0"
          using uvm_invD(1) [OF U] by (auto simp: vm_inv_def kinv_def page_ok_def)
      qed (use x i in \<open>auto simp: in_page_def page_ok_def\<close>)
      then show ?thesis using z i by simp
    qed
    moreover have "pte_val (kmem s') d a = V2P x OR 7"
      using h(2) pv [of a] a(2,3) by (simp add: same_outside_def)
    ultimately have za: "pte_val (kmem s') d a = V2P x OR 7 \<and> (\<forall>i < PGSIZE. kmem s' (x + i) = 0)" by simp
    have "zero_mapped (kmem s') d a newsz (x # xs)" unfolding zero_mapped_def
    proof (intro allI impI)
      fix v assume v: "v mod PGSIZE = 0 \<and> a \<le> v \<and> v < newsz"
      show "\<exists>y \<in> set (x # xs). pte_val (kmem s') d v = V2P y OR 7 \<and> (\<forall>i < PGSIZE. kmem s' (y + i) = 0)"
      proof (cases "v = a")
        case True
        then show ?thesis using za by auto
      next
        case False
        then have "a + PGSIZE \<le> v" using page_disjoint [of v a] v a(1) by auto
        then show ?thesis using h(1) v ys(3) unfolding zero_mapped_def by (metis list.set_intros(2) subsetD)
      qed
    qed
    moreover have "same_outside (kmem s) (kmem s') d a newsz"
      using same_outside_trans [OF so same_outside_weaken [OF h(2)]] by simp
    moreover have "mem_step (insert d (set (x # xs) \<union> tables (kmem s) d)) s s'"
      using mem_step_trans [OF ms h3] by (rule mem_step_mono) auto
    ultimately show ?thesis using True by (simp add: grow_outcome_def)
  next
    case False
    then have h: "r = 0" "none_mapped (kmem s') d ?b newsz" "same_outside (kmem s2) (kmem s') d ?b newsz"
      "mem_step (insert d (set ys \<union> tables (kmem s2) d \<union> frames_in (kmem s2) d ?b newsz)) s2 s'"
      "newsz > a + PGSIZE + PGSIZE * (length ys div 2)" using o by (simp_all add: grow_outcome_def)
    have "frames_in (kmem s2) d ?b newsz \<subseteq> insert x (frames_in (kmem s) d ?b newsz)"
    proof
      fix f assume "f \<in> frames_in (kmem s2) d ?b newsz"
      then obtain v where v: "v \<in> umapped (kmem s2) d" "?b \<le> v" "v < newsz" "f = uframe (kmem s2) d v" by (auto simp: frames_in_def)
      then have "v < 2 ^ 32" by (simp add: umapped_def)
      note p = pv [OF this]
      have "(7 :: nat) < PGSIZE" by simp
      note w = pte_addr(1) [OF x(1) this]
      show "f \<in> insert x (frames_in (kmem s) d ?b newsz)"
        using v p w by (cases "v div PGSIZE = a div PGSIZE") (auto simp: frames_in_def uframe_def umapped_def)
    qed
    then have "mem_step (insert d (set (x # xs) \<union> tables (kmem s) d \<union> frames_in (kmem s) d ?b newsz)) s s'"
      by (intro mem_step_mono [OF mem_step_trans [OF ms h(4) [unfolded ys(1)]]]) auto
    moreover have "newsz > a + PGSIZE * (length (x # xs) div 2)"
    proof -
      have "length (x # xs) div 2 \<le> (length ys + 2) div 2" using ys(2) by (intro div_le_mono) simp
      then have "length (x # xs) div 2 \<le> length ys div 2 + 1" by simp
      moreover have "p \<le> q + 1 \<Longrightarrow> a + PGSIZE + PGSIZE * q < newsz \<Longrightarrow> a + PGSIZE * p < newsz" for p q by linarith
      ultimately show ?thesis using h(5) by blast
    qed
    moreover have "same_outside (kmem s) (kmem s') d ?b newsz"
      using same_outside_trans [OF same_outside_weaken [OF so a(4)] h(3)] .
    ultimately show ?thesis using False h by (simp add: grow_outcome_def)
  qed
qed

lemma allocuvm_loop_ok:
  assumes "uvm_inv s xs d" "a mod PGSIZE = 0" "oldsz \<le> newsz" "newsz < KERNBASE" "PGROUNDUP oldsz \<le> a" "none_mapped (kmem s) d a newsz"
  shows "\<exists>r s' ys. allocuvm_loop d a oldsz newsz s = Ok (r, s') \<and> uvm_inv s' ys d \<and> grow_outcome s xs d a oldsz newsz r s'"
  using assms
proof (induction "newsz - a" arbitrary: s xs a rule: less_induct)
  case less
  show ?case
  proof (cases "a < newsz")
    case False
    then have "allocuvm_loop d a oldsz newsz s = Ok (newsz, s)" by (subst allocuvm_loop.simps) simp
    moreover have "grow_outcome s xs d a oldsz newsz newsz s" using False by (auto simp: grow_outcome_def zero_mapped_def same_outside_def)
    ultimately show ?thesis using less.prems(1) by blast
  next
    case an: True
    show ?thesis
    proof (cases xs)
      case Nil
      from alloc_no_page [OF less.prems(1) [unfolded Nil] an less.prems(3,4)] obtain s' ys where
        "allocuvm_loop d a oldsz newsz s = Ok (0, s')" "uvm_inv s' ys d" "none_mapped (kmem s') d (PGROUNDUP oldsz) newsz"
        "same_outside (kmem s) (kmem s') d (PGROUNDUP oldsz) newsz"
        "mem_step (insert d (tables (kmem s) d \<union> frames_in (kmem s) d (PGROUNDUP oldsz) newsz)) s s'" by blast
      then show ?thesis using an Nil by (auto simp: grow_outcome_def)
    next
      case (Cons x xs')
      note U = less.prems(1) [unfolded Cons]
      show ?thesis
      proof (cases "present (kmem s) d (PDX a) \<or> xs' \<noteq> []")
        case False
        then have e: "xs' = []" "\<not> present (kmem s) d (PDX a)" by auto
        from alloc_no_table [OF U [unfolded e] an less.prems(3,4,2) e(2)] obtain s' ys where
          "allocuvm_loop d a oldsz newsz s = Ok (0, s')" "uvm_inv s' ys d" "none_mapped (kmem s') d (PGROUNDUP oldsz) newsz"
          "same_outside (kmem s) (kmem s') d (PGROUNDUP oldsz) newsz"
          "mem_step (insert d (insert x (tables (kmem s) d \<union> frames_in (kmem s) d (PGROUNDUP oldsz) newsz))) s s'" by blast
        then show ?thesis using an Cons e by (auto simp: grow_outcome_def)
      next
        case True
        have ak: "a < KERNBASE" "a \<notin> umapped (kmem s) d" using an less.prems(4,6) by (auto simp: none_mapped_def)
        define s1 where "s1 = with_mem (range_upd x PGSIZE (\<lambda>_. 0) (kmem s)) (ldw (kmem s) x) s"
        from grow_step [OF U ak(1) less.prems(2) ak(2) True, folded s1_def] obtain s2 ys where
          g: "mappages d a PGSIZE (V2P x) 6 s1 = Ok (0, s2)" "uvm_inv s2 ys d"
          "\<And>va. va < 2 ^ 32 \<Longrightarrow> pte_val (kmem s2) d va = (if va div PGSIZE = a div PGSIZE then V2P x OR 7 else pte_val (kmem s) d va)"
          "mem_step (insert d (set (x # xs') \<union> tables (kmem s) d)) s s2" "\<forall>i < PGSIZE. kmem s2 (x + i) = 0"
          "set ys \<union> tables (kmem s2) d = set xs' \<union> tables (kmem s) d" "length xs' \<le> length ys + 1" "set ys \<subseteq> set xs'" by metis
        have nm: "none_mapped (kmem s2) d (a + PGSIZE) newsz"
          using less.prems(6) g(3) same_page [OF less.prems(2)] by (auto simp: none_mapped_def umapped_def)
        have a4: "(a + PGSIZE) mod PGSIZE = 0" "newsz - (a + PGSIZE) < newsz - a" "PGROUNDUP oldsz \<le> a + PGSIZE"
          using less.prems(2,5) an by auto
        obtain r s' zs where ih: "allocuvm_loop d (a + PGSIZE) oldsz newsz s2 = Ok (r, s')" "uvm_inv s' zs d"
          "grow_outcome s2 ys d (a + PGSIZE) oldsz newsz r s'"
          using less.hyps [OF a4(2) g(2) a4(1) less.prems(3,4) a4(3) nm] by blast
        have "(2 :: nat) OR 4 = 6" by simp
        then have "allocuvm_loop d a oldsz newsz s = Ok (r, s')"
          using an kalloc_uvm [OF U] g(1) ih(1) by (subst allocuvm_loop.simps) (simp add: Let_def memset_eq s1_def)
        moreover have "grow_outcome s xs d a oldsz newsz r s'" unfolding Cons
          by (rule grow_combine [OF U less.prems(2) an less.prems(4,5) g(3-8) ih(3)])
        ultimately show ?thesis using ih(2) by blast
      qed
    qed
  qed
qed

section \<open>Properties\<close>



text \<open>
  C11. Shrinking a process always returns: it unmaps the pages between the two
  sizes, puts their frames and nothing else on the free list, leaves the other
  translations, and writes only to the freed frames and to page tables.  The
  bound of the loop is enough for every size up to \<open>KERNBASE\<close>.
\<close>

theorem deallocuvm_spec:
  assumes "uvm_inv s xs d" "newsz \<le> oldsz" "oldsz \<le> KERNBASE"
  shows "\<exists>s' ys. deallocuvm d oldsz newsz s = Ok (newsz, s') \<and> uvm_inv s' ys d
    \<and> none_mapped (kmem s') d (PGROUNDUP newsz) oldsz \<and> same_outside (kmem s) (kmem s') d (PGROUNDUP newsz) oldsz
    \<and> set ys = set xs \<union> frames_in (kmem s) d (PGROUNDUP newsz) oldsz
    \<and> same_but (frames_in (kmem s) d (PGROUNDUP newsz) oldsz \<union> tables (kmem s) d) (kmem s) (kmem s')"
  using deallocuvm_ok [OF assms] unmapped_from_none_mapped by (fastforce simp: mem_step_def)

section \<open>A small machine\<close>

text \<open>An empty page directory and two free pages.\<close>

definition demo_vstate :: vstate where
  "demo_vstate = \<lparr>kmem = stw (KERNBASE + 0x300000) (KERNBASE + 0x301000) (\<lambda>_. 0), freelist = KERNBASE + 0x300000, use_lock = True,
     kend = KERNBASE + 0x101234, kdata = KERNBASE + 0x108000, kpgdir = 0, cr3 = 0, esp0 = 0\<rparr>"

lemma demo_ldw: "a + 4 \<le> KERNBASE + 0x300000 \<or> KERNBASE + 0x300004 \<le> a \<Longrightarrow> ldw (kmem demo_vstate) a = 0"
  by (simp add: demo_vstate_def ldw_stw_other) (simp add: ldw_def)

lemma demo_uvm: "uvm_inv demo_vstate [KERNBASE + 0x300000, KERNBASE + 0x301000] (KERNBASE + 0x200000)"
proof -
  let ?d = "KERNBASE + 0x200000" and ?m = "kmem demo_vstate"
  note z = demo_ldw
  have np: "\<not> present ?m ?d i" if "i < 1024" for i using z [of "?d + 4 * i"] that by (simp add: present_def pde_def)
  then have "tables ?m ?d = {}" by (auto simp: tables_def)
  moreover have "pte_val ?m ?d va = 0" for va using np [OF PDX_lt] by (simp add: pte_val_def)
  then have "umapped ?m ?d = {}" by (auto simp: umapped_def)
  moreover have "kinv demo_vstate [KERNBASE + 0x300000, KERNBASE + 0x301000]"
    using z [of "KERNBASE + 0x301000"] by (simp add: kinv_def page_ok_def) (simp add: demo_vstate_def ldw_stw)
  ultimately show ?thesis using np by (simp add: uvm_inv_def vm_inv_def page_ok_def) (simp add: demo_vstate_def)
qed

lemma demo_none: "pte_val (kmem demo_vstate) (KERNBASE + 0x200000) va = 0"
  using demo_ldw [of "KERNBASE + 0x200000 + 4 * PDX va"] PDX_lt [of va] by (simp add: pte_val_def present_def pde_def)



theorem deallocuvm_spec_witness:
  "\<exists>s' ys. deallocuvm (KERNBASE + 0x200000) 0x2000 0x1000 demo_vstate = Ok (0x1000, s') \<and> uvm_inv s' ys (KERNBASE + 0x200000)"
  using deallocuvm_spec [OF demo_uvm, of "0x1000" "0x2000"] by auto

end
