(* ===== verification/Vm_Frame.thy ===== *)
theory Vm_Frame
  imports Vm_Spec
begin

text \<open>
  What the memory operations leave alone: every one of them changes the memory and
  the free list only, so that the fields with which the later components extend
  the state keep their values.
\<close>

definition only_mem :: "'a vstate_scheme \<Rightarrow> 'a vstate_scheme \<Rightarrow> bool" where
  "only_mem s s' \<longleftrightarrow> s' = with_mem (kmem s') (freelist s') s"

lemma only_mem_refl [simp]: "only_mem s s"
  by (simp add: only_mem_def with_mem_same)

lemma only_mem_trans: "only_mem s t \<Longrightarrow> only_mem t u \<Longrightarrow> only_mem s u"
  unfolding only_mem_def by (metis with_mem_simps(5))

lemma only_mem_kmem: "only_mem s t \<Longrightarrow> only_mem s (t\<lparr>kmem := m\<rparr>)"
  unfolding only_mem_def by (metis with_mem_simps(1,2,4))

lemma only_mem_kalloc: "kalloc s = (a, t) \<Longrightarrow> only_mem s t"
  by (auto simp: kalloc_def Let_def only_mem_def with_mem_def)

lemma only_mem_kfree: "kfree v s = Ok t \<Longrightarrow> only_mem s t"
  by (auto simp: kfree_def Let_def only_mem_def with_mem_def split: if_splits)

lemma only_mem_walkpgdir:
  assumes "walkpgdir d va al s = (pte, t)"
  shows "only_mem s t"
proof -
  obtain a u where k: "kalloc s = (a, u)" by (rule prod.exhaust)
  show ?thesis using assms only_mem_kalloc [OF k]
    by (auto simp: walkpgdir_def k Let_def split: if_splits intro: only_mem_kmem)
qed

lemma only_mem_mappages_loop: "mappages_loop n d a lst pa perm s = Ok (r, t) \<Longrightarrow> only_mem s t"
proof (induction n arbitrary: a pa s)
  case (Suc n)
  obtain pte u where w: "walkpgdir d a True s = (pte, u)" by (rule prod.exhaust)
  note m = only_mem_kmem [OF only_mem_walkpgdir [OF w]]
  show ?case using Suc.prems only_mem_walkpgdir [OF w]
    by (auto simp: w Let_def split: if_splits intro: m only_mem_trans [OF m Suc.IH])
qed simp

lemma only_mem_mappages: "mappages d va sz pa perm s = Ok (r, t) \<Longrightarrow> only_mem s t"
  by (auto simp: mappages_def intro: only_mem_mappages_loop)

lemma only_mem_deallocuvm_loop: "deallocuvm_loop n d a oldsz s = Ok t \<Longrightarrow> only_mem s t"
proof (induction n arbitrary: a s)
  case (Suc n)
  obtain pte u where w: "walkpgdir d a False s = (pte, u)" by (rule prod.exhaust)
  note m = only_mem_walkpgdir [OF w]
  show ?case
  proof (cases "a < oldsz \<and> pte \<noteq> 0 \<and> bit (ldw (kmem u) pte) 0")
    case True
    then obtain v where v: "kfree (P2V (PTE_ADDR (ldw (kmem u) pte))) u = Ok v"
      "deallocuvm_loop n d ((a + PGSIZE) mod 2 ^ 32) oldsz (v\<lparr>kmem := stw pte 0 (kmem v)\<rparr>) = Ok t"
      using Suc.prems w by (auto simp: Let_def split: if_splits)
    show ?thesis
      by (rule only_mem_trans [OF only_mem_kmem [OF only_mem_trans [OF m only_mem_kfree [OF v(1)]]] Suc.IH [OF v(2)]])
  next
    case False
    then show ?thesis using Suc.prems w by (auto simp: Let_def split: if_splits intro: only_mem_trans [OF m Suc.IH])
  qed
qed simp

lemma only_mem_deallocuvm: "deallocuvm d oldsz newsz s = Ok (r, t) \<Longrightarrow> only_mem s t"
  by (auto simp: deallocuvm_def split: if_splits intro: only_mem_deallocuvm_loop)

lemma only_mem_freevm_loop: "freevm_loop i d s = Ok t \<Longrightarrow> only_mem s t"
proof (induction i d s rule: freevm_loop.induct)
  case (1 i d s)
  show ?case
  proof (cases "i < 1024 \<and> bit (ldw (kmem s) (d + 4 * i)) 0")
    case True
    then obtain u where u: "kfree (P2V (PTE_ADDR (ldw (kmem s) (d + 4 * i)))) s = Ok u" "freevm_loop (i + 1) d u = Ok t"
      using 1(3) by (subst (asm) freevm_loop.simps) auto
    show ?thesis by (rule only_mem_trans [OF only_mem_kfree [OF u(1)]]) (use 1(1) True u in blast)
  next
    case False
    then show ?thesis using 1(2,3) by (subst (asm) (2) freevm_loop.simps) (auto split: if_splits)
  qed
qed

lemma only_mem_freevm: "freevm d s = Ok t \<Longrightarrow> only_mem s t"
  by (auto simp: freevm_def split: if_splits elim!: bindr_OkE
      intro: only_mem_trans [OF only_mem_trans [OF only_mem_deallocuvm only_mem_freevm_loop] only_mem_kfree])

lemma only_mem_setupkvm_loop: "setupkvm_loop k d s = Ok (r, t) \<Longrightarrow> only_mem s t"
proof (induction k arbitrary: s)
  case (Cons e k)
  obtain virt ps pe perm where e: "e = (virt, ps, pe, perm)" by (rule prod_cases4)
  obtain x u where m: "mappages d virt ((pe + (2 ^ 32 - ps)) mod 2 ^ 32) ps perm s = Ok (x, u)"
    "(if x < 0 then bindr (freevm d u) (\<lambda>s. Ok (0, s)) else setupkvm_loop k d u) = Ok (r, t)"
    using Cons.prems by (auto simp: e)
  show ?case using m(2) Cons.IH
    by (auto split: if_splits intro: only_mem_trans [OF only_mem_mappages [OF m(1)]] only_mem_freevm)
qed simp

lemma only_mem_setupkvm:
  assumes "setupkvm s = Ok (d, t)"
  shows "only_mem s t"
proof -
  obtain a u where k: "kalloc s = (a, u)" by (rule prod.exhaust)
  note u = only_mem_kalloc [OF k]
  show ?thesis using assms u
    by (auto simp: setupkvm_def k Let_def split: if_splits intro: only_mem_trans [OF only_mem_kmem [OF u] only_mem_setupkvm_loop])
qed

lemma only_mem_copyuvm_loop: "copyuvm_loop n i d0 d sz s = Ok (r, t) \<Longrightarrow> only_mem s t"
proof (induction n arbitrary: i s)
  case (Suc n)
  obtain pte u where w: "walkpgdir d0 i False s = (pte, u)" by (rule prod.exhaust)
  obtain a v where k: "kalloc u = (a, v)" by (rule prod.exhaust)
  note su = only_mem_walkpgdir [OF w]
  note sv = only_mem_trans [OF su only_mem_kalloc [OF k]]
  show ?case
  proof (cases "i < sz \<and> pte \<noteq> 0 \<and> bit (ldw (kmem u) pte) 0 \<and> a \<noteq> 0")
    case True
    define v' where "v' = v\<lparr>kmem := memmove a (P2V (PTE_ADDR (ldw (kmem u) pte))) PGSIZE (kmem v)\<rparr>"
    have sv': "only_mem s v'" using only_mem_kmem [OF sv] by (simp add: v'_def)
    obtain x y where m: "mappages d i PGSIZE (V2P a) (PTE_FLAGS (ldw (kmem u) pte)) v' = Ok (x, y)"
      "(if x < 0 then bindr (kfree a y) (\<lambda>s. bindr (freevm d s) (\<lambda>s. Ok (0, s)))
        else copyuvm_loop n ((i + PGSIZE) mod 2 ^ 32) d0 d sz y) = Ok (r, t)"
      using Suc.prems True w k by (auto simp: Let_def v'_def split: prod.splits)
    note sy = only_mem_trans [OF sv' only_mem_mappages [OF m(1)]]
    show ?thesis using m(2) Suc.IH
      by (auto split: if_splits elim!: bindr_OkE intro: only_mem_trans [OF sy] only_mem_trans [OF only_mem_kfree only_mem_freevm])
  next
    case False
    then show ?thesis using Suc.prems w k
      by (auto simp: Let_def split: if_splits intro: only_mem_trans [OF su Suc.IH] only_mem_trans [OF sv only_mem_freevm])
  qed
qed simp

lemma only_mem_copyuvm: "copyuvm d sz s = Ok (r, t) \<Longrightarrow> only_mem s t"
  by (auto simp: copyuvm_def split: if_splits elim!: bindr_OkE intro: only_mem_setupkvm only_mem_trans [OF only_mem_setupkvm only_mem_copyuvm_loop])

lemma only_mem_inituvm:
  assumes "inituvm d img s = Ok t"
  shows "only_mem s t"
proof -
  obtain a u where k: "kalloc s = (a, u)" by (rule prod.exhaust)
  note u = only_mem_kmem [OF only_mem_kalloc [OF k]]
  show ?thesis using assms
    by (auto simp: inituvm_def k Let_def split: if_splits elim!: bindr_OkE intro: only_mem_kmem only_mem_trans [OF u only_mem_mappages])
qed

end
