(* ===== verification/File.thy ===== *)
theory File
  imports Proc_Table Vm_Frame Inode
begin

text \<open>
  Open files (src/xv6/file.c) and \<open>pipealloc\<close> of src/xv6/pipe.c.  The state
  joins the processes and the memory with the file system; a call into the file
  system runs for the current process.  A call that has to wait at a pipe leaves
  its process asleep and says so.
\<close>

section \<open>State\<close>

datatype ftype = FD_NONE | FD_PIPE | FD_INODE

record kfile =
  f_type :: ftype
  f_ref :: int
  f_readable :: bool
  f_writable :: bool
  f_pipe :: nat
  f_ip :: nat
  f_off :: nat

text \<open>A pipe is named by the page it lives in.\<close>

record kernel = pstate +
  fsys :: fstate
  ftable :: "nat \<Rightarrow> kfile"
  pipes :: "nat \<Rightarrow> pipe"

definition upd_file :: "nat \<Rightarrow> (kfile \<Rightarrow> kfile) \<Rightarrow> 'a kernel_scheme \<Rightarrow> 'a kernel_scheme" where
  "upd_file f g s = s\<lparr>ftable := (ftable s)(f := g (ftable s f))\<rparr>"

definition my_pid :: "'a kernel_scheme \<Rightarrow> int" where
  "my_pid s = (case cur s of None \<Rightarrow> 0 | Some p \<Rightarrow> sint (pr_pid (ptable s p)))"

definition my_killed :: "'a kernel_scheme \<Rightarrow> bool" where
  "my_killed s = (case cur s of None \<Rightarrow> False | Some p \<Rightarrow> pr_killed (ptable s p))"

text \<open>A call into the file system, without and with a result.\<close>

definition fs_do :: "(fstate \<Rightarrow> fstate res) \<Rightarrow> 'a kernel_scheme \<Rightarrow> 'a kernel_scheme res" where
  "fs_do g s = bindr (g ((fsys s)\<lparr>curpid := my_pid s\<rparr>)) (\<lambda>t. Ok (s\<lparr>fsys := t\<rparr>))"

definition fs_get :: "(fstate \<Rightarrow> ('x \<times> fstate) res) \<Rightarrow> 'a kernel_scheme \<Rightarrow> ('x \<times> 'a kernel_scheme) res" where
  "fs_get g s = bindr (g ((fsys s)\<lparr>curpid := my_pid s\<rparr>)) (\<lambda>(x, t). Ok (x, s\<lparr>fsys := t\<rparr>))"

section \<open>Operations\<close>

definition filealloc :: "'a kernel_scheme \<Rightarrow> nat option \<times> 'a kernel_scheme" where
  "filealloc s =
     (case find (\<lambda>f. f_ref (ftable s f) = 0) [0..<NFILE] of
        None \<Rightarrow> (None, s)
      | Some f \<Rightarrow> (Some f, upd_file f (\<lambda>r. r\<lparr>f_ref := 1\<rparr>) s))"

definition filedup :: "nat \<Rightarrow> 'a kernel_scheme \<Rightarrow> (nat \<times> 'a kernel_scheme) res" where
  "filedup f s =
     (if f_ref (ftable s f) < 1 then Err (Panic ''filedup'')
      else Ok (f, upd_file f (\<lambda>r. r\<lparr>f_ref := f_ref r + 1\<rparr>) s))"

text \<open>\<open>pipeclose\<close> with its wake-up and the page it frees.\<close>

definition close_pipe_end :: "nat \<Rightarrow> bool \<Rightarrow> 'a kernel_scheme \<Rightarrow> 'a kernel_scheme res" where
  "close_pipe_end pi writable s =
     (case pipeclose writable (pipes s pi) of (p, ch, gone) \<Rightarrow>
        let s = wakeup (PipeChan pi ch) (s\<lparr>pipes := (pipes s)(pi := p)\<rparr>) in
        if gone then kfree pi s else Ok s)"

definition fileclose :: "nat \<Rightarrow> 'a kernel_scheme \<Rightarrow> 'a kernel_scheme res" where
  "fileclose f s =
     (if f_ref (ftable s f) < 1 then Err (Panic ''fileclose'')
      else
        let s = upd_file f (\<lambda>r. r\<lparr>f_ref := f_ref r - 1\<rparr>) s in
        if f_ref (ftable s f) > 0 then Ok s
        else
          let ff = ftable s f; s = upd_file f (\<lambda>r. r\<lparr>f_ref := 0, f_type := FD_NONE\<rparr>) s in
          (case f_type ff of
             FD_PIPE \<Rightarrow> close_pipe_end (f_pipe ff) (f_writable ff) s
           | FD_INODE \<Rightarrow> fs_do (\<lambda>t. bindr (begin_op t) (\<lambda>t. bindr (iput (f_ip ff) t) end_op)) s
           | FD_NONE \<Rightarrow> Ok s))"

text \<open>
  \<open>pipealloc\<close> yields the two files.  The bytes of the buffer are those that the
  page happens to hold behind the lock, which has 52 bytes.
\<close>

definition pipealloc_bad :: "nat option \<Rightarrow> nat option \<Rightarrow> 'a kernel_scheme \<Rightarrow> ((nat \<times> nat) option \<times> 'a kernel_scheme) res" where
  "pipealloc_bad f0 f1 s =
     bindr (case f0 of None \<Rightarrow> Ok s | Some f \<Rightarrow> fileclose f s) (\<lambda>s.
     bindr (case f1 of None \<Rightarrow> Ok s | Some f \<Rightarrow> fileclose f s) (\<lambda>s. Ok (None, s)))"

definition pipealloc :: "'a kernel_scheme \<Rightarrow> ((nat \<times> nat) option \<times> 'a kernel_scheme) res" where
  "pipealloc s =
     (case filealloc s of (f0, s) \<Rightarrow>
        (case f0 of
           None \<Rightarrow> pipealloc_bad None None s
         | Some g0 \<Rightarrow>
             (case filealloc s of (f1, s) \<Rightarrow>
                (case f1 of
                   None \<Rightarrow> pipealloc_bad f0 None s
                 | Some g1 \<Rightarrow>
                     (case kalloc s of (p, s) \<Rightarrow>
                        if p = 0 then pipealloc_bad f0 f1 s
                        else
                          let s = s\<lparr>pipes := (pipes s)(p := pipe_new (map (\<lambda>i. kmem s (p + 52 + i)) [0..<PIPESIZE]))\<rparr>;
                              s = upd_file g0 (\<lambda>r. r\<lparr>f_type := FD_PIPE, f_readable := True, f_writable := False, f_pipe := p\<rparr>) s;
                              s = upd_file g1 (\<lambda>r. r\<lparr>f_type := FD_PIPE, f_readable := False, f_writable := True, f_pipe := p\<rparr>) s in
                          Ok (Some (g0, g1), s))))))"

definition filestat :: "nat \<Rightarrow> 'a kernel_scheme \<Rightarrow> (stat option \<times> 'a kernel_scheme) res" where
  "filestat f s =
     (if f_type (ftable s f) = FD_INODE then
        let ip = f_ip (ftable s f) in
        fs_get (\<lambda>t. bindr (ilock ip t) (\<lambda>t. bindr (iunlock ip t) (\<lambda>t'. Ok (Some (stati ip t), t')))) s
      else Ok (None, s))"

datatype fread = ReadReturns int "byte list" | ReadBlocks

definition read_pipe :: "nat \<Rightarrow> int \<Rightarrow> 'a kernel_scheme \<Rightarrow> (fread \<times> 'a kernel_scheme) res" where
  "read_pipe pi n s =
     (case piperead (my_killed s) n (pipes s pi) of (p, r, wake) \<Rightarrow>
        let s = s\<lparr>pipes := (pipes s)(pi := p)\<rparr>;
            s = (if wake then wakeup (PipeChan pi Nwrite) s else s) in
        (case r of
           Got bs \<Rightarrow> Ok (ReadReturns (int (length bs)) bs, s)
         | ReadFails \<Rightarrow> Ok (ReadReturns (- 1) [], s)
         | ReadSleeps \<Rightarrow> bindr (sleep (PipeChan pi Nread) s) (\<lambda>s. Ok (ReadBlocks, s))))"

definition fileread :: "(int \<Rightarrow> fstate device) \<Rightarrow> nat \<Rightarrow> int \<Rightarrow> 'a kernel_scheme \<Rightarrow> (fread \<times> 'a kernel_scheme) res" where
  "fileread dv f n s =
     (let r = ftable s f in
      if \<not> f_readable r then Ok (ReadReturns (- 1) [], s)
      else case f_type r of
        FD_PIPE \<Rightarrow> read_pipe (f_pipe r) n s
      | FD_INODE \<Rightarrow>
          bindr (fs_get (\<lambda>t.
            bindr (ilock (f_ip r) t) (\<lambda>t.
            bindr (readi dv (f_ip r) (f_off r) (nat (n mod 2 ^ 32)) t) (\<lambda>(x, t).
            bindr (iunlock (f_ip r) t) (\<lambda>t. Ok (x, t))))) s) (\<lambda>((k, bs), s).
          let s = (if k > 0 then upd_file f (\<lambda>r. r\<lparr>f_off := (f_off r + nat k) mod 2 ^ 32\<rparr>) s else s) in
          Ok (ReadReturns k bs, s))
      | FD_NONE \<Rightarrow> Err (Panic ''fileread''))"

datatype fwrite = WriteReturns int | WriteBlocks "byte list"

definition write_pipe :: "nat \<Rightarrow> byte list \<Rightarrow> 'a kernel_scheme \<Rightarrow> (fwrite \<times> 'a kernel_scheme) res" where
  "write_pipe pi bs s =
     (case pipewrite (my_killed s) bs (pipes s pi) of (p, r, wake) \<Rightarrow>
        let s = s\<lparr>pipes := (pipes s)(pi := p)\<rparr>;
            s = (if wake then wakeup (PipeChan pi Nread) s else s) in
        (case r of
           WrittenAll \<Rightarrow> Ok (WriteReturns (int (length bs)), s)
         | WriteFails \<Rightarrow> Ok (WriteReturns (- 1), s)
         | WriteSleeps rest \<Rightarrow> bindr (sleep (PipeChan pi Nwrite) s) (\<lambda>s. Ok (WriteBlocks rest, s))))"

text \<open>One transaction of \<open>filewrite\<close>; the offset moves while the inode is locked.\<close>

definition write_chunk :: "(int \<Rightarrow> fstate device) \<Rightarrow> nat \<Rightarrow> byte list \<Rightarrow> nat \<Rightarrow> 'a kernel_scheme \<Rightarrow> (int \<times> 'a kernel_scheme) res" where
  "write_chunk dv f src n1 s =
     (let r = ftable s f in
      bindr (fs_get (\<lambda>t.
        bindr (begin_op t) (\<lambda>t.
        bindr (ilock (f_ip r) t) (\<lambda>t.
        bindr (writei dv (f_ip r) src (f_off r) n1 t) (\<lambda>(k, t).
        bindr (iunlock (f_ip r) t) (\<lambda>t.
        bindr (end_op t) (\<lambda>t. Ok (k, t))))))) s) (\<lambda>(k, s).
      Ok (k, if k > 0 then upd_file f (\<lambda>r. r\<lparr>f_off := (f_off r + nat k) mod 2 ^ 32\<rparr>) s else s)))"

definition max_chunk :: nat where [layout_simps]: "max_chunk = (MAXOPBLOCKS - 1 - 1 - 2) div 2 * 512"

function filewrite_loop :: "(int \<Rightarrow> fstate device) \<Rightarrow> nat \<Rightarrow> byte list \<Rightarrow> nat \<Rightarrow> 'a kernel_scheme \<Rightarrow> (nat \<times> 'a kernel_scheme) res" where
  "filewrite_loop dv f src i s =
     (if i < length src then
        let n1 = (if length src - i > max_chunk then max_chunk else length src - i) in
        bindr (write_chunk dv f (drop i src) n1 s) (\<lambda>(r, s).
          if r < 0 then Ok (i, s)
          else if r \<noteq> int n1 then Err (Panic ''short filewrite'')
          else filewrite_loop dv f src (i + n1) s)
      else Ok (i, s))"
  by pat_completeness auto
termination
  by (relation "measure (\<lambda>(dv, f, src, i, s). length src - i)") (auto simp: layout_simps split: if_splits)

declare filewrite_loop.simps [simp del]

text \<open>The bytes to write are as many as the argument \<open>n\<close> says.\<close>

definition filewrite :: "(int \<Rightarrow> fstate device) \<Rightarrow> nat \<Rightarrow> byte list \<Rightarrow> 'a kernel_scheme \<Rightarrow> (fwrite \<times> 'a kernel_scheme) res" where
  "filewrite dv f src s =
     (let r = ftable s f in
      if \<not> f_writable r then Ok (WriteReturns (- 1), s)
      else case f_type r of
        FD_PIPE \<Rightarrow> write_pipe (f_pipe r) src s
      | FD_INODE \<Rightarrow>
          bindr (filewrite_loop dv f src 0 s) (\<lambda>(i, s).
            Ok (WriteReturns (if i = length src then int (length src) else - 1), s))
      | FD_NONE \<Rightarrow> Err (Panic ''filewrite''))"

end
