(* ===== verification/Proc.thy ===== *)
theory Proc
  imports File
begin

text \<open>
  Processes (src/xv6/proc.c: \<open>fork\<close>, \<open>exit\<close>, \<open>wait\<close>) with the page-fault handler of
  src/xv6/trap.c, which also serves the kernel when it stores into user memory.
\<close>

section \<open>Page faults\<close>

definition reservarPagina :: "nat \<Rightarrow> nat \<Rightarrow> 'a kernel_scheme \<Rightarrow> (int \<times> 'a kernel_scheme) res" where
  "reservarPagina p va s =
     (case kalloc s of (mem, s) \<Rightarrow>
        if mem = 0 then Ok (- 1, s)
        else
          let s = s\<lparr>kmem := memset mem 0 PGSIZE (kmem s)\<rparr> in
          bindr (mappages (pr_pgdir (ptable s p)) (PGROUNDDOWN va) PGSIZE (V2P mem) (PTE_W OR PTE_U) s) (\<lambda>(r, s).
            if r < 0 then bindr (kfree mem s) (\<lambda>s. Ok (- 1, s)) else Ok (0, s)))"

definition set_killed :: "nat \<Rightarrow> 'a pstate_scheme \<Rightarrow> 'a pstate_scheme" where
  "set_killed p s = upd_proc p (\<lambda>r. r\<lparr>pr_killed := True\<rparr>) s"

text \<open>The case \<open>T_PGFLT\<close> of \<open>trap\<close> for the faulting address \<open>cr2\<close>.\<close>

definition page_fault :: "nat \<Rightarrow> 'a kernel_scheme \<Rightarrow> 'a kernel_scheme res" where
  "page_fault cr2 s =
     (case cur s of
        None \<Rightarrow> Err Fault
      | Some p \<Rightarrow>
          let dirErr = PGROUNDDOWN cr2 in
          if dirErr \<ge> pr_sz (ptable s p) then Ok (set_killed p s)
          else if dirErr \<ge> KERNBASE then Ok (set_killed p s)
          else if dirErr = pr_guard (ptable s p) then Ok (set_killed p s)
          else bindr (reservarPagina p cr2 s) (\<lambda>(r, s). Ok (if r < 0 then set_killed p s else s)))"

text \<open>
  The address through which the kernel reaches a user byte of the current
  process, to read it or (\<open>wr\<close>) to write it, after at most one fault: an
  instruction that faults again after the handler has returned faults for ever.
\<close>

definition user_pa :: "bool \<Rightarrow> nat \<Rightarrow> nat \<Rightarrow> 'a vstate_scheme \<Rightarrow> nat option" where
  "user_pa wr pgdir va s =
     (let pte = fst (walkpgdir pgdir va False s) in
      if pte \<noteq> 0 \<and> bit (ldw (kmem s) pte) 0 \<and> (wr \<longrightarrow> bit (ldw (kmem s) pte) 1)
      then Some (P2V (PTE_ADDR (ldw (kmem s) pte)) + va mod PGSIZE) else None)"

fun touch :: "nat \<Rightarrow> bool \<Rightarrow> nat \<Rightarrow> 'a kernel_scheme \<Rightarrow> (nat \<times> 'a kernel_scheme) res" where
  "touch 0 wr va s = Err NoFuel"
| "touch (Suc n) wr va s =
     (case cur s of
        None \<Rightarrow> Err Fault
      | Some p \<Rightarrow>
          (case user_pa wr (pr_pgdir (ptable s p)) va s of
             Some a \<Rightarrow> Ok (a, s)
           | None \<Rightarrow> bindr (page_fault va s) (touch n wr va)))"

fun put_user :: "nat \<Rightarrow> byte list \<Rightarrow> 'a kernel_scheme \<Rightarrow> 'a kernel_scheme res" where
  "put_user va [] s = Ok s"
| "put_user va (b # bs) s =
     bindr (touch 2 True va s) (\<lambda>(a, s). put_user ((va + 1) mod 2 ^ 32) bs (s\<lparr>kmem := (kmem s)(a := b)\<rparr>))"

fun get_user :: "nat \<Rightarrow> nat \<Rightarrow> 'a kernel_scheme \<Rightarrow> (byte list \<times> 'a kernel_scheme) res" where
  "get_user va 0 s = Ok ([], s)"
| "get_user va (Suc n) s =
     bindr (touch 2 False va s) (\<lambda>(a, s).
       let b = kmem s a in
       bindr (get_user ((va + 1) mod 2 ^ 32) n s) (\<lambda>(bs, s). Ok (b # bs, s)))"

section \<open>fork\<close>

fun fork_files :: "nat \<Rightarrow> nat option list \<Rightarrow> nat \<Rightarrow> 'a kernel_scheme \<Rightarrow> 'a kernel_scheme res" where
  "fork_files np [] i s = Ok s"
| "fork_files np (fo # fs) i s =
     (case fo of
        None \<Rightarrow> fork_files np fs (i + 1) s
      | Some f \<Rightarrow>
          bindr (filedup f s) (\<lambda>(f, s).
            fork_files np fs (i + 1) (upd_proc np (\<lambda>r. r\<lparr>pr_ofile := (pr_ofile r)[i := Some f]\<rparr>) s)))"

text \<open>What \<open>fork\<close> does once the memory is copied; the name is a C string in 16 bytes.\<close>

definition fork_child :: "nat \<Rightarrow> nat \<Rightarrow> 'a kernel_scheme \<Rightarrow> (32 word \<times> 'a kernel_scheme) res" where
  "fork_child p np s =
     (let c = ptable s p;
          s = upd_proc np (\<lambda>r. r\<lparr>pr_sz := pr_sz c, pr_parent := Some p, pr_tf := (pr_tf c)\<lparr>tf_eax := 0\<rparr>\<rparr>) s in
      bindr (fork_files np (pr_ofile c) 0 s) (\<lambda>s.
      (case pr_cwd c of
         None \<Rightarrow> Err Fault
       | Some ip \<Rightarrow>
           bindr (fs_get (\<lambda>t. Ok (idup ip t)) s) (\<lambda>(ip, s).
           let s = upd_proc np (\<lambda>r. r\<lparr>pr_cwd := Some ip, pr_name := take 15 (pr_name c)\<rparr>) s;
               pid = pr_pid (ptable s np) in
           Ok (pid, upd_proc np (\<lambda>r. r\<lparr>pr_state := RUNNABLE\<rparr>) s)))))"

definition fork :: "'a kernel_scheme \<Rightarrow> (32 word \<times> 'a kernel_scheme) res" where
  "fork s =
     (case cur s of
        None \<Rightarrow> Err Fault
      | Some p \<Rightarrow>
          (case allocproc s of (np, s) \<Rightarrow>
             (case np of
                None \<Rightarrow> Ok (- 1, s)
              | Some np \<Rightarrow>
                  bindr (copyuvm (pr_pgdir (ptable s p)) (pr_sz (ptable s p)) s) (\<lambda>(d, s).
                  let s = upd_proc np (\<lambda>r. r\<lparr>pr_pgdir := d\<rparr>) s in
                  if d = 0 then
                    bindr (kfree (pr_kstack (ptable s np)) s) (\<lambda>s.
                      Ok (- 1, upd_proc np (\<lambda>r. r\<lparr>pr_kstack := 0, pr_state := UNUSED\<rparr>) s))
                  else fork_child p np s))))"

section \<open>exit\<close>

fun close_files :: "nat \<Rightarrow> nat list \<Rightarrow> 'a kernel_scheme \<Rightarrow> 'a kernel_scheme res" where
  "close_files p [] s = Ok s"
| "close_files p (fd # fds) s =
     (case pr_ofile (ptable s p) ! fd of
        None \<Rightarrow> close_files p fds s
      | Some f \<Rightarrow>
          bindr (fileclose f s) (\<lambda>s.
            close_files p fds (upd_proc p (\<lambda>r. r\<lparr>pr_ofile := (pr_ofile r)[fd := None]\<rparr>) s)))"

text \<open>One turn of the loop that passes abandoned children to init.\<close>

definition pass_child :: "nat \<Rightarrow> nat \<Rightarrow> 'a pstate_scheme \<Rightarrow> 'a pstate_scheme" where
  "pass_child p q s =
     (if pr_parent (ptable s q) = Some p then
        let s = upd_proc q (\<lambda>r. r\<lparr>pr_parent := initproc s\<rparr>) s in
        (case initproc s of
           None \<Rightarrow> s
         | Some i \<Rightarrow> if pr_state (ptable s q) = ZOMBIE then wakeup1 (ProcChan i) s else s)
      else s)"

text \<open>A null pointer is the channel of no sleeper.\<close>

definition wake_parent :: "nat option \<Rightarrow> 'a pstate_scheme \<Rightarrow> 'a pstate_scheme" where
  "wake_parent q s = (case q of None \<Rightarrow> s | Some r \<Rightarrow> wakeup1 (ProcChan r) s)"

text \<open>What \<open>exit\<close> does under \<open>ptable.lock\<close>.\<close>

definition exit_leave :: "nat \<Rightarrow> 'a pstate_scheme \<Rightarrow> 'a pstate_scheme res" where
  "exit_leave p s =
     (let s = wake_parent (pr_parent (ptable s p)) s;
          s = fold (pass_child p) [0..<NPROC] s;
          s = upd_proc p (\<lambda>r. r\<lparr>pr_state := ZOMBIE\<rparr>) s in
      sched s)"

definition exit :: "32 word \<Rightarrow> 'a kernel_scheme \<Rightarrow> 'a kernel_scheme res" where
  "exit status s =
     (case cur s of
        None \<Rightarrow> Err Fault
      | Some p \<Rightarrow>
          let s = upd_proc p (\<lambda>r. r\<lparr>pr_status := status\<rparr>) s in
          if initproc s = Some p then Err (Panic ''init exiting'')
          else
            bindr (close_files p [0..<NOFILE] s) (\<lambda>s.
            (case pr_cwd (ptable s p) of
               None \<Rightarrow> Err Fault
             | Some ip \<Rightarrow>
                 bindr (fs_do (\<lambda>t. bindr (begin_op t) (\<lambda>t. bindr (iput ip t) end_op)) s) (\<lambda>s.
                   exit_leave p (upd_proc p (\<lambda>r. r\<lparr>pr_cwd := None\<rparr>) s)))))"

section \<open>wait\<close>

text \<open>The scan of the table: the first exited child, or whether there are children at all.\<close>

fun wait_scan :: "nat \<Rightarrow> nat list \<Rightarrow> bool \<Rightarrow> (nat \<Rightarrow> proc) \<Rightarrow> nat + bool" where
  "wait_scan p [] havekids t = Inr havekids"
| "wait_scan p (q # qs) havekids t =
     (if pr_parent (t q) \<noteq> Some p then wait_scan p qs havekids t
      else if pr_state (t q) = ZOMBIE then Inl q
      else wait_scan p qs True t)"

definition reap :: "nat \<Rightarrow> 'a kernel_scheme \<Rightarrow> 'a kernel_scheme res" where
  "reap q s =
     bindr (kfree (pr_kstack (ptable s q)) s) (\<lambda>s.
     bindr (freevm (pr_pgdir (ptable s q)) (upd_proc q (\<lambda>r. r\<lparr>pr_kstack := 0\<rparr>) s)) (\<lambda>s.
       Ok (upd_proc q (\<lambda>r. r\<lparr>pr_pid := 0, pr_parent := None, pr_name := [], pr_killed := False, pr_state := UNUSED\<rparr>) s)))"

datatype wait_out = Reaped "32 word" | NoChild | WaitSleeps

text \<open>One turn of the outer loop of \<open>wait\<close>, whose argument is the address for the status.\<close>

definition wait :: "nat \<Rightarrow> 'a kernel_scheme \<Rightarrow> (wait_out \<times> 'a kernel_scheme) res" where
  "wait status s =
     (case cur s of
        None \<Rightarrow> Err Fault
      | Some p \<Rightarrow>
          (case wait_scan p [0..<NPROC] False (ptable s) of
             Inl q \<Rightarrow>
               let pid = pr_pid (ptable s q) in
               bindr (reap q s) (\<lambda>s.
               bindr (put_user status (le_bytes 4 (unat (pr_status (ptable s q)))) s) (\<lambda>s.
                 Ok (Reaped pid, s)))
           | Inr havekids \<Rightarrow>
               if \<not> havekids \<or> pr_killed (ptable s p) then Ok (NoChild, s)
               else bindr (sleep (ProcChan p) s) (\<lambda>s. Ok (WaitSleeps, s))))"

end
