(* ===== verification/Proc_Inv.thy ===== *)
theory Proc_Inv
  imports Proc
begin

text \<open>
  The invariant of the process table under every operation of the kernel: who
  runs, who may be a parent, and that no exited child is overlooked by a parent
  that sleeps in \<open>wait\<close>.
\<close>

section \<open>Steps that leave the table in shape\<close>

text \<open>
  \<open>stir\<close>: at most some sleepers have been woken; \<open>quiet\<close>: and the parents are the
  same.  The other fields of the processes may change.
\<close>

definition stir :: "'a pstate_scheme \<Rightarrow> 'a pstate_scheme \<Rightarrow> bool" where
  "stir s s' \<longleftrightarrow>
     (\<forall>p. pr_chan (ptable s' p) = pr_chan (ptable s p) \<and> (pr_state (ptable s' p) = pr_state (ptable s p)
            \<or> pr_state (ptable s p) = SLEEPING \<and> pr_state (ptable s' p) = RUNNABLE))
     \<and> initproc s' = initproc s \<and> cur s' = cur s \<and> scan s' = scan s"

definition quiet :: "'a pstate_scheme \<Rightarrow> 'a pstate_scheme \<Rightarrow> bool" where
  "quiet s s' \<longleftrightarrow> stir s s' \<and> (\<forall>p. pr_parent (ptable s' p) = pr_parent (ptable s p))"

lemma stir_refl [simp]: "stir s s"
  by (simp add: stir_def)

lemma stir_trans: "stir s t \<Longrightarrow> stir t u \<Longrightarrow> stir s u"
  unfolding stir_def by (metis procstate.distinct(21))

lemma quiet_refl [simp]: "quiet s s"
  by (simp add: quiet_def)

lemma quiet_trans: "quiet s t \<Longrightarrow> quiet t u \<Longrightarrow> quiet s u"
  unfolding quiet_def using stir_trans by metis

lemma quiet_eq: "ptable t = ptable s \<Longrightarrow> initproc t = initproc s \<Longrightarrow> cur t = cur s \<Longrightarrow> scan t = scan s \<Longrightarrow> quiet s t"
  by (simp add: quiet_def stir_def)

lemma only_mem_procs:
  "only_mem s t \<Longrightarrow> ptable t = ptable s \<and> initproc t = initproc s \<and> cur t = cur s \<and> scan t = scan s \<and> nextpid t = nextpid s"
  for s t :: "'a pstate_scheme"
proof -
  assume "only_mem s t"
  then obtain m r where "t = with_mem m r s" by (auto simp: only_mem_def)
  then show ?thesis by (simp add: with_mem_def)
qed

lemma quiet_only_mem: "only_mem s t \<Longrightarrow> quiet s t"
  for s t :: "'a pstate_scheme"
  using only_mem_procs by (blast intro: quiet_eq)

lemma quiet_upd_proc:
  "(\<And>r. pr_state (f r) = pr_state r) \<Longrightarrow> (\<And>r. pr_parent (f r) = pr_parent r) \<Longrightarrow> (\<And>r. pr_chan (f r) = pr_chan r) \<Longrightarrow>
   quiet s (upd_proc p f s)"
  by (simp add: quiet_def stir_def)

lemma quiet_wakes: "wakes s t \<Longrightarrow> quiet s t"
proof -
  assume w: "wakes s t"
  have "ptable t p = ptable s p \<or> pr_state (ptable s p) = SLEEPING \<and> ptable t p = (ptable s p)\<lparr>pr_state := RUNNABLE\<rparr>" for p
    using w by (simp add: wakes_def)
  then have "pr_chan (ptable t p) = pr_chan (ptable s p) \<and> pr_parent (ptable t p) = pr_parent (ptable s p)
      \<and> (pr_state (ptable t p) = pr_state (ptable s p) \<or> pr_state (ptable s p) = SLEEPING \<and> pr_state (ptable t p) = RUNNABLE)" for p
    by (metis proc.select_convs(4,6,9) proc.surjective proc.update_convs(4))
  then show ?thesis using w by (simp add: quiet_def stir_def wakes_def)
qed

lemma quiet_upd_file: "quiet s (upd_file f g s)"
  by (simp add: upd_file_def quiet_eq)

lemma quiet_fs_do: "fs_do g s = Ok t \<Longrightarrow> quiet s t"
  by (auto simp: fs_do_def elim!: bindr_OkE intro: quiet_eq)

lemma quiet_fs_get: "fs_get g s = Ok (x, t) \<Longrightarrow> quiet s t"
  by (auto simp: fs_get_def elim!: bindr_OkE intro: quiet_eq)

lemma quiet_kfree: "kfree v s = Ok t \<Longrightarrow> quiet s t"
  for s t :: "'a pstate_scheme"
  by (rule quiet_only_mem [OF only_mem_kfree])

lemma quiet_close_pipe_end:
  assumes "close_pipe_end pi w s = Ok t"
  shows "quiet s t"
proof -
  obtain p ch gone where c: "pipeclose w (pipes s pi) = (p, ch, gone)" by (rule prod_cases3)
  have 1: "quiet s (s\<lparr>pipes := (pipes s)(pi := p)\<rparr>)" by (rule quiet_eq) simp_all
  note 2 = quiet_trans [OF 1 quiet_wakes [OF wakeup1_wakes]]
  show ?thesis using assms 2 by (auto simp: close_pipe_end_def c wakeup_def Let_def split: if_splits intro: quiet_trans quiet_kfree)
qed

lemmas quiet_upd_file2 = quiet_trans [OF quiet_upd_file quiet_upd_file]

lemma quiet_fileclose: "fileclose f s = Ok t \<Longrightarrow> quiet s t"
  by (auto simp: fileclose_def Let_def split: if_splits ftype.splits
      intro: quiet_upd_file quiet_upd_file2 quiet_trans [OF quiet_upd_file2 quiet_fs_do]
        quiet_trans [OF quiet_upd_file2 quiet_close_pipe_end])

lemma quiet_close_files: "close_files p fds s = Ok t \<Longrightarrow> quiet s t"
proof (induction fds arbitrary: s)
  case (Cons fd fds)
  show ?case
  proof (cases "pr_ofile (ptable s p) ! fd")
    case None
    then show ?thesis using Cons by simp
  next
    case (Some f)
    then obtain u where u: "fileclose f s = Ok u"
      "close_files p fds (upd_proc p (\<lambda>r. r\<lparr>pr_ofile := (pr_ofile r)[fd := None]\<rparr>) u) = Ok t"
      using Cons.prems by auto
    have "quiet u (upd_proc p (\<lambda>r. r\<lparr>pr_ofile := (pr_ofile r)[fd := None]\<rparr>) u)" by (rule quiet_upd_proc) simp_all
    from quiet_trans [OF quiet_trans [OF quiet_fileclose [OF u(1)] this] Cons.IH [OF u(2)]] show ?thesis .
  qed
qed simp

lemma quiet_fork_files: "fork_files np fs i s = Ok t \<Longrightarrow> quiet s t"
proof (induction fs arbitrary: i s)
  case (Cons fo fs)
  show ?case
  proof (cases fo)
    case None
    then show ?thesis using Cons by simp
  next
    case (Some f)
    then obtain u where u: "filedup f s = Ok (f, u)"
      "fork_files np fs (i + 1) (upd_proc np (\<lambda>r. r\<lparr>pr_ofile := (pr_ofile r)[i := Some f]\<rparr>) u) = Ok t"
      using Cons.prems by (auto simp: filedup_def split: if_splits)
    have 1: "quiet s u" using u(1) quiet_upd_file by (auto simp: filedup_def split: if_splits)
    have "quiet u (upd_proc np (\<lambda>r. r\<lparr>pr_ofile := (pr_ofile r)[i := Some f]\<rparr>) u)" by (rule quiet_upd_proc) simp_all
    from quiet_trans [OF quiet_trans [OF 1 this] Cons.IH [OF u(2)]] show ?thesis .
  qed
qed simp

lemma quiet_reservarPagina:
  assumes "reservarPagina p va s = Ok (r, t)"
  shows "quiet s t"
proof -
  obtain a u where k: "kalloc s = (a, u)" by (rule prod.exhaust)
  note 1 = only_mem_kalloc [OF k]
  note 2 = only_mem_kmem [OF 1, of "memset a 0 PGSIZE (kmem u)"]
  have "only_mem s t" using assms 1
    by (auto simp: reservarPagina_def k Let_def split: if_splits elim!: bindr_OkE
        intro: only_mem_trans [OF 2 only_mem_mappages] only_mem_trans [OF only_mem_trans [OF 2 only_mem_mappages] only_mem_kfree])
  then show ?thesis by (rule quiet_only_mem)
qed

lemma quiet_set_killed: "quiet s (set_killed p s)"
  unfolding set_killed_def by (rule quiet_upd_proc) simp_all

lemma quiet_page_fault: "page_fault va s = Ok t \<Longrightarrow> quiet s t"
  by (auto simp: page_fault_def Let_def split: option.splits if_splits elim!: bindr_OkE
      intro: quiet_set_killed quiet_reservarPagina quiet_trans [OF quiet_reservarPagina quiet_set_killed])

lemma quiet_touch: "touch n wr va s = Ok (a, t) \<Longrightarrow> quiet s t"
proof (induction n arbitrary: s)
  case (Suc n)
  then show ?case by (auto split: option.splits elim!: bindr_OkE intro: quiet_trans [OF quiet_page_fault])
qed simp

lemma quiet_put_user: "put_user va bs s = Ok t \<Longrightarrow> quiet s t"
proof (induction bs arbitrary: va s)
  case (Cons b bs)
  then obtain a u where u: "touch 2 True va s = Ok (a, u)" "put_user ((va + 1) mod 2 ^ 32) bs (u\<lparr>kmem := (kmem u)(a := b)\<rparr>) = Ok t"
    by (auto simp del: touch.simps)
  have "quiet u (u\<lparr>kmem := (kmem u)(a := b)\<rparr>)" by (rule quiet_eq) simp_all
  from quiet_trans [OF quiet_trans [OF quiet_touch [OF u(1)] this] Cons.IH [OF u(2)]] show ?case .
qed simp

lemma quiet_get_user: "get_user va n s = Ok (bs, t) \<Longrightarrow> quiet s t"
proof (induction n arbitrary: va s bs)
  case (Suc n)
  then obtain a u cs where u: "touch 2 False va s = Ok (a, u)" "get_user ((va + 1) mod 2 ^ 32) n u = Ok (cs, t)"
    by (auto simp: Let_def simp del: touch.simps elim!: bindr_OkE)
  from quiet_trans [OF quiet_touch [OF u(1)] Suc.IH [OF u(2)]] show ?case .
qed simp

section \<open>The invariant\<close>

definition alive :: "procstate \<Rightarrow> bool" where
  "alive st \<longleftrightarrow> st = SLEEPING \<or> st = RUNNABLE \<or> st = RUNNING"

abbreviation st :: "'a pstate_scheme \<Rightarrow> nat \<Rightarrow> procstate" where
  "st s p \<equiv> pr_state (ptable s p)"

abbreviation par :: "'a pstate_scheme \<Rightarrow> nat \<Rightarrow> nat option" where
  "par s p \<equiv> pr_parent (ptable s p)"

text \<open>A process that sleeps in \<open>wait\<close>.\<close>

definition waiting :: "'a pstate_scheme \<Rightarrow> nat \<Rightarrow> bool" where
  "waiting s p \<longleftrightarrow> st s p = SLEEPING \<and> pr_chan (ptable s p) = Some (ProcChan p)"

definition procs_ok :: "'a pstate_scheme \<Rightarrow> bool" where
  "procs_ok s \<longleftrightarrow>
     (\<forall>p. cur s = Some p \<longrightarrow> p < NPROC \<and> st s p = RUNNING)
     \<and> (\<forall>p < NPROC. st s p = RUNNING \<longrightarrow> cur s = Some p)
     \<and> (\<exists>i < NPROC. initproc s = Some i \<and> alive (st s i) \<and> par s i = None)
     \<and> (\<forall>p < NPROC. (st s p = UNUSED \<longrightarrow> par s p = None) \<and> st s p \<noteq> EMBRYO)
     \<and> (\<forall>p < NPROC. \<forall>q. par s p = Some q \<longrightarrow> q < NPROC \<and> q \<noteq> p \<and> alive (st s q))
     \<and> (\<forall>p < NPROC. \<forall>q. st s p = ZOMBIE \<and> par s p = Some q \<longrightarrow> \<not> waiting s q)"

lemma procs_okI:
  assumes "\<And>p. cur s = Some p \<Longrightarrow> p < NPROC \<and> st s p = RUNNING" "\<And>p. p < NPROC \<Longrightarrow> st s p = RUNNING \<Longrightarrow> cur s = Some p"
    "i < NPROC" "initproc s = Some i" "alive (st s i)" "par s i = None"
    "\<And>p. p < NPROC \<Longrightarrow> st s p = UNUSED \<Longrightarrow> par s p = None" "\<And>p. p < NPROC \<Longrightarrow> st s p \<noteq> EMBRYO"
    "\<And>p q. p < NPROC \<Longrightarrow> par s p = Some q \<Longrightarrow> q < NPROC \<and> q \<noteq> p \<and> alive (st s q)"
    "\<And>p q. p < NPROC \<Longrightarrow> st s p = ZOMBIE \<Longrightarrow> par s p = Some q \<Longrightarrow> \<not> waiting s q"
  shows "procs_ok s"
  unfolding procs_ok_def using assms by blast

lemma procs_okD:
  assumes "procs_ok s"
  shows "cur s = Some p \<Longrightarrow> p < NPROC \<and> st s p = RUNNING" "p < NPROC \<Longrightarrow> st s p = RUNNING \<Longrightarrow> cur s = Some p"
    "p < NPROC \<Longrightarrow> st s p = UNUSED \<Longrightarrow> par s p = None" "p < NPROC \<Longrightarrow> st s p \<noteq> EMBRYO"
    "p < NPROC \<Longrightarrow> par s p = Some q \<Longrightarrow> q < NPROC \<and> q \<noteq> p \<and> alive (st s q)"
    "p < NPROC \<Longrightarrow> st s p = ZOMBIE \<Longrightarrow> par s p = Some q \<Longrightarrow> \<not> waiting s q"
  using assms unfolding procs_ok_def by blast+

lemma procs_ok_init:
  assumes "procs_ok s"
  obtains i where "i < NPROC" "initproc s = Some i" "alive (st s i)" "par s i = None"
  using assms unfolding procs_ok_def by blast

text \<open>A step that keeps the parents and the living.\<close>

lemma procs_ok_same:
  assumes "procs_ok s" "initproc t = initproc s" "\<And>q. par t q = par s q" "\<And>q. alive (st t q) = alive (st s q)"
    "\<And>q. st t q = ZOMBIE \<longleftrightarrow> st s q = ZOMBIE" "\<And>q. st t q = UNUSED \<longleftrightarrow> st s q = UNUSED" "\<And>q. st t q = EMBRYO \<longleftrightarrow> st s q = EMBRYO"
    "\<And>p. cur t = Some p \<Longrightarrow> p < NPROC \<and> st t p = RUNNING" "\<And>p. p < NPROC \<Longrightarrow> st t p = RUNNING \<Longrightarrow> cur t = Some p"
    "\<And>p q. p < NPROC \<Longrightarrow> st s p = ZOMBIE \<Longrightarrow> par s p = Some q \<Longrightarrow> \<not> waiting s q \<Longrightarrow> \<not> waiting t q"
  shows "procs_ok t"
proof -
  note D = procs_okD [OF assms(1)]
  obtain i where i: "i < NPROC" "initproc s = Some i" "alive (st s i)" "par s i = None" by (rule procs_ok_init [OF assms(1)])
  show ?thesis
  proof (rule procs_okI [of _ i])
    show "r < NPROC \<and> r \<noteq> q \<and> alive (st t r)" if "q < NPROC" "par t q = Some r" for q r
      using D(5) [of q r] that unfolding assms(3,4) by blast
    show "\<not> waiting t r" if "q < NPROC" "st t q = ZOMBIE" "par t q = Some r" for q r
      using D(6) [of q r] assms(10) [of q r] that unfolding assms(3,5) by blast
    show "par t q = None" if "q < NPROC" "st t q = UNUSED" for q using D(3) [of q] that unfolding assms(3,6) by blast
    show "st t q \<noteq> EMBRYO" if "q < NPROC" for q using D(4) [of q] that unfolding assms(7) by blast
    show "alive (st t i)" "par t i = None" using i unfolding assms(3,4) by blast+
    show "initproc t = Some i" using i assms(2) by simp
  qed (use assms(8,9) i in blast)+
qed

lemma procs_ok_quiet:
  assumes "quiet s t" "procs_ok s"
  shows "procs_ok t"
proof -
  have c: "pr_chan (ptable t p) = pr_chan (ptable s p)" "par t p = par s p"
    "st t p = st s p \<or> st s p = SLEEPING \<and> st t p = RUNNABLE" "initproc t = initproc s" "cur t = cur s" for p
    using assms(1) by (auto simp: quiet_def stir_def)
  have r: "st t p = RUNNING \<longleftrightarrow> st s p = RUNNING" for p using c(3) [of p] by auto
  show ?thesis
  proof (rule procs_ok_same [OF assms(2)])
    show "alive (st t p) = alive (st s p)" "st t p = UNUSED \<longleftrightarrow> st s p = UNUSED" "st t p = EMBRYO \<longleftrightarrow> st s p = EMBRYO"
      "st t p = ZOMBIE \<longleftrightarrow> st s p = ZOMBIE" for p using c(3) [of p] by (auto simp: alive_def)
    show "\<not> waiting t q" if "\<not> waiting s q" for q using c(1,3) [of q] that by (auto simp: waiting_def)
    show "cur t = Some p \<Longrightarrow> p < NPROC \<and> st t p = RUNNING" "p < NPROC \<Longrightarrow> st t p = RUNNING \<Longrightarrow> cur t = Some p" for p
      using procs_okD(1,2) [OF assms(2)] unfolding r c(5) by blast+
  qed (use c in simp_all)
qed

text \<open>The running process leaves the processor.\<close>

lemma procs_ok_off:
  assumes "procs_ok s" "cur s = Some p" "cur t = None" "initproc t = initproc s" "\<And>q. q \<noteq> p \<Longrightarrow> ptable t q = ptable s q"
    "par t p = par s p" "st t p = RUNNABLE \<or> st t p = SLEEPING"
    "waiting t p \<Longrightarrow> \<forall>q < NPROC. par s q = Some p \<longrightarrow> st s q \<noteq> ZOMBIE"
  shows "procs_ok t"
proof (rule procs_ok_same [OF assms(1,4)])
  note D = procs_okD [OF assms(1)]
  have run: "st s p = RUNNING" "p < NPROC" using D(1) [OF assms(2)] by auto
  show "par t q = par s q" "alive (st t q) = alive (st s q)" "st t q = ZOMBIE \<longleftrightarrow> st s q = ZOMBIE"
    "st t q = UNUSED \<longleftrightarrow> st s q = UNUSED" "st t q = EMBRYO \<longleftrightarrow> st s q = EMBRYO" for q
    using assms(5-7) run by (cases "q = p"; auto simp: alive_def)+
  show "cur t = Some q" if "q < NPROC" "st t q = RUNNING" for q
    using assms(2,5,7) D(2) [of q] that by (cases "q = p") auto
  show "\<not> waiting t r" if "q < NPROC" "st s q = ZOMBIE" "par s q = Some r" "\<not> waiting s r" for q r
    using assms(5,8) that by (cases "r = p") (auto simp: waiting_def)
qed (use assms(3) in simp)

lemma sched_Ok: "sched s = Ok t \<Longrightarrow> cur t = None \<and> ptable t = ptable s \<and> initproc t = initproc s \<and> scan t = scan s"
  by (auto simp: sched_def switchkvm_def split: option.splits if_splits)

lemma procs_ok_yield:
  assumes "procs_ok s" "yield s = Ok t"
  shows "procs_ok t"
proof -
  obtain p where p: "cur s = Some p" using assms(2) by (auto simp: yield_def split: option.splits)
  have t: "sched (upd_proc p (\<lambda>r. r\<lparr>pr_state := RUNNABLE\<rparr>) s) = Ok t" using assms(2) p by (simp add: yield_def)
  show ?thesis by (rule procs_ok_off [OF assms(1) p]) (use sched_Ok [OF t] in \<open>simp_all add: waiting_def\<close>)
qed

lemma procs_ok_sleep:
  assumes "procs_ok s" "sleep ch s = Ok t" "cur s = Some p"
    "ch = ProcChan p \<Longrightarrow> \<forall>q < NPROC. par s q = Some p \<longrightarrow> st s q \<noteq> ZOMBIE"
  shows "procs_ok t"
proof -
  have t: "sched (upd_proc p (\<lambda>r. r\<lparr>pr_chan := Some ch, pr_state := SLEEPING\<rparr>) s) = Ok t" using assms(2,3) by (simp add: sleep_def)
  show ?thesis by (rule procs_ok_off [OF assms(1,3)]) (use sched_Ok [OF t] assms(4) in \<open>auto simp: waiting_def\<close>)
qed

lemma procs_ok_sleep_return:
  assumes "procs_ok s" "sleep_return s = Ok t"
  shows "procs_ok t"
proof -
  obtain p where p: "cur s = Some p" "t = upd_proc p (\<lambda>r. r\<lparr>pr_chan := None\<rparr>) s"
    using assms(2) by (auto simp: sleep_return_def split: option.splits)
  have e: "st t q = st s q" "par t q = par s q" "cur t = cur s" for q using p(2) by simp_all
  show ?thesis
  proof (rule procs_ok_same [OF assms(1)])
    show "cur t = Some p \<Longrightarrow> p < NPROC \<and> st t p = RUNNING" "p < NPROC \<Longrightarrow> st t p = RUNNING \<Longrightarrow> cur t = Some p" for p
      using procs_okD(1,2) [OF assms(1)] unfolding e by blast+
    show "\<not> waiting t q" if "\<not> waiting s q" for q using p(2) that by (auto simp: waiting_def split: if_splits)
  qed (use p e in simp_all)
qed

lemma quiet_kill: "quiet s (snd (kill pid s))"
  by (auto simp: kill_def quiet_def stir_def split: option.splits)

lemma procs_ok_scheduler:
  assumes "procs_ok s" "cur s = None" "scheduler s = Ok t"
  shows "procs_ok t"
proof (cases "find (\<lambda>p. st s p = RUNNABLE) [scan s..<NPROC]")
  case None
  then have e: "ptable t = ptable s" "cur t = cur s" "initproc t = initproc s" using assms(3) by (auto simp: scheduler_def)
  show ?thesis using assms(1) unfolding procs_ok_def waiting_def e .
next
  case (Some p)
  have p: "p < NPROC" "st s p = RUNNABLE" using find_SomeD [OF Some] by auto
  have t: "cur t = Some p" "ptable t = (ptable s)(p := (ptable s p)\<lparr>pr_state := RUNNING\<rparr>)" "initproc t = initproc s"
    using assms(3) Some by (auto simp: scheduler_def switchuvm_def split: if_splits)
  show ?thesis
  proof (rule procs_ok_same [OF assms(1)])
    show "cur t = Some q" if "q < NPROC" "st t q = RUNNING" for q
      using procs_okD(2) [OF assms(1) that(1)] assms(2) that(2) t(1,2) by (auto split: if_splits)
    show "\<not> waiting t q" if "\<not> waiting s q" for q using t(2) that by (auto simp: waiting_def split: if_splits)
  qed (use t p in \<open>auto simp: alive_def\<close>)
qed

section \<open>wait\<close>

lemma wait_scan_Inl: "wait_scan p qs h t = Inl q \<Longrightarrow> q \<in> set qs \<and> pr_parent (t q) = Some p \<and> pr_state (t q) = ZOMBIE"
  by (induction p qs h t rule: wait_scan.induct) (auto split: if_splits)

lemma wait_scan_Inr:
  "wait_scan p qs h t = Inr b \<Longrightarrow> (\<forall>q \<in> set qs. pr_parent (t q) = Some p \<longrightarrow> pr_state (t q) \<noteq> ZOMBIE)
     \<and> (b \<longleftrightarrow> h \<or> (\<exists>q \<in> set qs. pr_parent (t q) = Some p))"
  by (induction p qs h t rule: wait_scan.induct) (auto split: if_splits)

text \<open>A zombie's slot is freed.\<close>

lemma procs_ok_freed:
  assumes "procs_ok s" "q < NPROC" "st s q = ZOMBIE" "t = upd_proc q f s" "pr_state (f (ptable s q)) = UNUSED" "pr_parent (f (ptable s q)) = None"
  shows "procs_ok t"
proof -
  note D = procs_okD [OF assms(1)]
  obtain i where i: "i < NPROC" "initproc s = Some i" "alive (st s i)" "par s i = None" by (rule procs_ok_init [OF assms(1)])
  have np: "par s r \<noteq> Some q" if "r < NPROC" for r using D(5) [OF that, of q] assms(3) by (auto simp: alive_def)
  have iq: "i \<noteq> q" using i(3) assms(3) by (auto simp: alive_def)
  have e: "st t r = (if r = q then UNUSED else st s r)" "par t r = (if r = q then None else par s r)" "cur t = cur s" "initproc t = initproc s"
    "waiting t r = (waiting s r \<and> r \<noteq> q)" for r using assms(3-6) by (auto simp: waiting_def)
  show ?thesis
  proof (rule procs_okI [of _ i])
    show "cur t = Some p \<Longrightarrow> p < NPROC \<and> st t p = RUNNING" for p using D(1) [of p] assms(3) unfolding e by auto
    show "p < NPROC \<Longrightarrow> st t p = RUNNING \<Longrightarrow> cur t = Some p" for p using D(2) [of p] unfolding e by (auto split: if_splits)
    show "r < NPROC \<and> r \<noteq> p \<and> alive (st t r)" if "p < NPROC" "par t p = Some r" for p r
      using D(5) [of p r] np [of p] that unfolding e by (auto split: if_splits)
    show "\<not> waiting t r" if "p < NPROC" "st t p = ZOMBIE" "par t p = Some r" for p r
      using D(6) [of p r] that unfolding e by (auto split: if_splits)
    show "p < NPROC \<Longrightarrow> st t p = UNUSED \<Longrightarrow> par t p = None" for p using D(3) [of p] unfolding e by (auto split: if_splits)
    show "p < NPROC \<Longrightarrow> st t p \<noteq> EMBRYO" for p using D(4) [of p] unfolding e by (auto split: if_splits)
  qed (use i iq e in auto)
qed

lemma procs_ok_reap:
  assumes "procs_ok s" "q < NPROC" "st s q = ZOMBIE" "reap q s = Ok t"
  shows "procs_ok t"
proof -
  obtain u v where u: "kfree (pr_kstack (ptable s q)) s = Ok u"
    "freevm (pr_pgdir (ptable u q)) (upd_proc q (\<lambda>r. r\<lparr>pr_kstack := 0\<rparr>) u) = Ok v"
    "t = upd_proc q (\<lambda>r. r\<lparr>pr_pid := 0, pr_parent := None, pr_name := [], pr_killed := False, pr_state := UNUSED\<rparr>) v"
    using assms(4) by (auto simp: reap_def elim!: bindr_OkE)
  have "quiet u (upd_proc q (\<lambda>r. r\<lparr>pr_kstack := 0\<rparr>) u)" by (rule quiet_upd_proc) simp_all
  from quiet_trans [OF quiet_trans [OF quiet_kfree [OF u(1)] this] quiet_only_mem [OF only_mem_freevm [OF u(2)]]]
  have v: "quiet s v" .
  then have "st v q = st s q \<or> st s q = SLEEPING" by (auto simp: quiet_def stir_def)
  then have "st v q = ZOMBIE" using assms(3) by auto
  from procs_ok_freed [OF procs_ok_quiet [OF v assms(1)] assms(2) this u(3)] show ?thesis by simp
qed

lemma procs_ok_wait:
  assumes "procs_ok s" "wait a s = Ok (r, t)"
  shows "procs_ok t"
proof -
  obtain p where p: "cur s = Some p" using assms(2) by (auto simp: wait_def split: option.splits)
  show ?thesis
  proof (cases "wait_scan p [0..<NPROC] False (ptable s)")
    case (Inl q)
    then have q: "q < NPROC" "st s q = ZOMBIE" using wait_scan_Inl [OF Inl] by auto
    obtain u where u: "reap q s = Ok u" "put_user a (le_bytes 4 (unat (pr_status (ptable u q)))) u = Ok t"
      using assms(2) p Inl by (auto simp: wait_def Let_def simp del: put_user.simps le_bytes.simps)
    from procs_ok_quiet [OF quiet_put_user [OF u(2)] procs_ok_reap [OF assms(1) q u(1)]] show ?thesis .
  next
    case (Inr h)
    show ?thesis
    proof (cases "\<not> h \<or> pr_killed (ptable s p)")
      case True
      then show ?thesis using assms p Inr by (auto simp: wait_def)
    next
      case False
      then have sl: "sleep (ProcChan p) s = Ok t" using assms(2) p Inr by (auto simp: wait_def)
      show ?thesis by (rule procs_ok_sleep [OF assms(1) sl p]) (use wait_scan_Inr [OF Inr] in auto)
    qed
  qed
qed

section \<open>fork\<close>

text \<open>Steps that are quiet but for one slot.\<close>

definition quiet_but :: "nat \<Rightarrow> 'a pstate_scheme \<Rightarrow> 'a pstate_scheme \<Rightarrow> bool" where
  "quiet_but n s t \<longleftrightarrow>
     (\<forall>p. p \<noteq> n \<longrightarrow> pr_chan (ptable t p) = pr_chan (ptable s p) \<and> par t p = par s p
        \<and> (st t p = st s p \<or> st s p = SLEEPING \<and> st t p = RUNNABLE))
     \<and> initproc t = initproc s \<and> cur t = cur s \<and> scan t = scan s"

lemma quiet_but_quiet: "quiet s t \<Longrightarrow> quiet_but n s t"
  by (simp add: quiet_def stir_def quiet_but_def)

lemma quiet_but_upd: "quiet_but n s (upd_proc n f s)"
  by (simp add: quiet_but_def)

lemma quiet_but_trans: "quiet_but n s t \<Longrightarrow> quiet_but n t u \<Longrightarrow> quiet_but n s u"
  unfolding quiet_but_def by (metis procstate.distinct(21))

lemma quiet_but_back:
  "quiet_but n s t \<Longrightarrow> pr_chan (ptable t n) = pr_chan (ptable s n) \<Longrightarrow> par t n = par s n \<Longrightarrow> st t n = st s n \<Longrightarrow> quiet s t"
  unfolding quiet_def stir_def quiet_but_def by metis

lemma procs_ok_new:
  assumes "procs_ok s" "cur s = Some p" "n < NPROC" "st s n = UNUSED" "quiet_but n s t" "st t n = RUNNABLE" "par t n = Some p"
  shows "procs_ok t"
proof -
  note D = procs_okD [OF assms(1)]
  obtain i where i: "i < NPROC" "initproc s = Some i" "alive (st s i)" "par s i = None" by (rule procs_ok_init [OF assms(1)])
  have run: "st s p = RUNNING" "p < NPROC" using D(1) [OF assms(2)] by auto
  have np: "par s r \<noteq> Some n" if "r < NPROC" for r using D(5) [OF that, of n] assms(4) by (auto simp: alive_def)
  have q: "par t r = par s r" "alive (st t r) = alive (st s r)" "st t r = ZOMBIE \<longleftrightarrow> st s r = ZOMBIE" "st t r = UNUSED \<longleftrightarrow> st s r = UNUSED"
    "st t r = EMBRYO \<longleftrightarrow> st s r = EMBRYO" "st t r = RUNNING \<longleftrightarrow> st s r = RUNNING" "waiting t r \<Longrightarrow> waiting s r" if "r \<noteq> n" for r
    using assms(5) that unfolding quiet_but_def by (auto simp: alive_def waiting_def dest!: spec [of _ r])
  have c: "cur t = cur s" "initproc t = initproc s" using assms(5) by (auto simp: quiet_but_def)
  have pn: "p \<noteq> n" "i \<noteq> n" using run i assms(4) by (auto simp: alive_def)
  show ?thesis
  proof (rule procs_okI [of _ i])
    show "cur t = Some r \<Longrightarrow> r < NPROC \<and> st t r = RUNNING" for r using run pn q(6) [of r] assms(2) c by auto
    show "cur t = Some r" if "r < NPROC" "st t r = RUNNING" for r using D(2) [of r] q(6) [of r] assms(6) c that by (cases "r = n") auto
    show "x < NPROC \<and> x \<noteq> r \<and> alive (st t x)" if "r < NPROC" "par t r = Some x" for r x
    proof (cases "r = n")
      case True
      then show ?thesis using that assms(7) run pn q(2) [of p] by (auto simp: alive_def)
    next
      case False
      then have "par s r = Some x" "x \<noteq> n" using np [OF that(1)] q(1) [of r] that by auto
      then show ?thesis using D(5) [of r x] q(2) [of x] that by auto
    qed
    show "\<not> waiting t x" if "r < NPROC" "st t r = ZOMBIE" "par t r = Some x" for r x
    proof (cases "r = n")
      case False
      then have "par s r = Some x" "x \<noteq> n" "st s r = ZOMBIE" using np [OF that(1)] q(1,3) [of r] that by auto
      then show ?thesis using D(6) [of r x] q(7) [of x] that(1) by auto
    qed (use that assms(6) in simp)
    show "r < NPROC \<Longrightarrow> st t r = UNUSED \<Longrightarrow> par t r = None" for r using D(3) [of r] q(1,4) [of r] assms(6) by (cases "r = n") auto
    show "r < NPROC \<Longrightarrow> st t r \<noteq> EMBRYO" for r using D(4) [of r] q(5) [of r] assms(6) by (cases "r = n") auto
  qed (use i pn q c in auto)
qed

lemma allocproc_None: "allocproc s = (None, t) \<Longrightarrow> quiet s t"
proof (cases "find_proc (\<lambda>p. pr_state p = UNUSED) s")
  case (Some n)
  assume a: "allocproc s = (None, t)"
  define s1 where "s1 = (upd_proc n (\<lambda>r. r\<lparr>pr_state := EMBRYO, pr_pid := nextpid s\<rparr>) s)\<lparr>nextpid := nextpid s + 1\<rparr>"
  obtain k u where k: "kalloc s1 = (k, u)" by (rule prod.exhaust)
  have u: "ptable u = ptable s1" "initproc u = initproc s1" "cur u = cur s1" "scan u = scan s1"
    using only_mem_procs [OF only_mem_kalloc [OF k]] by simp_all
  have "t = upd_proc n (\<lambda>r. r\<lparr>pr_state := UNUSED\<rparr>) (upd_proc n (\<lambda>r. r\<lparr>pr_kstack := k\<rparr>) u)"
    using a Some k by (auto simp: allocproc_def s1_def Let_def split: if_splits prod.splits)
  then show ?thesis using u find_procE(2) [OF Some] by (auto simp: quiet_def stir_def s1_def)
qed (simp add: allocproc_def)

lemma allocproc_Some:
  assumes "allocproc s = (Some n, t)"
  shows "n < NPROC" "st s n = UNUSED" "quiet_but n s t" "par t n = par s n" "pr_chan (ptable t n) = pr_chan (ptable s n)"
proof -
  obtain m where f: "find_proc (\<lambda>p. pr_state p = UNUSED) s = Some m" using assms by (auto simp: allocproc_def split: option.splits)
  define s1 where "s1 = (upd_proc m (\<lambda>r. r\<lparr>pr_state := EMBRYO, pr_pid := nextpid s\<rparr>) s)\<lparr>nextpid := nextpid s + 1\<rparr>"
  obtain k u where k: "kalloc s1 = (k, u)" by (rule prod.exhaust)
  have u: "ptable u = ptable s1" "initproc u = initproc s1" "cur u = cur s1" "scan u = scan s1"
    using only_mem_procs [OF only_mem_kalloc [OF k]] by simp_all
  have t: "m = n \<and> (\<exists>mem x. t = upd_proc n (\<lambda>r. r\<lparr>pr_context := x\<rparr>) ((upd_proc n (\<lambda>r. r\<lparr>pr_kstack := k\<rparr>) u)\<lparr>kmem := mem\<rparr>))"
    using assms f k by (auto simp: allocproc_def s1_def Let_def split: if_splits prod.splits)
  then show "n < NPROC" "st s n = UNUSED" using find_procE [OF f] by auto
  show "quiet_but n s t" "par t n = par s n" "pr_chan (ptable t n) = pr_chan (ptable s n)"
    using t u by (auto simp: quiet_but_def s1_def)
qed

lemma fork_child_ok:
  assumes "fork_child p n s = Ok (pid, t)"
  shows "quiet_but n s t" "st t n = RUNNABLE" "par t n = Some p"
proof -
  define c where "c = ptable s p"
  define s4 where "s4 = upd_proc n (\<lambda>r. r\<lparr>pr_sz := pr_sz c, pr_parent := Some p, pr_tf := (pr_tf c)\<lparr>tf_eax := 0\<rparr>\<rparr>) s"
  obtain s5 ip jp s6 where f: "fork_files n (pr_ofile c) 0 s4 = Ok s5" "fs_get (\<lambda>t. Ok (idup ip t)) s5 = Ok (jp, s6)"
    "t = upd_proc n (\<lambda>r. r\<lparr>pr_state := RUNNABLE\<rparr>) (upd_proc n (\<lambda>r. r\<lparr>pr_cwd := Some jp, pr_name := take 15 (pr_name c)\<rparr>) s6)"
    using assms unfolding fork_child_def Let_def c_def [symmetric] s4_def [symmetric] by (auto split: option.splits elim!: bindr_OkE)
  note q6 = quiet_trans [OF quiet_fork_files [OF f(1)] quiet_fs_get [OF f(2)]]
  have "quiet_but n s s6" by (rule quiet_but_trans [OF quiet_but_upd quiet_but_quiet [OF q6 [unfolded s4_def]]])
  then show "quiet_but n s t" unfolding f(3) by (intro quiet_but_trans [OF _ quiet_but_trans [OF quiet_but_upd quiet_but_upd]])
  show "st t n = RUNNABLE" by (simp add: f(3))
  have "par s6 n = Some p" using q6 by (simp add: quiet_def s4_def)
  then show "par t n = Some p" by (simp add: f(3))
qed

lemma procs_ok_fork:
  assumes "procs_ok s" "fork s = Ok (pid, t)"
  shows "procs_ok t"
proof -
  obtain p where p: "cur s = Some p" using assms(2) by (auto simp: fork_def split: option.splits)
  obtain np s1 where al: "allocproc s = (np, s1)" by (rule prod.exhaust)
  show ?thesis
  proof (cases np)
    case None
    then show ?thesis using assms p al procs_ok_quiet [OF allocproc_None] by (auto simp: fork_def)
  next
    case (Some n)
    note A = allocproc_Some [OF al [unfolded Some]]
    obtain d s2 where cp: "copyuvm (pr_pgdir (ptable s1 p)) (pr_sz (ptable s1 p)) s1 = Ok (d, s2)"
      using assms(2) p al Some by (auto simp: fork_def elim!: bindr_OkE)
    define s3 where "s3 = upd_proc n (\<lambda>r. r\<lparr>pr_pgdir := d\<rparr>) s2"
    have e2: "par s2 n = par s1 n" "pr_chan (ptable s2 n) = pr_chan (ptable s1 n)"
      using only_mem_procs [OF only_mem_copyuvm [OF cp]] by simp_all
    have q3: "quiet_but n s s3" unfolding s3_def
      by (rule quiet_but_trans [OF A(3) quiet_but_trans [OF quiet_but_quiet [OF quiet_only_mem [OF only_mem_copyuvm [OF cp]]] quiet_but_upd]])
    show ?thesis
    proof (cases "d = 0")
      case True
      obtain s4 where k: "kfree (pr_kstack (ptable s3 n)) s3 = Ok s4" "t = upd_proc n (\<lambda>r. r\<lparr>pr_kstack := 0, pr_state := UNUSED\<rparr>) s4"
        using assms(2) p al Some cp True by (auto simp: fork_def s3_def Let_def elim!: bindr_OkE)
      have e4: "ptable s4 = ptable s3" using only_mem_procs [OF only_mem_kfree [OF k(1)]] by simp_all
      have "quiet_but n s t" unfolding k(2)
        by (rule quiet_but_trans [OF q3 quiet_but_trans [OF quiet_but_quiet [OF quiet_kfree [OF k(1)]] quiet_but_upd]])
      then have "quiet s t" by (rule quiet_but_back) (use A e2 e4 k(2) in \<open>simp_all add: s3_def\<close>)
      then show ?thesis by (rule procs_ok_quiet [OF _ assms(1)])
    next
      case False
      then have fc: "fork_child p n s3 = Ok (pid, t)"
        using assms(2) p al Some cp by (simp add: fork_def s3_def Let_def)
      note f = fork_child_ok [OF fc]
      show ?thesis by (rule procs_ok_new [OF assms(1) p A(1,2) quiet_but_trans [OF q3 f(1)] f(2,3)])
    qed
  qed
qed

section \<open>exit\<close>

lemma wakeup1_not_waiting:
  assumes "r < NPROC"
  shows "\<not> waiting (wakeup1 (ProcChan r) s) r"
  using assms by (simp add: waiting_def wakeup1_def wakeup1_ptable)

lemma stir_wakeup1: "stir s (wakeup1 ch s)"
  using quiet_wakes [OF wakeup1_wakes [of s ch]] by (simp add: quiet_def)

lemma par_wakeup1: "par (wakeup1 ch s) q = par s q"
  using quiet_wakes [OF wakeup1_wakes [of s ch]] by (simp add: quiet_def)

text \<open>One child: its parent is init now, and init is awake if the child is a zombie.\<close>

lemma pass_child_step:
  assumes "initproc s = Some i" "i < NPROC"
  shows "stir s (pass_child p q s)" "par (pass_child p q s) r = (if r = q \<and> par s q = Some p then Some i else par s r)"
    "par s q = Some p \<Longrightarrow> st s q = ZOMBIE \<Longrightarrow> \<not> waiting (pass_child p q s) i"
proof -
  let ?u = "upd_proc q (\<lambda>r. r\<lparr>pr_parent := Some i\<rparr>) s"
  have u: "stir s ?u" by (simp add: stir_def)
  have e: "pass_child p q s = (if par s q = Some p then if st s q = ZOMBIE then wakeup1 (ProcChan i) ?u else ?u else s)"
    using assms(1) by (simp add: pass_child_def Let_def)
  show "stir s (pass_child p q s)" unfolding e using u stir_trans [OF u stir_wakeup1] by simp
  show "par (pass_child p q s) r = (if r = q \<and> par s q = Some p then Some i else par s r)" unfolding e by (simp add: par_wakeup1)
  show "par s q = Some p \<Longrightarrow> st s q = ZOMBIE \<Longrightarrow> \<not> waiting (pass_child p q s) i"
    unfolding e using wakeup1_not_waiting [OF assms(2)] by simp
qed

lemma stir_waiting: "stir s t \<Longrightarrow> waiting t r \<Longrightarrow> waiting s r"
proof -
  assume s: "stir s t" and w: "waiting t r"
  have "pr_chan (ptable t r) = pr_chan (ptable s r)" "st t r = st s r \<or> st s r = SLEEPING" using s by (auto simp: stir_def)
  then show "waiting s r" using w by (auto simp: waiting_def)
qed

lemma stir_zombie: "stir s t \<Longrightarrow> st t q = ZOMBIE \<longleftrightarrow> st s q = ZOMBIE"
proof -
  assume "stir s t"
  then have "st t q = st s q \<or> st s q = SLEEPING \<and> st t q = RUNNABLE" by (simp add: stir_def)
  then show ?thesis by auto
qed

lemma stir_pass_children: "initproc s = Some i \<Longrightarrow> i < NPROC \<Longrightarrow> stir s (fold (pass_child p) qs s)"
proof (induction qs arbitrary: s)
  case (Cons x qs)
  note step = pass_child_step(1) [where p = p and q = x, OF Cons.prems]
  have "initproc (pass_child p x s) = Some i" using step Cons.prems by (simp add: stir_def)
  from stir_trans [OF step Cons.IH [OF this Cons.prems(2)]] show ?case by simp
qed simp

lemma pass_children:
  assumes "initproc s = Some i" "i < NPROC" "i \<noteq> p"
  shows "stir s (fold (pass_child p) qs s)"
    "par (fold (pass_child p) qs s) r = (if r \<in> set qs \<and> par s r = Some p then Some i else par s r)"
    "q \<in> set qs \<Longrightarrow> par s q = Some p \<Longrightarrow> st s q = ZOMBIE \<Longrightarrow> \<not> waiting (fold (pass_child p) qs s) i"
proof -
  have "stir s (fold (pass_child p) qs s)
    \<and> par (fold (pass_child p) qs s) r = (if r \<in> set qs \<and> par s r = Some p then Some i else par s r)
    \<and> (q \<in> set qs \<longrightarrow> par s q = Some p \<longrightarrow> st s q = ZOMBIE \<longrightarrow> \<not> waiting (fold (pass_child p) qs s) i)"
    using assms(1)
  proof (induction qs arbitrary: s)
    case (Cons x qs)
    let ?u = "pass_child p x s"
    note step = pass_child_step [where p = p and q = x, OF Cons.prems assms(2)]
    have "initproc ?u = Some i" using step(1) Cons.prems by (simp add: stir_def)
    note IH = Cons.IH [OF this]
    have 1: "stir s (fold (pass_child p) (x # qs) s)" using IH stir_trans [OF step(1)] by simp
    have 2: "par (fold (pass_child p) (x # qs) s) r = (if r \<in> set (x # qs) \<and> par s r = Some p then Some i else par s r)"
      using IH step(2) [of r] assms(3) by auto
    have 3: "\<not> waiting (fold (pass_child p) (x # qs) s) i" if "q \<in> set (x # qs)" "par s q = Some p" "st s q = ZOMBIE"
    proof (cases "x = q")
      case True
      then have "\<not> waiting ?u i" using step(3) that by blast
      then show ?thesis using IH stir_waiting [of ?u "fold (pass_child p) qs ?u" i] by auto
    next
      case False
      then show ?thesis using IH that step(2) [of q] stir_zombie [OF step(1), of q] by simp
    qed
    show ?case using 1 2 3 by blast
  qed simp
  then show "stir s (fold (pass_child p) qs s)"
    "par (fold (pass_child p) qs s) r = (if r \<in> set qs \<and> par s r = Some p then Some i else par s r)"
    "q \<in> set qs \<Longrightarrow> par s q = Some p \<Longrightarrow> st s q = ZOMBIE \<Longrightarrow> \<not> waiting (fold (pass_child p) qs s) i" by blast+
qed

lemma wake_parent_ok:
  assumes "procs_ok s" "p < NPROC"
  shows "quiet s (wake_parent (par s p) s)" "par s p = Some r \<Longrightarrow> \<not> waiting (wake_parent (par s p) s) r"
  using quiet_wakes [OF wakeup1_wakes] wakeup1_not_waiting [of r s] procs_okD(5) [OF assms(1) assms(2), of r]
  by (auto simp: wake_parent_def split: option.splits)

lemma procs_ok_exit_leave:
  assumes "procs_ok s" "cur s = Some p" "initproc s \<noteq> Some p" "exit_leave p s = Ok t"
  shows "procs_ok t"
proof -
  have p: "p < NPROC" using procs_okD(1) [OF assms(1,2)] by simp
  define u where "u = wake_parent (par s p) s"
  define v where "v = fold (pass_child p) [0..<NPROC] u"
  note w = wake_parent_ok [OF assms(1) p, folded u_def]
  have uok: "procs_ok u" by (rule procs_ok_quiet [OF w(1) assms(1)])
  have u: "cur u = Some p" "initproc u = initproc s" "par u p = par s p" using w(1) assms(2) by (auto simp: quiet_def stir_def)
  note D = procs_okD [OF uok]
  obtain i where i: "i < NPROC" "initproc u = Some i" "alive (st u i)" "par u i = None" by (rule procs_ok_init [OF uok])
  have ip: "i \<noteq> p" using i(2) u(2) assms(3) by auto
  note V = pass_children [where qs = "[0..<NPROC]", OF i(2,1) ip, folded v_def]
  have t: "cur t = None" "initproc t = Some i" "ptable t = (ptable v)(p := (ptable v p)\<lparr>pr_state := ZOMBIE\<rparr>)"
    using assms(4) sched_Ok [of "upd_proc p (\<lambda>r. r\<lparr>pr_state := ZOMBIE\<rparr>) v" t] V(1) i(2)
    by (auto simp: exit_leave_def u_def v_def Let_def stir_def)
  have vs: "st v r = st u r \<or> st u r = SLEEPING \<and> st v r = RUNNABLE" for r using V(1) by (simp add: stir_def)
  have pt: "par t r = (if par u r = Some p then Some i else par u r)" if "r < NPROC" for r using t(3) V(2) [of r] that by (cases "r = p") auto
  have wt: "waiting t r \<Longrightarrow> r \<noteq> p \<and> waiting v r" for r using t(3) by (auto simp: waiting_def split: if_splits)
  have wu: "waiting t r \<Longrightarrow> waiting u r" for r using wt stir_waiting [OF V(1)] by blast
  have al: "alive (st t r)" if "alive (st u r)" "r \<noteq> p" for r using vs [of r] that t(3) by (auto simp: alive_def)
  show ?thesis
  proof (rule procs_okI [of _ i])
    show "cur t = Some r" if "r < NPROC" "st t r = RUNNING" for r
      using D(2) [of r] vs [of r] that t(3) u(1) by (auto split: if_splits)
    show "par t i = None" using pt [OF i(1)] i(4) by simp
    show "alive (st t i)" by (rule al [OF i(3) ip])
    show "par t r = None" if "r < NPROC" "st t r = UNUSED" for r
      using D(3) [of r] vs [of r] that t(3) pt [OF that(1)] by (auto split: if_splits)
    show "st t r \<noteq> EMBRYO" if "r < NPROC" for r using D(4) [OF that] vs [of r] t(3) by auto
    show "x < NPROC \<and> x \<noteq> r \<and> alive (st t x)" if "r < NPROC" "par t r = Some x" for r x
    proof (cases "par u r = Some p")
      case True
      then show ?thesis using that pt [OF that(1)] i al [OF i(3) ip] by auto
    next
      case False
      then have "par u r = Some x" "x \<noteq> p" using that pt [OF that(1)] by auto
      then show ?thesis using D(5) [OF that(1), of x] al [of x] by auto
    qed
    show "\<not> waiting t x" if r: "r < NPROC" "st t r = ZOMBIE" "par t r = Some x" for r x
    proof (cases "r = p")
      case True
      then have "par s p = Some x" using r(3) pt [OF p] D(5) [OF p, of p] u(3) by (auto split: if_splits)
      then show ?thesis using w(2) wu by blast
    next
      case False
      then have z: "st u r = ZOMBIE" using r(2) t(3) vs [of r] by auto
      show ?thesis
      proof (cases "par u r = Some p")
        case True
        then have "x = i" "\<not> waiting v i" using r pt [OF r(1)] V(3) [OF _ True z] by auto
        then show ?thesis using wt by blast
      next
        case False
        then show ?thesis using D(6) [OF r(1) z, of x] r(3) pt [OF r(1)] wu by auto
      qed
    qed
  qed (use t i in auto)
qed

lemma procs_ok_exit:
  assumes "procs_ok s" "exit status s = Ok t"
  shows "procs_ok t"
proof -
  obtain p where p: "cur s = Some p" using assms(2) by (auto simp: exit_def split: option.splits)
  define s1 where "s1 = upd_proc p (\<lambda>r. r\<lparr>pr_status := status\<rparr>) s"
  have q1: "quiet s s1" unfolding s1_def by (rule quiet_upd_proc) simp_all
  obtain s2 ip s3 where e: "initproc s1 \<noteq> Some p" "close_files p [0..<NOFILE] s1 = Ok s2"
    "fs_do (\<lambda>t. bindr (begin_op t) (\<lambda>t. bindr (iput ip t) end_op)) s2 = Ok s3" "exit_leave p (upd_proc p (\<lambda>r. r\<lparr>pr_cwd := None\<rparr>) s3) = Ok t"
    using assms(2) p by (auto simp: exit_def Let_def s1_def split: option.splits if_splits elim!: bindr_OkE)
  have q4: "quiet s3 (upd_proc p (\<lambda>r. r\<lparr>pr_cwd := None\<rparr>) s3)" by (rule quiet_upd_proc) simp_all
  note q = quiet_trans [OF quiet_trans [OF quiet_trans [OF q1 quiet_close_files [OF e(2)]] quiet_fs_do [OF e(3)]] q4]
  show ?thesis
    by (rule procs_ok_exit_leave [OF procs_ok_quiet [OF q assms(1)] _ _ e(4)]) (use q p e(1) in \<open>auto simp: quiet_def stir_def s1_def\<close>)
qed

section \<open>The kernel as a system of steps\<close>

text \<open>
  The operations of a process that runs in the kernel, the turns of the
  scheduler while no process runs, and wake-ups by devices at any time.  A
  process that is back from \<open>sleep\<close> first finishes it.  Only \<open>wait\<close> sleeps on the
  channel of a process.
\<close>

definition in_kernel :: "'a pstate_scheme \<Rightarrow> bool" where
  "in_kernel s \<longleftrightarrow> (\<exists>p. cur s = Some p \<and> pr_chan (ptable s p) = None)"

inductive kstep :: "'a kernel_scheme \<Rightarrow> 'a kernel_scheme \<Rightarrow> bool" where
  k_sched: "cur s = None \<Longrightarrow> scheduler s = Ok t \<Longrightarrow> kstep s t"
| k_resume: "cur s = Some p \<Longrightarrow> pr_chan (ptable s p) \<noteq> None \<Longrightarrow> sleep_return s = Ok t \<Longrightarrow> kstep s t"
| k_yield: "in_kernel s \<Longrightarrow> yield s = Ok t \<Longrightarrow> kstep s t"
| k_sleep: "in_kernel s \<Longrightarrow> (\<And>q. ch \<noteq> ProcChan q) \<Longrightarrow> sleep ch s = Ok t \<Longrightarrow> kstep s t"
| k_wakeup: "kstep s (wakeup ch s)"
| k_kill: "in_kernel s \<Longrightarrow> kstep s (snd (kill pid s))"
| k_fork: "in_kernel s \<Longrightarrow> fork s = Ok (pid, t) \<Longrightarrow> kstep s t"
| k_exit: "in_kernel s \<Longrightarrow> exit status s = Ok t \<Longrightarrow> kstep s t"
| k_wait: "in_kernel s \<Longrightarrow> wait a s = Ok (r, t) \<Longrightarrow> kstep s t"
| k_close: "in_kernel s \<Longrightarrow> fileclose f s = Ok t \<Longrightarrow> kstep s t"
| k_fault: "in_kernel s \<Longrightarrow> page_fault va s = Ok t \<Longrightarrow> kstep s t"

inductive ksteps :: "'a kernel_scheme \<Rightarrow> 'a kernel_scheme \<Rightarrow> bool" for s where
  none: "ksteps s s"
| more: "ksteps s t \<Longrightarrow> kstep t u \<Longrightarrow> ksteps s u"

lemma kstep_ok: "kstep s t \<Longrightarrow> procs_ok s \<Longrightarrow> procs_ok t"
proof (induction rule: kstep.induct)
  case (k_sleep s ch t)
  then obtain p where "cur s = Some p" by (auto simp: in_kernel_def)
  from procs_ok_sleep [OF k_sleep(4,3) this] k_sleep(2) show ?case by blast
next
  case (k_wakeup s ch)
  from procs_ok_quiet [OF quiet_wakes [OF wakeup1_wakes] k_wakeup] show ?case by (simp add: wakeup_def)
qed (auto intro: procs_ok_scheduler procs_ok_sleep_return procs_ok_yield procs_ok_fork procs_ok_exit procs_ok_wait
    procs_ok_quiet [OF quiet_kill] procs_ok_quiet [OF quiet_fileclose] procs_ok_quiet [OF quiet_page_fault])

lemma ksteps_ok: "ksteps s t \<Longrightarrow> procs_ok s \<Longrightarrow> procs_ok t"
  by (induction rule: ksteps.induct) (auto intro: kstep_ok)


section \<open>A runnable process gets its turn\<close>

text \<open>The process stays runnable while others run.\<close>

definition keeps :: "nat \<Rightarrow> 'a pstate_scheme \<Rightarrow> 'a pstate_scheme \<Rightarrow> bool" where
  "keeps p s t \<longleftrightarrow> (st s p = RUNNABLE \<longrightarrow> st t p = RUNNABLE) \<and> scan t = scan s \<and> (cur t = cur s \<or> cur t = None)"

lemma keeps_trans: "keeps p s t \<Longrightarrow> keeps p t u \<Longrightarrow> keeps p s u"
  by (auto simp: keeps_def)

lemma keeps_quiet: "quiet s t \<Longrightarrow> keeps p s t"
proof -
  assume q: "quiet s t"
  then have "st t p = st s p \<or> st s p = SLEEPING" by (auto simp: quiet_def stir_def)
  then show ?thesis using q by (auto simp: keeps_def quiet_def stir_def)
qed

lemma keeps_stir: "stir s t \<Longrightarrow> keeps p s t"
proof -
  assume q: "stir s t"
  then have "st t p = st s p \<or> st s p = SLEEPING" by (auto simp: stir_def)
  then show ?thesis using q by (auto simp: keeps_def stir_def)
qed

lemma keeps_upd: "st s q \<noteq> RUNNABLE \<Longrightarrow> keeps p s (upd_proc q f s)"
  by (auto simp: keeps_def)

lemma keeps_sched: "sched s = Ok t \<Longrightarrow> keeps p s t"
  using sched_Ok [of s t] by (simp add: keeps_def)

lemma keeps_fork:
  assumes "fork s = Ok (pid, t)"
  shows "keeps p s t"
proof -
  obtain c where c: "cur s = Some c" using assms by (auto simp: fork_def split: option.splits)
  obtain np s1 where al: "allocproc s = (np, s1)" by (rule prod.exhaust)
  show ?thesis
  proof (cases np)
    case None
    then show ?thesis using assms c al keeps_quiet [OF allocproc_None] by (auto simp: fork_def)
  next
    case (Some n)
    note A = allocproc_Some [OF al [unfolded Some]]
    obtain d s2 where cp: "copyuvm (pr_pgdir (ptable s1 c)) (pr_sz (ptable s1 c)) s1 = Ok (d, s2)"
      using assms c al Some by (auto simp: fork_def elim!: bindr_OkE)
    define s3 where "s3 = upd_proc n (\<lambda>r. r\<lparr>pr_pgdir := d\<rparr>) s2"
    have q3: "quiet_but n s s3" unfolding s3_def
      by (rule quiet_but_trans [OF A(3) quiet_but_trans [OF quiet_but_quiet [OF quiet_only_mem [OF only_mem_copyuvm [OF cp]]] quiet_but_upd]])
    have "(\<exists>s4. kfree (pr_kstack (ptable s3 n)) s3 = Ok s4 \<and> t = upd_proc n (\<lambda>r. r\<lparr>pr_kstack := 0, pr_state := UNUSED\<rparr>) s4)
        \<or> fork_child c n s3 = Ok (pid, t)"
      using assms c al Some cp by (auto simp: fork_def s3_def Let_def split: if_splits elim!: bindr_OkE)
    then have "quiet_but n s t"
      using quiet_but_trans [OF q3 fork_child_ok(1)] quiet_but_trans [OF q3 quiet_but_trans [OF quiet_but_quiet [OF quiet_kfree] quiet_but_upd]]
      by blast
    moreover have "p \<noteq> n" if "st s p = RUNNABLE" using A(2) that by auto
    ultimately show ?thesis unfolding keeps_def quiet_but_def by auto
  qed
qed

lemma keeps_exit:
  assumes "exit status s = Ok t" "procs_ok s"
  shows "keeps p s t"
proof -
  obtain c where c: "cur s = Some c" using assms(1) by (auto simp: exit_def split: option.splits)
  define s1 where "s1 = upd_proc c (\<lambda>r. r\<lparr>pr_status := status\<rparr>) s"
  have q1: "quiet s s1" unfolding s1_def by (rule quiet_upd_proc) simp_all
  obtain s2 ip s3 where e: "close_files c [0..<NOFILE] s1 = Ok s2" "fs_do (\<lambda>t. bindr (begin_op t) (\<lambda>t. bindr (iput ip t) end_op)) s2 = Ok s3"
    "exit_leave c (upd_proc c (\<lambda>r. r\<lparr>pr_cwd := None\<rparr>) s3) = Ok t"
    using assms(1) c by (auto simp: exit_def Let_def s1_def split: option.splits if_splits elim!: bindr_OkE)
  define s4 where "s4 = upd_proc c (\<lambda>r. r\<lparr>pr_cwd := None\<rparr>) s3"
  have q4: "quiet s3 s4" unfolding s4_def by (rule quiet_upd_proc) simp_all
  note q = quiet_trans [OF quiet_trans [OF quiet_trans [OF q1 quiet_close_files [OF e(1)]] quiet_fs_do [OF e(2)]] q4]
  have ok: "procs_ok s4" by (rule procs_ok_quiet [OF q assms(2)])
  have c4: "cur s4 = Some c" using q c by (simp add: quiet_def stir_def)
  have cn: "c < NPROC" "st s4 c = RUNNING" using procs_okD(1) [OF ok c4] by auto
  define u where "u = wake_parent (par s4 c) s4"
  obtain i where i: "i < NPROC" "initproc s4 = Some i" by (rule procs_ok_init [OF ok])
  have qu: "quiet s4 u" unfolding u_def by (rule wake_parent_ok(1) [OF ok cn(1)])
  have sv: "stir u (fold (pass_child c) [0..<NPROC] u)"
    by (rule stir_pass_children [OF _ i(1)]) (use qu i(2) in \<open>simp add: quiet_def stir_def\<close>)
  have sc: "st (fold (pass_child c) [0..<NPROC] u) c \<noteq> RUNNABLE"
  proof -
    have "st u c = st s4 c \<or> st s4 c = SLEEPING" using qu by (auto simp: quiet_def stir_def)
    then have "st u c = RUNNING" using cn(2) by auto
    moreover have "st (fold (pass_child c) [0..<NPROC] u) c = st u c \<or> st u c = SLEEPING" using sv by (auto simp: stir_def)
    ultimately show ?thesis by auto
  qed
  have "sched (upd_proc c (\<lambda>r. r\<lparr>pr_state := ZOMBIE\<rparr>) (fold (pass_child c) [0..<NPROC] u)) = Ok t"
    using e(3) by (simp add: exit_leave_def Let_def u_def s4_def)
  from keeps_trans [OF keeps_trans [OF keeps_trans [OF keeps_trans [OF keeps_quiet [OF q] keeps_quiet [OF qu]] keeps_stir [OF sv]] keeps_upd [OF sc]] keeps_sched [OF this]]
  show ?thesis .
qed

lemma keeps_wait:
  assumes "wait a s = Ok (r, t)" "procs_ok s"
  shows "keeps p s t"
proof -
  obtain c where c: "cur s = Some c" using assms(1) by (auto simp: wait_def split: option.splits)
  have cr: "st s c \<noteq> RUNNABLE" using procs_okD(1) [OF assms(2) c] by simp
  show ?thesis
  proof (cases "wait_scan c [0..<NPROC] False (ptable s)")
    case (Inl q)
    then have z: "st s q = ZOMBIE" using wait_scan_Inl [OF Inl] by auto
    obtain u where u: "reap q s = Ok u" "put_user a (le_bytes 4 (unat (pr_status (ptable u q)))) u = Ok t"
      using assms(1) c Inl by (auto simp: wait_def Let_def simp del: put_user.simps le_bytes.simps)
    obtain v w where v: "kfree (pr_kstack (ptable s q)) s = Ok v" "freevm (pr_pgdir (ptable v q)) (upd_proc q (\<lambda>r. r\<lparr>pr_kstack := 0\<rparr>) v) = Ok w"
      "u = upd_proc q (\<lambda>r. r\<lparr>pr_pid := 0, pr_parent := None, pr_name := [], pr_killed := False, pr_state := UNUSED\<rparr>) w"
      using u(1) by (auto simp: reap_def elim!: bindr_OkE)
    have "quiet v (upd_proc q (\<lambda>r. r\<lparr>pr_kstack := 0\<rparr>) v)" by (rule quiet_upd_proc) simp_all
    from quiet_trans [OF quiet_trans [OF quiet_kfree [OF v(1)] this] quiet_only_mem [OF only_mem_freevm [OF v(2)]]]
    have w: "quiet s w" .
    then have "st w q = st s q \<or> st s q = SLEEPING" by (auto simp: quiet_def stir_def)
    then have "st w q \<noteq> RUNNABLE" using z by auto
    from keeps_trans [OF keeps_trans [OF keeps_quiet [OF w] keeps_upd [OF this]] keeps_quiet [OF quiet_put_user [OF u(2) [unfolded v(3)]]]]
    show ?thesis .
  next
    case (Inr h)
    then have "t = s \<or> sched (upd_proc c (\<lambda>r. r\<lparr>pr_chan := Some (ProcChan c), pr_state := SLEEPING\<rparr>) s) = Ok t"
      using assms(1) c by (auto simp: wait_def sleep_def split: if_splits elim!: bindr_OkE)
    then show ?thesis using keeps_trans [OF keeps_upd [OF cr] keeps_sched] keeps_quiet [OF quiet_refl] by blast
  qed
qed

lemma kstep_keeps:
  assumes "kstep s t" "procs_ok s"
  shows "(cur s = None \<and> scheduler s = Ok t) \<or> keeps p s t"
  using assms
proof (induction rule: kstep.induct)
  case (k_resume s c t)
  then have "st s c \<noteq> RUNNABLE" using procs_okD(1) [OF k_resume(4,1)] by simp
  then show ?case using k_resume keeps_upd by (auto simp: sleep_return_def)
next
  case (k_yield s t)
  then obtain c where c: "cur s = Some c" by (auto simp: in_kernel_def)
  then have "st s c \<noteq> RUNNABLE" using procs_okD(1) [OF k_yield(3)] by auto
  then show ?case using k_yield(2) c keeps_trans [OF keeps_upd keeps_sched] by (auto simp: yield_def)
next
  case (k_sleep s ch t)
  then obtain c where c: "cur s = Some c" by (auto simp: in_kernel_def)
  then have "st s c \<noteq> RUNNABLE" using procs_okD(1) [OF k_sleep(4)] by auto
  then show ?case using k_sleep(3) c keeps_trans [OF keeps_upd keeps_sched] by (auto simp: sleep_def)
next
  case (k_wakeup s ch)
  show ?case unfolding wakeup_def using keeps_quiet [OF quiet_wakes [OF wakeup1_wakes]] by blast
qed (auto intro: keeps_fork keeps_exit keeps_wait keeps_quiet [OF quiet_kill] keeps_quiet [OF quiet_fileclose] keeps_quiet [OF quiet_page_fault])

text \<open>The number of slots that the scheduler visits before it comes to \<open>p\<close>.\<close>

definition ahead :: "nat \<Rightarrow> 'a pstate_scheme \<Rightarrow> nat" where
  "ahead p s = (if scan s \<le> p then p - scan s else p + NPROC - scan s)"

lemma scheduler_ahead:
  assumes "scheduler s = Ok t" "st s p = RUNNABLE" "p < NPROC" "scan s \<le> NPROC"
  shows "scan t \<le> NPROC" "cur s = None \<Longrightarrow> cur t = None \<Longrightarrow> ahead p t \<le> ahead p s \<and> st t p = RUNNABLE"
    "cur t = Some q \<Longrightarrow> cur s = None \<Longrightarrow> q \<noteq> p \<Longrightarrow> ahead p t < ahead p s \<and> st t p = RUNNABLE"
proof -
  have "(cur s = None \<longrightarrow> cur t = None) \<and> scan t = 0 \<and> ptable t = ptable s \<and> \<not> scan s \<le> p
    \<or> (\<exists>q. cur t = Some q \<and> scan t = q + 1 \<and> scan s \<le> q \<and> q < NPROC \<and> (scan s \<le> p \<longrightarrow> q \<le> p)
         \<and> ptable t = (ptable s)(q := (ptable s q)\<lparr>pr_state := RUNNING\<rparr>))"
  proof (cases "find (\<lambda>p. st s p = RUNNABLE) [scan s..<NPROC]")
    case None
    then have "\<not> scan s \<le> p" using assms(2,3) by (auto simp: find_None_iff)
    then show ?thesis using None assms(1) by (auto simp: scheduler_def)
  next
    case (Some q)
    then obtain k where k: "k < NPROC - scan s" "q = scan s + k" "\<forall>j < k. st s (scan s + j) \<noteq> RUNNABLE"
      by (auto simp: find_Some_iff)
    have "q \<le> p" if "scan s \<le> p"
    proof (rule ccontr)
      assume "\<not> q \<le> p"
      then have "p - scan s < k" "scan s + (p - scan s) = p" using that k(2) by auto
      then show False using k(3) assms(2) by metis
    qed
    then show ?thesis using assms(1) Some k by (auto simp: scheduler_def switchuvm_def split: if_splits)
  qed
  then show "scan t \<le> NPROC" "cur s = None \<Longrightarrow> cur t = None \<Longrightarrow> ahead p t \<le> ahead p s \<and> st t p = RUNNABLE"
    "cur t = Some q \<Longrightarrow> cur s = None \<Longrightarrow> q \<noteq> p \<Longrightarrow> ahead p t < ahead p s \<and> st t p = RUNNABLE"
    using assms(2-4) by (auto simp: ahead_def)
qed

text \<open>
  Runs of the kernel in which \<open>p\<close> does not get the processor, with the
  number of times that another process gets it.
\<close>

inductive passed_over :: "nat \<Rightarrow> 'a kernel_scheme \<Rightarrow> nat \<Rightarrow> 'a kernel_scheme \<Rightarrow> bool" for p s where
  po_start: "passed_over p s 0 s"
| po_step: "passed_over p s n t \<Longrightarrow> kstep t u \<Longrightarrow> cur u \<noteq> Some p \<Longrightarrow>
    passed_over p s (if cur t = None \<and> cur u \<noteq> None then n + 1 else n) u"

lemma passed_over_ahead:
  assumes "passed_over p s n t" "procs_ok s" "p < NPROC" "st s p = RUNNABLE" "scan s \<le> NPROC"
  shows "procs_ok t \<and> st t p = RUNNABLE \<and> scan t \<le> NPROC \<and> n + ahead p t \<le> ahead p s"
  using assms
proof (induction rule: passed_over.induct)
  case (po_step n t u)
  then have t: "procs_ok t" "st t p = RUNNABLE" "scan t \<le> NPROC" "n + ahead p t \<le> ahead p s" by blast+
  from kstep_keeps [OF po_step(2) t(1), of p] show ?case
  proof
    assume k: "cur t = None \<and> scheduler t = Ok u"
    note sa = scheduler_ahead [OF conjunct2 [OF k] t(2) assms(3) t(3)]
    show ?thesis
    proof (cases "cur u")
      case None
      then show ?thesis using sa(1,2) k t kstep_ok [OF po_step(2) t(1)] by auto
    next
      case (Some q)
      then have "q \<noteq> p" using po_step(3) by auto
      then show ?thesis using sa(1) sa(3) [OF Some] k t kstep_ok [OF po_step(2) t(1)] Some by auto
    qed
  next
    assume "keeps p t u"
    then show ?thesis using t kstep_ok [OF po_step(2) t(1)] by (auto simp: keeps_def ahead_def)
  qed
qed simp


section \<open>A concrete table\<close>

text \<open>Init sleeps in \<open>wait\<close>, its child 1 runs, its child 2 is runnable.\<close>

definition demo_proc :: proc where
  "demo_proc = \<lparr>pr_sz = 0, pr_pgdir = KERNBASE + 0x400000, pr_kstack = KERNBASE + 0x500000, pr_state = UNUSED, pr_pid = 0, pr_parent = None,
     pr_tf = tf_zero, pr_context = \<lparr>x_edi = 0, x_esi = 0, x_ebx = 0, x_ebp = 0, x_eip = 0\<rparr>, pr_chan = None, pr_killed = False,
     pr_ofile = replicate 16 None, pr_cwd = None, pr_name = [], pr_status = 0, pr_guard = 0\<rparr>"

definition demo_kernel :: kernel where
  "demo_kernel = \<lparr>kmem = (\<lambda>_. 0), freelist = 0, use_lock = True, kend = KERNBASE + 0x101234, kdata = 0, kpgdir = 0, cr3 = 0, esp0 = 0,
     ptable = (\<lambda>_. demo_proc)
       (0 := demo_proc\<lparr>pr_state := SLEEPING, pr_chan := Some (ProcChan 0), pr_pid := 1\<rparr>,
        1 := demo_proc\<lparr>pr_state := RUNNING, pr_parent := Some 0, pr_pid := 2\<rparr>,
        2 := demo_proc\<lparr>pr_state := RUNNABLE, pr_parent := Some 0, pr_pid := 3\<rparr>),
     initproc = Some 0, nextpid = 4, cur = Some 1, scan = 2, ticks = 0, forkret_sym = 0, trapret_sym = 0,
     fsys = demo_fs 35 (\<lambda>_. replicate BSIZE 0),
     ftable = (\<lambda>_. \<lparr>f_type = FD_NONE, f_ref = 0, f_readable = False, f_writable = False, f_pipe = 0, f_ip = 0, f_off = 0\<rparr>),
     pipes = (\<lambda>_. pipe_new (replicate 512 0))\<rparr>"

lemma demo_procs_ok: "procs_ok demo_kernel"
  by (rule procs_okI [of _ 0]) (auto simp: demo_kernel_def demo_proc_def NPROC_def alive_def waiting_def split: if_splits)

definition demo_yielded :: kernel where
  "demo_yielded = (switchkvm (upd_proc 1 (\<lambda>r. r\<lparr>pr_state := RUNNABLE\<rparr>) demo_kernel))\<lparr>cur := None\<rparr>"

lemma demo_cur: "cur demo_kernel = Some 1" "pr_chan (ptable demo_kernel 1) = None"
  by (simp_all add: demo_kernel_def demo_proc_def)

lemma demo_yield: "kstep demo_kernel demo_yielded"
  by (rule k_yield) (use demo_cur in \<open>simp_all add: in_kernel_def yield_def sched_def demo_yielded_def\<close>)



end
