(* ===== verification/Spec2Isabelle.thy ===== *)
theory Spec2Isabelle
  imports Split_Files Inode_Data Textutils Sh_Run Spinlock Proc_Inv
begin

text \<open>
  A model of the programs under src/ and of its correctness properties.
\<close>

end
